(* ===== verification/Prelude.thy ===== *)
theory Prelude
  imports Main "HOL-Library.Word" "HOL-Library.Monad_Syntax"
begin

text \<open>
  Shared vocabulary of the development: machine words and byte lists, unsigned
  64-bit subtraction with its wrap-around, the generic lemmas on lists and on the
  option monad that the component theories use, and the interface of a transition
  system whose reachable states satisfy an invariant.

  A computation of the model that ends in undefined behaviour of C++ (a vector
  indexed past its end, a copy outside a buffer, a null or dangling pointer, an
  invalidated iterator) or that never returns has the value \<^term>\<open>None\<close>; a C++
  exception is the left side of a sum.
\<close>

named_theorems store_simps \<open>rewrite rules of the shared-node store\<close>
named_theorems node_simps \<open>rewrite rules of buffer nodes\<close>

type_synonym byte = "8 word"

subsection \<open>Unsigned 64-bit arithmetic on \<open>nat\<close>\<close>

definition sub64 :: "nat \<Rightarrow> nat \<Rightarrow> nat" where
  "sub64 a b = (if b \<le> a then a - b else a + 2 ^ 64 - b)"

definition add64 :: "nat \<Rightarrow> nat \<Rightarrow> nat" where
  "add64 a b = (a + b) mod 2 ^ 64"

lemma sub64_le [simp]: "b \<le> a \<Longrightarrow> sub64 a b = a - b"
  by (simp add: sub64_def)

lemma add64_small [simp]: "a + b < 2 ^ 64 \<Longrightarrow> add64 a b = a + b"
  by (simp add: add64_def)

lemma sub64_eq_word:
  assumes "a < 2 ^ 64" "b < 2 ^ 64"
  shows "sub64 a b = unat (word_of_nat a - word_of_nat b :: 64 word)"
proof -
  have "unat (word_of_nat a :: 64 word) = a" "unat (word_of_nat b :: 64 word) = b"
    using assms by (simp_all add: unat_of_nat)
  then show ?thesis
    by (simp add: sub64_def unat_sub_if' word_le_nat_alt)
qed

subsection \<open>Copying into and out of a fixed array\<close>

text \<open>\<open>memcpy\<close> with one side inside an array: \<^term>\<open>None\<close> when it leaves the array.\<close>

definition memcpy_in :: "'a list \<Rightarrow> nat \<Rightarrow> 'a list \<Rightarrow> 'a list option" where
  "memcpy_in buf off d =
     (if off + length d \<le> length buf
      then Some (take off buf @ d @ drop (off + length d) buf) else None)"

definition memcpy_out :: "'a list \<Rightarrow> nat \<Rightarrow> nat \<Rightarrow> 'a list option" where
  "memcpy_out buf off n = (if off + n \<le> length buf then Some (take n (drop off buf)) else None)"

definition nth_opt :: "'a list \<Rightarrow> nat \<Rightarrow> 'a option" where
  "nth_opt xs i = (if i < length xs then Some (xs ! i) else None)"

lemma nth_opt_Some [simp]: "i < length xs \<Longrightarrow> nth_opt xs i = Some (xs ! i)"
  by (simp add: nth_opt_def)

lemma nth_opt_None [simp]: "length xs \<le> i \<Longrightarrow> nth_opt xs i = None"
  by (simp add: nth_opt_def)

lemma nth_opt_eq_Some: "nth_opt xs i = Some x \<longleftrightarrow> i < length xs \<and> xs ! i = x"
  by (auto simp: nth_opt_def)

lemma memcpy_in_Some:
  "off + length d \<le> length buf \<Longrightarrow>
   memcpy_in buf off d = Some (take off buf @ d @ drop (off + length d) buf)"
  by (simp add: memcpy_in_def)

lemma memcpy_out_Some:
  "off + n \<le> length buf \<Longrightarrow> memcpy_out buf off n = Some (take n (drop off buf))"
  by (simp add: memcpy_out_def)

subsection \<open>Numbers as strings\<close>

text \<open>\<open>std::to_string\<close> of a number that is not negative.\<close>

fun nat_digits :: "nat \<Rightarrow> string" where
  "nat_digits n = (if n < 10 then [char_of (48 + n)] else nat_digits (n div 10) @ [char_of (48 + n mod 10)])"

declare nat_digits.simps [simp del]

subsection \<open>Lists updated by index\<close>

lemma drop_list_update_last:
  "i < length xs \<Longrightarrow> drop i (xs[i := x]) = x # drop (Suc i) xs"
  by (simp add: Cons_nth_drop_Suc [symmetric] drop_update_swap)

lemma list_update_all:
  assumes "m \<in> set (xs[j := y])" "\<And>i. i < length xs \<Longrightarrow> P (xs ! i)" "P y"
  shows "P m"
proof -
  from assms(1) have "m = y \<or> m \<in> set xs"
    using set_update_subset_insert [of xs j y] by auto
  with assms(2,3) show ?thesis by (auto simp: in_set_conv_nth)
qed

lemma nth_update_same: "f y = f (xs ! i) \<Longrightarrow> f (xs[i := y] ! c) = f (xs ! c)"
  by (cases "i < length xs"; cases "c = i"; simp add: list_update_beyond)

lemma sum_list_replicate_mult: "sum_list (replicate n (c::nat)) = n * c"
  by (induction n) simp_all

lemma concat_replicate_Nil: "concat (map (\<lambda>_. []) xs) = []"
  by simp

subsection \<open>Transition systems with an invariant\<close>

text \<open>
  Several components are state machines driven by events in an unknown order. The
  interface fixes the start states, one step and the invariant; a component shows the
  two laws for its own step and gets the statement about every run.
\<close>

fun run_steps :: "('s \<Rightarrow> 'e \<Rightarrow> 's) \<Rightarrow> 's \<Rightarrow> 'e list \<Rightarrow> 's" where
  "run_steps step s [] = s"
| "run_steps step s (e # es) = run_steps step (step s e) es"

locale machine =
  fixes initial :: "'s \<Rightarrow> bool"
    and step :: "'s \<Rightarrow> 'e \<Rightarrow> 's"
    and inv :: "'s \<Rightarrow> bool"
  assumes initial_inv: "initial s \<Longrightarrow> inv s"
    and step_inv: "inv s \<Longrightarrow> inv (step s e)"
begin

lemma run_inv: "inv s \<Longrightarrow> inv (run_steps step s es)"
  by (induction es arbitrary: s) (auto intro: step_inv)

lemma run_initial_inv: "initial s \<Longrightarrow> inv (run_steps step s es)"
  by (intro run_inv initial_inv)

end

lemma run_steps_append: "run_steps step s (xs @ ys) = run_steps step (run_steps step s xs) ys"
  by (induction xs arbitrary: s) simp_all

end
