(* ===== verification/BufferNode.thy ===== *)
theory BufferNode
  imports Prelude
begin

text \<open>
  One buffer node (\<^verbatim>\<open>include/internal/buffer/BufferNode.h\<close>,
  \<^verbatim>\<open>src/internal/buffer/BufferNode.cpp\<close>): a 1024-byte array with the offset where
  reading starts and the offset where writing continues. The readable bytes of a node
  are those between the two offsets.
\<close>

definition BufferNodeSize :: nat where
  "BufferNodeSize = 1024"

record BufferNode =
  node_start :: nat
  node_end :: nat
  node_buffer :: "byte list"

definition newBufferNode :: BufferNode where
  "newBufferNode = \<lparr>node_start = 0, node_end = 0, node_buffer = replicate BufferNodeSize 0\<rparr>"

text \<open>The copy constructor copies the bytes and not the two offsets.\<close>

definition copyBufferNode :: "BufferNode \<Rightarrow> BufferNode" where
  "copyBufferNode other = \<lparr>node_start = 0, node_end = 0, node_buffer = node_buffer other\<rparr>"

text \<open>The callback that \<^verbatim>\<open>unlockedMoveBufferHead\<close> runs on each node it moves.\<close>

definition resetNode :: "BufferNode \<Rightarrow> BufferNode" where
  "resetNode n = n\<lparr>node_start := 0, node_end := 0\<rparr>"

subsection \<open>Well-formed nodes and the bytes they hold\<close>

definition node_ok :: "BufferNode \<Rightarrow> bool" where
  "node_ok n \<longleftrightarrow> node_start n \<le> node_end n \<and> node_end n \<le> BufferNodeSize
     \<and> length (node_buffer n) = BufferNodeSize"

definition node_data :: "BufferNode \<Rightarrow> byte list" where
  "node_data n = take (node_end n - node_start n) (drop (node_start n) (node_buffer n))"

lemma node_ok_new [simp]: "node_ok newBufferNode"
  by (simp add: node_ok_def newBufferNode_def)

lemma node_ok_reset [simp]: "node_ok n \<Longrightarrow> node_ok (resetNode n)"
  by (simp add: node_ok_def resetNode_def)

lemma reset_fields [simp]:
  "node_start (resetNode n) = 0" "node_end (resetNode n) = 0"
  "node_buffer (resetNode n) = node_buffer n"
  by (simp_all add: resetNode_def)

lemma new_fields [simp]: "node_start newBufferNode = 0" "node_end newBufferNode = 0"
  by (simp_all add: newBufferNode_def)

lemma copy_fields [simp]:
  "node_start (copyBufferNode n) = 0" "node_end (copyBufferNode n) = 0"
  "node_buffer (copyBufferNode n) = node_buffer n"
  by (simp_all add: copyBufferNode_def)

lemma node_data_empty [node_simps]: "node_end n \<le> node_start n \<Longrightarrow> node_data n = []"
  by (simp add: node_data_def)

lemma node_data_reset [simp]: "node_data (resetNode n) = []"
  by (simp add: node_data_def)

lemma node_data_new [simp]: "node_data newBufferNode = []"
  by (simp add: node_data_def)

lemma node_data_copy [simp]: "node_data (copyBufferNode n) = []"
  by (simp add: node_data_def)

lemma length_node_data [simp]: "node_ok n \<Longrightarrow> length (node_data n) = node_end n - node_start n"
  by (auto simp: node_ok_def node_data_def min_def)

text \<open>Appending to the end of a node and consuming from its start.\<close>

definition node_append :: "BufferNode \<Rightarrow> byte list \<Rightarrow> BufferNode" where
  "node_append n d = n\<lparr>node_buffer := take (node_end n) (node_buffer n) @ d
       @ drop (node_end n + length d) (node_buffer n), node_end := node_end n + length d\<rparr>"

lemma node_append_fields [simp]:
  "node_start (node_append n d) = node_start n" "node_end (node_append n d) = node_end n + length d"
  by (simp_all add: node_append_def)

lemma node_ok_append:
  "node_ok n \<Longrightarrow> node_end n + length d \<le> BufferNodeSize \<Longrightarrow> node_ok (node_append n d)"
  by (simp add: node_ok_def node_append_def)

lemma node_data_append:
  assumes "node_ok n" "node_end n + length d \<le> BufferNodeSize"
  shows "node_data (node_append n d) = node_data n @ d"
proof -
  let ?s = "node_start n" and ?e = "node_end n" and ?buf = "node_buffer n"
  have le: "?s \<le> ?e" "?e \<le> length ?buf" "?e - ?s = length (drop ?s (take ?e ?buf))"
    using assms by (auto simp: node_ok_def)
  have data: "node_data n = drop ?s (take ?e ?buf)"
    by (simp add: node_data_def drop_take)
  have "node_data (node_append n d)
      = take (length (drop ?s (take ?e ?buf)) + length d)
          (drop ?s (take ?e ?buf) @ d @ drop (?e + length d) ?buf)"
    using le by (simp add: node_append_def node_data_def min_def)
  then show ?thesis
    by (simp only: data take_append) simp
qed

lemma node_data_consume:
  "k \<le> node_end n - node_start n \<Longrightarrow>
   node_data (n\<lparr>node_start := node_start n + k\<rparr>) = drop k (node_data n)"
  by (simp add: node_data_def drop_take add.commute)

lemma node_ok_consume:
  "node_ok n \<Longrightarrow> k \<le> node_end n - node_start n \<Longrightarrow>
   node_ok (n\<lparr>node_start := node_start n + k\<rparr>)"
  by (auto simp: node_ok_def)

lemma node_out:
  assumes "node_ok n" "k \<le> node_end n - node_start n"
  shows "memcpy_out (node_buffer n) (node_start n) k = Some (take k (node_data n))"
  using assms by (auto simp: memcpy_out_def node_ok_def node_data_def min_def)

lemma node_in:
  assumes "node_ok n" "node_end n + length d \<le> BufferNodeSize"
  shows "map_option (\<lambda>buf. n\<lparr>node_buffer := buf, node_end := node_end n + length d\<rparr>)
           (memcpy_in (node_buffer n) (node_end n) d) = Some (node_append n d)"
  using assms by (simp add: memcpy_in_def node_ok_def node_append_def)

end
