(* ===== verification/ByteQueue.thy ===== *)
theory ByteQueue
  imports Prelude
begin

text \<open>
  The contract of a byte buffer, seen by its clients (the typed readers and writers, the
  channels, the HTTP encoder): a first-in first-out queue of bytes. Writing never fails
  and appends; reading \<open>n\<close> bytes takes the first \<open>n\<close> when they are there and
  nothing otherwise. \<^verbatim>\<open>ByteArray\<close> provides it.

  The second interface is a fixed-width encoding of values as bytes. Together they give
  what the typed operations promise.
\<close>

datatype queue_op = Push "byte list" | Pop nat

text \<open>The abstract queue and the bytes each operation returns.\<close>

fun queue_step :: "byte list \<Rightarrow> queue_op \<Rightarrow> byte list \<times> byte list" where
  "queue_step q (Push d) = ([], q @ d)"
| "queue_step q (Pop n) = (if n \<le> length q then (take n q, drop n q) else ([], q))"

fun queue_run :: "byte list \<Rightarrow> queue_op list \<Rightarrow> byte list list \<times> byte list" where
  "queue_run q [] = ([], q)"
| "queue_run q (x # xs) =
     (let (out, q') = queue_step q x; (outs, q'') = queue_run q' xs in (out # outs, q''))"

fun impl_run :: "(byte list \<Rightarrow> 'q \<Rightarrow> 'q option) \<Rightarrow> (nat \<Rightarrow> 'q \<Rightarrow> (byte list \<times> 'q) option) \<Rightarrow>
    'q \<Rightarrow> queue_op list \<Rightarrow> (byte list list \<times> 'q) option" where
  "impl_run push pop q [] = Some ([], q)"
| "impl_run push pop q (Push d # xs) =
     do { q \<leftarrow> push d q; (outs, q) \<leftarrow> impl_run push pop q xs; Some ([] # outs, q) }"
| "impl_run push pop q (Pop n # xs) =
     do { (out, q) \<leftarrow> pop n q; (outs, q) \<leftarrow> impl_run push pop q xs; Some (out # outs, q) }"

locale byte_queue =
  fixes create :: "'q"
    and push :: "byte list \<Rightarrow> 'q \<Rightarrow> 'q option"
    and pop :: "nat \<Rightarrow> 'q \<Rightarrow> (byte list \<times> 'q) option"
    and content :: "'q \<Rightarrow> byte list"
    and invar :: "'q \<Rightarrow> bool"
  assumes create_inv: "invar create"
    and create_content: "content create = []"
    and push_ok: "invar q \<Longrightarrow> \<exists>q'. push d q = Some q' \<and> invar q' \<and> content q' = content q @ d"
    and pop_enough: "invar q \<Longrightarrow> n \<le> length (content q) \<Longrightarrow>
      \<exists>q'. pop n q = Some (take n (content q), q') \<and> invar q' \<and> content q' = drop n (content q)"
    and pop_short: "invar q \<Longrightarrow> length (content q) < n \<Longrightarrow> pop n q = Some ([], q)"
begin

lemma simulates:
  assumes "invar q"
  shows "\<exists>q'. impl_run push pop q xs = Some (fst (queue_run (content q) xs), q') \<and> invar q'
     \<and> content q' = snd (queue_run (content q) xs)"
  using assms
proof (induction xs arbitrary: q)
  case Nil
  then show ?case by simp
next
  case (Cons x xs)
  show ?case
  proof (cases x)
    case (Push d)
    obtain q1 where q1: "push d q = Some q1" "invar q1" "content q1 = content q @ d"
      using push_ok [OF Cons.prems] by blast
    with Cons.IH [OF q1(2)] Push show ?thesis by (auto simp: split_beta)
  next
    case (Pop n)
    show ?thesis
    proof (cases "n \<le> length (content q)")
      case True
      obtain q1 where q1: "pop n q = Some (take n (content q), q1)" "invar q1"
          "content q1 = drop n (content q)"
        using pop_enough [OF Cons.prems True] by blast
      with Cons.IH [OF q1(2)] Pop True show ?thesis by (auto simp: split_beta)
    next
      case False
      with Cons.IH [OF Cons.prems] pop_short [OF Cons.prems] Pop show ?thesis
        by (auto simp: split_beta)
    qed
  qed
qed

lemma push_then_pop:
  assumes "invar q" "content q = []"
  shows "\<exists>q' q''. push d q = Some q' \<and> pop (length d) q' = Some (d, q'') \<and> invar q''
     \<and> content q'' = []"
proof -
  obtain q' where q': "push d q = Some q'" "invar q'" "content q' = d"
    using push_ok [OF assms(1), of d] assms(2) by auto
  with pop_enough [OF q'(2), of "length d"] show ?thesis by auto
qed

end

text \<open>Values of a fixed width, as bytes.\<close>

locale codec =
  fixes enc :: "'v \<Rightarrow> byte list" and dec :: "byte list \<Rightarrow> 'v" and width :: nat
  assumes enc_length: "length (enc v) = width"
    and dec_enc: "dec (enc v) = v"

locale typed_queue = byte_queue + codec
begin

text \<open>What \<^verbatim>\<open>retrieve\<close> of a typed value does: the default when there are too few bytes.\<close>

definition pop_value where
  "pop_value dflt q = map_option (\<lambda>(out, q'). (if length out \<noteq> width then dflt else dec out, q'))
     (pop width q)"

lemma typed_push:
  "invar q \<Longrightarrow> \<exists>q'. push (enc v) q = Some q' \<and> invar q' \<and> content q' = content q @ enc v"
  by (rule push_ok)

lemma typed_pop:
  assumes "invar q" "content q = enc v @ rest"
  shows "\<exists>q'. pop_value d q = Some (v, q') \<and> invar q' \<and> content q' = rest"
proof -
  obtain q' where "pop width q = Some (enc v, q')" "invar q'" "content q' = rest"
    using pop_enough [OF assms(1), of width] assms(2) by (auto simp: enc_length)
  then show ?thesis by (simp add: pop_value_def enc_length dec_enc)
qed

lemma typed_fifo:
  assumes "invar q"
  shows "\<exists>q1 q2 q3. push (enc v) q = Some q1 \<and> content q1 = content q @ enc v \<and> pop (length (content q)) q1 = Some (content q, q2)
     \<and> pop_value d q2 = Some (v, q3) \<and> invar q3 \<and> content q3 = []"
proof -
  obtain q1 where q1: "push (enc v) q = Some q1" "invar q1" "content q1 = content q @ enc v"
    using typed_push [OF assms] by blast
  obtain q2 where q2: "pop (length (content q)) q1 = Some (content q, q2)" "invar q2" "content q2 = enc v"
    using pop_enough [OF q1(2), of "length (content q)"] q1(3) by auto
  obtain q3 where "pop_value d q2 = Some (v, q3)" "invar q3" "content q3 = []"
    using typed_pop [OF q2(2), of v "[]" d] q2(3) by auto
  with q1 q2 show ?thesis by blast
qed

lemma typed_short:
  assumes "invar q" "length (content q) < width"
  shows "pop_value d q = Some (d, q)"
  using pop_short [OF assms] assms(2) by (simp add: pop_value_def)

end

end
