(* ===== verification/ByteArray.thy ===== *)
theory ByteArray
  imports BufferNode ByteQueue
begin

text \<open>
  \<^verbatim>\<open>ByteArray\<close> (\<^verbatim>\<open>include/ByteArray.h\<close>, \<^verbatim>\<open>src/ByteArray.cpp\<close>) on
  nodes that no other array shares: the copy-on-write iterators then change nothing, and
  the node vector is a list of nodes. \<^verbatim>\<open>CowByteArray\<close> has the same operations on
  shared nodes and relates the two. Each method is one step here; \<^verbatim>\<open>SharedArray\<close>
  shows that the mutex allows this.

  The sizes are \<^verbatim>\<open>uint64_t\<close> counts of bytes held in memory: their sums cannot
  wrap, their differences are \<^term>\<open>sub64\<close>. Indexing the vector or a buffer out of
  range is \<^term>\<open>None\<close>.
\<close>

record 'n ByteArray =
  m_availableSizeToRead :: nat
  m_availableSizeToWrite :: nat
  m_readNode :: nat
  m_writeNode :: nat
  m_nodes :: "'n list"

type_synonym bytes = "BufferNode ByteArray"

subsection \<open>Operations\<close>

definition newByteArray :: bytes where
  "newByteArray = \<lparr>m_availableSizeToRead = 0, m_availableSizeToWrite = 1 * BufferNodeSize,
     m_readNode = 0, m_writeNode = 0, m_nodes = [newBufferNode]\<rparr>"

function write_loop :: "nat \<Rightarrow> byte list \<Rightarrow> bytes \<Rightarrow> (byte list \<times> bytes) option" where
  "write_loop it data b =
     (if data \<noteq> [] \<and> it < length (m_nodes b) then
        let node = m_nodes b ! it;
            space = sub64 BufferNodeSize (node_end node);
            bytesToWrite = (if space < length data then space else length data)
        in case memcpy_in (node_buffer node) (node_end node) (take bytesToWrite data) of
             None \<Rightarrow> None
           | Some buf \<Rightarrow>
               let node' = node\<lparr>node_buffer := buf, node_end := node_end node + bytesToWrite\<rparr>;
                   b' = b\<lparr>m_nodes := (m_nodes b)[it := node']\<rparr>;
                   b'' = (if m_writeNode b' + 1 < length (m_nodes b') \<and> node_end node' = BufferNodeSize
                          then b'\<lparr>m_writeNode := m_writeNode b' + 1\<rparr> else b')
               in write_loop (it + 1) (drop bytesToWrite data) b''
      else Some (data, b))"
  by pat_completeness auto
termination
  by (relation "measure (\<lambda>(it, data, b). length (m_nodes b) - it)") (auto simp: Let_def)

declare write_loop.simps [simp del]

definition node_moveToTail :: "nat \<Rightarrow> BufferNode list \<Rightarrow> BufferNode list option" where
  "node_moveToTail e ns = (if e \<le> length ns then Some (drop e ns @ map resetNode (take e ns)) else None)"

definition node_allocMore :: "nat \<Rightarrow> BufferNode list \<Rightarrow> BufferNode list" where
  "node_allocMore n ns = (if n < length ns then ns else ns @ replicate (n - length ns) newBufferNode)"

definition unlockedMoveBufferHead :: "bytes \<Rightarrow> bytes option" where
  "unlockedMoveBufferHead b =
     (if m_readNode b = 0 then Some b
      else map_option (\<lambda>ns. b\<lparr>m_nodes := ns,
               m_availableSizeToWrite := m_availableSizeToWrite b + m_readNode b * BufferNodeSize,
               m_writeNode := sub64 (m_writeNode b) (m_readNode b),
               m_readNode := 0\<rparr>)
             (node_moveToTail (m_readNode b) (m_nodes b)))"

partial_function (option) grow_loop :: "nat \<Rightarrow> nat \<Rightarrow> nat \<Rightarrow> nat \<Rightarrow> nat \<Rightarrow> (nat \<times> nat) option" where
  "grow_loop sz n avail idleNodeCount newWriteable =
     (if newWriteable \<le> sz
      then grow_loop sz n avail (idleNodeCount * 2)
             (sub64 (idleNodeCount * 2) n * BufferNodeSize + avail)
      else Some (idleNodeCount, newWriteable))"

definition unlockedAllocIfNotEnough :: "nat \<Rightarrow> bytes \<Rightarrow> bytes option" where
  "unlockedAllocIfNotEnough sz b =
     (if m_availableSizeToWrite b \<le> sz then do {
        b \<leftarrow> unlockedMoveBufferHead b;
        if m_availableSizeToWrite b \<le> sz then do {
          let n = length (m_nodes b);
          (idleNodeCount, newWriteable) \<leftarrow> grow_loop sz n (m_availableSizeToWrite b) (n * 2)
             (sub64 (n * 2) n * BufferNodeSize + m_availableSizeToWrite b);
          Some (b\<lparr>m_nodes := node_allocMore idleNodeCount (m_nodes b),
                  m_availableSizeToWrite := newWriteable\<rparr>)
        } else Some b
      } else Some b)"

definition writeRaw :: "byte list \<Rightarrow> bytes \<Rightarrow> bytes option" where
  "writeRaw data b = do {
     b \<leftarrow> (if m_availableSizeToWrite b \<le> length data then unlockedAllocIfNotEnough (length data) b
           else Some b);
     (rest, b) \<leftarrow> write_loop (m_writeNode b) data b;
     Some (b\<lparr>m_availableSizeToRead := m_availableSizeToRead b + (length data - length rest),
             m_availableSizeToWrite := sub64 (m_availableSizeToWrite b) (length data - length rest)\<rparr>)
   }"

definition endOfReadNode :: "bytes \<Rightarrow> nat option" where
  "endOfReadNode b =
     (if m_writeNode b = m_readNode b then Some (m_readNode b + 1)
      else map_option (\<lambda>writeNode. if node_end writeNode = 0 then m_writeNode b else m_writeNode b + 1)
             (nth_opt (m_nodes b) (m_writeNode b)))"

function read_loop :: "nat \<Rightarrow> nat \<Rightarrow> nat \<Rightarrow> bytes \<Rightarrow> (byte list \<times> nat \<times> bytes) option" where
  "read_loop it endOfRead len b =
     (if 0 < len \<and> it < endOfRead then
        (case nth_opt (m_nodes b) it of None \<Rightarrow> None
         | Some node \<Rightarrow>
            let avail = sub64 (node_end node) (node_start node);
                bytesToCopy = (if avail < len then avail else len)
            in case memcpy_out (node_buffer node) (node_start node) bytesToCopy of
                 None \<Rightarrow> None
               | Some out \<Rightarrow>
                  let node' = node\<lparr>node_start := node_start node + bytesToCopy\<rparr>;
                      b' = b\<lparr>m_nodes := (m_nodes b)[it := node']\<rparr>;
                      b'' = (if node_start node' = BufferNodeSize
                                \<and> m_readNode b' + 1 < length (m_nodes b')
                             then b'\<lparr>m_writeNode := (if m_readNode b' = m_writeNode b'
                                                    then m_writeNode b' + 1 else m_writeNode b'),
                                     m_readNode := m_readNode b' + 1\<rparr>
                             else b')
                  in map_option (\<lambda>(out', rest). (out @ out', rest))
                       (read_loop (it + 1) endOfRead (len - bytesToCopy) b''))
      else Some ([], len, b))"
  by pat_completeness auto
termination
  by (relation "measure (\<lambda>(it, e, len, b). e - it)") auto

declare read_loop.simps [simp del]

definition retrieveRaw :: "nat \<Rightarrow> bytes \<Rightarrow> (byte list \<times> bytes) option" where
  "retrieveRaw len b =
     (if len \<le> m_availableSizeToRead b then do {
        endOfRead \<leftarrow> endOfReadNode b;
        (out, rest, b) \<leftarrow> read_loop (m_readNode b) endOfRead len b;
        Some (out, b\<lparr>m_availableSizeToRead := sub64 (m_availableSizeToRead b) (len - rest)\<rparr>)
      } else Some ([], b))"

subsection \<open>Shape of the node list\<close>

text \<open>
  \<^verbatim>\<open>m_readNode\<close> does not pass \<^verbatim>\<open>m_writeNode\<close>; nodes between them are
  full, nodes after \<^verbatim>\<open>m_writeNode\<close> are unused, and the write node has room.
\<close>

definition ba_shape :: "bytes \<Rightarrow> bool" where
  "ba_shape b \<longleftrightarrow>
     m_readNode b \<le> m_writeNode b \<and> m_writeNode b < length (m_nodes b)
   \<and> (\<forall>n \<in> set (m_nodes b). node_ok n)
   \<and> (\<forall>i. m_readNode b \<le> i \<and> i < m_writeNode b \<longrightarrow> node_end (m_nodes b ! i) = BufferNodeSize)
   \<and> (\<forall>i. m_readNode b < i \<and> i < length (m_nodes b) \<longrightarrow> node_start (m_nodes b ! i) = 0)
   \<and> (\<forall>i. m_writeNode b < i \<and> i < length (m_nodes b) \<longrightarrow> node_end (m_nodes b ! i) = 0)
   \<and> node_end (m_nodes b ! m_writeNode b) < BufferNodeSize"

definition contents :: "bytes \<Rightarrow> byte list" where
  "contents b = concat (map node_data (drop (m_readNode b) (m_nodes b)))"

definition room :: "bytes \<Rightarrow> nat" where
  "room b = (BufferNodeSize - node_end (m_nodes b ! m_writeNode b))
          + (length (m_nodes b) - Suc (m_writeNode b)) * BufferNodeSize"

definition ba_inv :: "bytes \<Rightarrow> bool" where
  "ba_inv b \<longleftrightarrow> ba_shape b \<and> m_availableSizeToRead b = length (contents b)
     \<and> m_availableSizeToWrite b = room b"

lemma ba_shapeD:
  assumes "ba_shape b"
  shows "m_readNode b \<le> m_writeNode b" "m_writeNode b < length (m_nodes b)"
    "m_readNode b < length (m_nodes b)"
    "i < length (m_nodes b) \<Longrightarrow> node_ok (m_nodes b ! i)"
    "m_readNode b \<le> i \<Longrightarrow> i < m_writeNode b \<Longrightarrow> node_end (m_nodes b ! i) = BufferNodeSize"
    "m_readNode b < i \<Longrightarrow> i < length (m_nodes b) \<Longrightarrow> node_start (m_nodes b ! i) = 0"
    "m_writeNode b < i \<Longrightarrow> i < length (m_nodes b) \<Longrightarrow> node_end (m_nodes b ! i) = 0"
    "node_end (m_nodes b ! m_writeNode b) < BufferNodeSize"
  using assms by (auto simp: ba_shape_def)

lemma room_pos: "ba_shape b \<Longrightarrow> 0 < room b"
  by (auto simp: ba_shape_def room_def)

lemma contents_no_data:
  "(\<And>i. j \<le> i \<Longrightarrow> i < length ns \<Longrightarrow> node_data (ns ! i) = []) \<Longrightarrow>
   concat (map node_data (drop j ns)) = []"
  by (auto simp: in_set_conv_nth)

lemma tail_no_data:
  "ba_shape b \<Longrightarrow> concat (map node_data (drop (Suc (m_writeNode b)) (m_nodes b))) = []"
  by (intro contents_no_data) (simp add: node_data_def ba_shapeD(7))

text \<open>The contents, seen from the write node and from the read node.\<close>

lemma contents_write_split:
  assumes "ba_shape b"
  shows "contents b = concat (map node_data (take (m_writeNode b - m_readNode b)
           (drop (m_readNode b) (m_nodes b)))) @ node_data (m_nodes b ! m_writeNode b)"
proof -
  let ?r = "m_readNode b" and ?w = "m_writeNode b" and ?N = "m_nodes b"
  have rw: "?r \<le> ?w" "?w < length ?N" using assms by (auto dest: ba_shapeD)
  have "drop ?r ?N = take (?w - ?r) (drop ?r ?N) @ drop (?w - ?r) (drop ?r ?N)"
    by (rule append_take_drop_id [symmetric])
  also have "drop (?w - ?r) (drop ?r ?N) = ?N ! ?w # drop (Suc ?w) ?N"
    using rw by (simp add: Cons_nth_drop_Suc)
  finally have "contents b = concat (map node_data (take (?w - ?r) (drop ?r ?N)))
      @ node_data (?N ! ?w) @ concat (map node_data (drop (Suc ?w) ?N))"
    unfolding contents_def by (metis concat.simps(2) concat_append list.simps(9) map_append)
  with tail_no_data [OF assms] show ?thesis by simp
qed

lemma contents_read_split:
  assumes "ba_shape b"
  shows "contents b = node_data (m_nodes b ! m_readNode b)
           @ concat (map node_data (drop (Suc (m_readNode b)) (m_nodes b)))"
  using ba_shapeD(3) [OF assms] by (simp add: contents_def Cons_nth_drop_Suc [symmetric])

lemma ba_shape_new [simp]: "ba_shape newByteArray"
  by (auto simp: ba_shape_def newByteArray_def BufferNodeSize_def)

lemma ba_inv_new [simp]: "ba_inv newByteArray"
  unfolding ba_inv_def
  by (intro conjI ba_shape_new)
     (simp_all add: contents_def room_def newByteArray_def BufferNodeSize_def)

lemma contents_new [simp]: "contents newByteArray = []"
  by (simp add: contents_def newByteArray_def)


subsection \<open>Writing\<close>

lemma write_loop_Nil [simp]: "write_loop it [] b = Some ([], b)"
  by (subst write_loop.simps) simp

text \<open>One round of the loop at the write node, which has room.\<close>

definition append_at_write :: "byte list \<Rightarrow> bytes \<Rightarrow> bytes" where
  "append_at_write d b = b\<lparr>m_nodes := (m_nodes b)[m_writeNode b :=
       node_append (m_nodes b ! m_writeNode b) d],
     m_writeNode := (if m_writeNode b + 1 < length (m_nodes b)
        \<and> node_end (m_nodes b ! m_writeNode b) + length d = BufferNodeSize
        then m_writeNode b + 1 else m_writeNode b)\<rparr>"

lemma append_at_write_fields [simp]:
  "length (m_nodes (append_at_write d b)) = length (m_nodes b)"
  "m_readNode (append_at_write d b) = m_readNode b"
  "m_availableSizeToRead (append_at_write d b) = m_availableSizeToRead b"
  "m_availableSizeToWrite (append_at_write d b) = m_availableSizeToWrite b"
  by (simp_all add: append_at_write_def)

lemma write_loop_step:
  assumes "ba_shape b" "d \<noteq> []"
  defines "k \<equiv> min (BufferNodeSize - node_end (m_nodes b ! m_writeNode b)) (length d)"
  shows "write_loop (m_writeNode b) d b
       = write_loop (m_writeNode b + 1) (drop k d) (append_at_write (take k d) b)"
proof -
  let ?n = "m_nodes b ! m_writeNode b"
  have ok: "node_ok ?n" "m_writeNode b < length (m_nodes b)" "node_end ?n < BufferNodeSize"
    using ba_shapeD [OF assms(1)] by auto
  have le: "node_end ?n + length (take k d) \<le> BufferNodeSize"
    and len: "length (take k d) = k"
    using ok by (auto simp: k_def)
  have k: "(if sub64 BufferNodeSize (node_end ?n) < length d
            then sub64 BufferNodeSize (node_end ?n) else length d) = k"
    using ok by (simp add: k_def min_def)
  obtain buf where buf: "memcpy_in (node_buffer ?n) (node_end ?n) (take k d) = Some buf"
    and app: "?n\<lparr>node_buffer := buf, node_end := node_end ?n + k\<rparr> = node_append ?n (take k d)"
    using node_in [OF ok(1) le] len by (auto simp: map_option_case split: option.splits)
  show ?thesis
    by (subst write_loop.simps, simp only: Let_def k)
       (use assms(2) ok in \<open>simp add: buf app [symmetric] append_at_write_def len [unfolded length_take]\<close>)
qed

lemma append_at_write_shape:
  assumes "ba_shape b" "node_end (m_nodes b ! m_writeNode b) + length d \<le> BufferNodeSize"
    and "length d < room b"
  shows "ba_shape (append_at_write d b)"
proof -
  let ?w = "m_writeNode b" and ?N = "m_nodes b"
  note D = ba_shapeD [OF assms(1)]
  have last: "node_end (?N ! ?w) + length d < BufferNodeSize" if "\<not> ?w + 1 < length ?N"
  proof -
    have "length ?N = Suc ?w" using that D by auto
    then show ?thesis using assms(3) D by (simp add: room_def)
  qed
  have "node_ok n" if "n \<in> set (?N[?w := node_append (?N ! ?w) d])" for n
    by (rule list_update_all [OF that]) (auto intro: D(2,4) node_ok_append assms(2))
  then show ?thesis
    using D last assms(2)
    by (auto simp: ba_shape_def append_at_write_def nth_list_update less_Suc_eq BufferNodeSize_def)
qed

lemma append_at_write_contents:
  assumes "ba_shape b" "node_end (m_nodes b ! m_writeNode b) + length d \<le> BufferNodeSize"
  shows "contents (append_at_write d b) = contents b @ d"
proof -
  let ?r = "m_readNode b" and ?w = "m_writeNode b" and ?N = "m_nodes b"
  let ?n = "node_append (?N ! ?w) d"
  note D = ba_shapeD [OF assms(1)]
  have "drop ?r (?N[?w := ?n]) = (drop ?r ?N)[?w - ?r := ?n]"
    using D by (simp add: drop_update_swap)
  also have "\<dots> = take (?w - ?r) (drop ?r ?N) @ ?n # drop (Suc ?w) ?N"
    using D by (subst upd_conv_take_nth_drop) auto
  finally have "contents (append_at_write d b) = concat (map node_data (take (?w - ?r) (drop ?r ?N)))
      @ node_data ?n @ concat (map node_data (drop (Suc ?w) ?N))"
    by (simp add: contents_def append_at_write_def)
  also have "node_data ?n = node_data (?N ! ?w) @ d"
    using D assms(2) by (simp add: node_data_append)
  finally show ?thesis
    by (simp add: contents_write_split [OF assms(1)] tail_no_data [OF assms(1)])
qed

lemma append_at_write_room:
  assumes "ba_shape b" "node_end (m_nodes b ! m_writeNode b) + length d \<le> BufferNodeSize"
  shows "room (append_at_write d b) = room b - length d"
proof (cases "m_writeNode b + 1 < length (m_nodes b)")
  case True
  then obtain k where k: "length (m_nodes b) = m_writeNode b + 2 + k"
    by (metis add_2_eq_Suc' less_iff_Suc_add Suc_eq_plus1 add_Suc_right add.commute add_Suc)
  with assms ba_shapeD [OF assms(1)] show ?thesis
    by (auto simp: room_def append_at_write_def nth_list_update)
next
  case False
  with assms ba_shapeD [OF assms(1)] show ?thesis
    by (auto simp: room_def append_at_write_def)
qed

lemma write_loop_room:
  assumes "ba_shape b" "length d < room b"
  shows "\<exists>b'. write_loop (m_writeNode b) d b = Some ([], b') \<and> ba_shape b'
     \<and> contents b' = contents b @ d \<and> room b' = room b - length d
     \<and> m_availableSizeToRead b' = m_availableSizeToRead b
     \<and> m_availableSizeToWrite b' = m_availableSizeToWrite b"
  using assms
proof (induction "length (m_nodes b) - m_writeNode b" arbitrary: b d rule: less_induct)
  case (less b d)
  let ?n = "m_nodes b ! m_writeNode b"
  define k where "k = min (BufferNodeSize - node_end ?n) (length d)"
  let ?b = "append_at_write (take k d) b"
  note D = ba_shapeD [OF less.prems(1)]
  have le: "node_end ?n + length (take k d) \<le> BufferNodeSize"
    using D(8) by (auto simp: k_def)
  have shape: "ba_shape ?b"
    using less.prems by (intro append_at_write_shape le) auto
  note app = append_at_write_contents [OF less.prems(1) le] append_at_write_room [OF less.prems(1) le]
  show ?case
  proof (cases "d = []")
    case True
    with less.prems show ?thesis by simp
  next
    case False
    note step = write_loop_step [OF less.prems(1) False, folded k_def]
    show ?thesis
    proof (cases "k = length d")
      case True
      with step shape app show ?thesis by simp
    next
      case short: False
      then have kd: "k = BufferNodeSize - node_end ?n" "k < length d" by (auto simp: k_def)
      have more: "m_writeNode b + 1 < length (m_nodes b)"
      proof (rule ccontr)
        assume "\<not> ?thesis"
        with D(2) have "length (m_nodes b) = Suc (m_writeNode b)" by simp
        with less.prems(2) kd show False by (simp add: room_def)
      qed
      have w: "m_writeNode ?b = m_writeNode b + 1"
        using more kd D(8) by (simp add: append_at_write_def)
      have "\<exists>b'. write_loop (m_writeNode ?b) (drop k d) ?b = Some ([], b') \<and> ba_shape b'
          \<and> contents b' = contents ?b @ drop k d \<and> room b' = room ?b - length (drop k d)
          \<and> m_availableSizeToRead b' = m_availableSizeToRead ?b
          \<and> m_availableSizeToWrite b' = m_availableSizeToWrite ?b"
      proof (rule less.hyps)
        show "length (m_nodes ?b) - m_writeNode ?b < length (m_nodes b) - m_writeNode b"
          using w more by simp
        show "length (drop k d) < room ?b"
          using app(2) kd(2) less.prems(2) by (simp add: diff_less_mono)
      qed (rule shape)
      with step w app kd less.prems(2) show ?thesis by auto
    qed
  qed
qed

subsection \<open>Making room\<close>

lemma node_moveToTail_le: "e \<le> length ns \<Longrightarrow> node_moveToTail e ns = Some (drop e ns @ map resetNode (take e ns))"
  by (simp add: node_moveToTail_def)

lemma moveBufferHead_inv:
  assumes "ba_shape b"
  shows "\<exists>b'. unlockedMoveBufferHead b = Some b' \<and> ba_shape b' \<and> contents b' = contents b
     \<and> m_availableSizeToRead b' = m_availableSizeToRead b
     \<and> m_availableSizeToWrite b' + room b = m_availableSizeToWrite b + room b'
     \<and> length (m_nodes b') = length (m_nodes b) \<and> m_readNode b' = 0"
proof (cases "m_readNode b = 0")
  case True
  with assms show ?thesis by (simp add: unlockedMoveBufferHead_def)
next
  case False
  note D = ba_shapeD [OF assms]
  let ?r = "m_readNode b" and ?N = "m_nodes b"
  let ?N' = "drop ?r ?N @ map resetNode (take ?r ?N)"
  let ?b = "b\<lparr>m_nodes := ?N',
     m_availableSizeToWrite := m_availableSizeToWrite b + ?r * BufferNodeSize,
     m_writeNode := m_writeNode b - ?r, m_readNode := 0\<rparr>"
  have run: "unlockedMoveBufferHead b = Some ?b"
    using False D by (simp add: unlockedMoveBufferHead_def node_moveToTail_le)
  have len: "length ?N' = length ?N" using D by simp
  have nth: "?N' ! i = (if i < length ?N - ?r then ?N ! (?r + i) else resetNode (?N ! (i - (length ?N - ?r))))"
    if "i < length ?N" for i
    using that D by (auto simp: nth_append)
  have ok: "\<forall>n \<in> set ?N'. node_ok n"
    using assms by (auto simp: ba_shape_def dest: in_set_takeD in_set_dropD)
  have "ba_shape ?b"
    using D ok len nth by (auto simp: ba_shape_def)
  moreover have "contents ?b = contents b"
    by (auto simp: contents_def)
  moreover have "room ?b = room b + ?r * BufferNodeSize"
  proof -
    have rest: "length ?N' - Suc (m_writeNode b - ?r) = length ?N - Suc (m_writeNode b) + ?r"
      unfolding len using D by simp
    have "?N' ! (m_writeNode b - ?r) = ?N ! m_writeNode b"
      using D by (simp add: nth_append)
    then have "room ?b = BufferNodeSize - node_end (?N ! m_writeNode b)
        + (length ?N' - Suc (m_writeNode b - ?r)) * BufferNodeSize"
      by (simp add: room_def)
    then show ?thesis
      unfolding rest by (simp add: room_def add_mult_distrib)
  qed
  ultimately show ?thesis using run len by simp
qed

lemma grow_loop_total:
  assumes "0 < n" "n \<le> i" "w = (i - n) * BufferNodeSize + a"
  shows "\<exists>i' w'. grow_loop sz n a i w = Some (i', w') \<and> i \<le> i' \<and> sz < w'
     \<and> w' = (i' - n) * BufferNodeSize + a"
  using assms(2,3)
proof (induction "Suc sz - w" arbitrary: i w rule: less_induct)
  case (less w i)
  show ?case
  proof (cases "w \<le> sz")
    case False
    with less.prems show ?thesis by (subst grow_loop.simps) auto
  next
    case True
    let ?w = "(i * 2 - n) * BufferNodeSize + a"
    have "(i - n) < (i * 2 - n)" using assms(1) less.prems(1) by simp
    then have "w < ?w" using less.prems(2) by (simp add: BufferNodeSize_def)
    then have "Suc sz - ?w < Suc sz - w" using True by linarith
    then have "\<exists>i' w'. grow_loop sz n a (i * 2) ?w = Some (i', w') \<and> i * 2 \<le> i' \<and> sz < w'
        \<and> w' = (i' - n) * BufferNodeSize + a"
      by (rule less.hyps) (use less.prems in simp_all)
    moreover have "sub64 (i * 2) n = i * 2 - n" using less.prems(1) by simp
    ultimately show ?thesis using True by (subst grow_loop.simps) auto
  qed
qed

lemma nth_extend_unused:
  "i < length ns + k \<Longrightarrow>
   (ns @ replicate k newBufferNode) ! i = (if i < length ns then ns ! i else newBufferNode)"
  by (simp add: nth_append)

lemma node_allocMore_inv:
  fixes v :: nat
  assumes "ba_shape b" "length (m_nodes b) \<le> n"
  defines "b' \<equiv> b\<lparr>m_nodes := node_allocMore n (m_nodes b), m_availableSizeToWrite := v\<rparr>"
  shows "ba_shape b'" "contents b' = contents b"
    "room b' = room b + (n - length (m_nodes b)) * BufferNodeSize"
proof -
  note D = ba_shapeD [OF assms(1)]
  let ?k = "n - length (m_nodes b)"
  have N: "m_nodes b' = m_nodes b @ replicate ?k newBufferNode"
    using assms(2) by (simp add: b'_def node_allocMore_def)
  show "ba_shape b'"
    using D assms(1)
    by (auto simp: ba_shape_def N nth_extend_unused) (auto simp: b'_def nth_append)
  show "contents b' = contents b"
    using D by (simp add: contents_def N) (simp add: b'_def)
  have w: "m_writeNode b' = m_writeNode b" by (simp add: b'_def)
  have "length (m_nodes b') - Suc (m_writeNode b) = length (m_nodes b) - Suc (m_writeNode b) + ?k"
    using D(2) assms(2) unfolding N by simp
  moreover have "m_nodes b' ! m_writeNode b = m_nodes b ! m_writeNode b"
    using D(2) unfolding N by (simp add: nth_append)
  ultimately show "room b' = room b + ?k * BufferNodeSize"
    using D(8) by (simp add: room_def w add_mult_distrib)
qed

lemma contents_fields [simp]:
  "contents (b\<lparr>m_availableSizeToRead := x\<rparr>) = contents b"
  "contents (b\<lparr>m_availableSizeToWrite := y\<rparr>) = contents b"
  by (simp_all add: contents_def)

lemma room_fields [simp]:
  "room (b\<lparr>m_availableSizeToRead := x\<rparr>) = room b"
  "room (b\<lparr>m_availableSizeToWrite := y\<rparr>) = room b"
  by (simp_all add: room_def)

lemma shape_fields [simp]:
  "ba_shape (b\<lparr>m_availableSizeToRead := x\<rparr>) = ba_shape b"
  "ba_shape (b\<lparr>m_availableSizeToWrite := y\<rparr>) = ba_shape b"
  by (simp_all add: ba_shape_def)

lemma alloc_inv:
  assumes "ba_inv b"
  shows "\<exists>b'. unlockedAllocIfNotEnough sz b = Some b' \<and> ba_inv b' \<and> contents b' = contents b
     \<and> sz < m_availableSizeToWrite b'"
proof -
  obtain b1 where b1: "unlockedMoveBufferHead b = Some b1" "ba_inv b1" "contents b1 = contents b"
    using moveBufferHead_inv [of b] assms by (auto simp: ba_inv_def)
  show ?thesis
  proof (cases "m_availableSizeToWrite b \<le> sz \<and> m_availableSizeToWrite b1 \<le> sz")
    case False
    with assms b1 show ?thesis by (auto simp: unlockedAllocIfNotEnough_def)
  next
    case True
    let ?n = "length (m_nodes b1)" and ?a = "m_availableSizeToWrite b1"
    have shape: "ba_shape b1" using b1 by (simp add: ba_inv_def)
    then have n: "0 < ?n" by (auto simp: ba_shape_def)
    obtain i w where grow: "grow_loop sz ?n ?a (?n * 2) ((?n * 2 - ?n) * BufferNodeSize + ?a) = Some (i, w)"
      "?n * 2 \<le> i" "sz < w" "w = (i - ?n) * BufferNodeSize + ?a"
      using grow_loop_total [OF n, of "?n * 2" _ ?a sz] by auto
    let ?b = "b1\<lparr>m_nodes := node_allocMore i (m_nodes b1), m_availableSizeToWrite := w\<rparr>"
    have "unlockedAllocIfNotEnough sz b = Some ?b"
      using True b1 grow(1) by (simp add: unlockedAllocIfNotEnough_def Let_def)
    moreover have "ba_inv ?b" "contents ?b = contents b1"
      using node_allocMore_inv [OF shape, of i w] b1(2) grow by (auto simp: ba_inv_def)
    ultimately show ?thesis using b1(3) grow(3) by simp
  qed
qed

text \<open>\<^verbatim>\<open>writeRaw\<close> never leaves the buffers and appends all the bytes.\<close>

lemma writeRaw_inv:
  assumes "ba_inv b"
  shows "\<exists>b'. writeRaw d b = Some b' \<and> ba_inv b' \<and> contents b' = contents b @ d"
proof -
  obtain b1 where b1: "(if m_availableSizeToWrite b \<le> length d then unlockedAllocIfNotEnough (length d) b
           else Some b) = Some b1" "ba_inv b1" "contents b1 = contents b"
    "length d < m_availableSizeToWrite b1"
    using assms alloc_inv [OF assms, of "length d"]
    by (cases "m_availableSizeToWrite b \<le> length d") force+
  then obtain b2 where b2: "write_loop (m_writeNode b1) d b1 = Some ([], b2)" "ba_shape b2"
     "contents b2 = contents b1 @ d" "room b2 = room b1 - length d"
     "m_availableSizeToRead b2 = m_availableSizeToRead b1"
     "m_availableSizeToWrite b2 = m_availableSizeToWrite b1"
    using write_loop_room [of b1 d] by (auto simp: ba_inv_def)
  with b1 show ?thesis
    by (auto simp: writeRaw_def ba_inv_def)
qed

subsection \<open>Reading\<close>

lemma read_loop_0 [simp]: "read_loop it e 0 b = Some ([], 0, b)"
  by (subst read_loop.simps) simp

definition consume_at_read :: "nat \<Rightarrow> bytes \<Rightarrow> bytes" where
  "consume_at_read k b = (let n = m_nodes b ! m_readNode b in
     b\<lparr>m_nodes := (m_nodes b)[m_readNode b := n\<lparr>node_start := node_start n + k\<rparr>],
       m_readNode := (if node_start n + k = BufferNodeSize \<and> m_readNode b + 1 < length (m_nodes b)
                      then m_readNode b + 1 else m_readNode b)\<rparr>)"

lemma consume_at_read_fields [simp]:
  "length (m_nodes (consume_at_read k b)) = length (m_nodes b)"
  "m_writeNode (consume_at_read k b) = m_writeNode b"
  "m_availableSizeToRead (consume_at_read k b) = m_availableSizeToRead b"
  "m_availableSizeToWrite (consume_at_read k b) = m_availableSizeToWrite b"
  by (simp_all add: consume_at_read_def Let_def)

lemma read_node_not_exhausted:
  assumes "ba_shape b" "k \<le> length (node_data (m_nodes b ! m_readNode b))"
    and "node_start (m_nodes b ! m_readNode b) + k = BufferNodeSize"
  shows "m_readNode b < m_writeNode b"
proof -
  let ?n = "m_nodes b ! m_readNode b"
  note D = ba_shapeD [OF assms(1)]
  have "node_ok ?n" using D by simp
  then have "node_end ?n = BufferNodeSize" using assms(2,3) by (auto simp: node_ok_def node_data_def)
  then show ?thesis using D by (metis le_neq_implies_less less_irrefl)
qed

lemma read_loop_step:
  assumes "ba_shape b" "0 < len" "m_readNode b < e"
  defines "k \<equiv> min (length (node_data (m_nodes b ! m_readNode b))) len"
  shows "read_loop (m_readNode b) e len b
       = map_option (\<lambda>(out, rest). (take k (node_data (m_nodes b ! m_readNode b)) @ out, rest))
           (read_loop (m_readNode b + 1) e (len - k) (consume_at_read k b))"
proof -
  let ?n = "m_nodes b ! m_readNode b"
  note D = ba_shapeD [OF assms(1)]
  have ok: "node_ok ?n" using D by simp
  then have len: "length (node_data ?n) = node_end ?n - node_start ?n"
    and sub: "sub64 (node_end ?n) (node_start ?n) = node_end ?n - node_start ?n"
    by (auto simp: node_ok_def)
  have k: "(if sub64 (node_end ?n) (node_start ?n) < len
            then sub64 (node_end ?n) (node_start ?n) else len) = k"
    by (simp add: sub k_def len min_def)
  have out: "memcpy_out (node_buffer ?n) (node_start ?n) k = Some (take k (node_data ?n))"
    using len by (intro node_out ok) (simp add: k_def)
  have rw: "node_start ?n + k = BufferNodeSize \<Longrightarrow> m_readNode b \<noteq> m_writeNode b"
    using read_node_not_exhausted [OF assms(1), of k] by (auto simp: k_def)
  show ?thesis
    by (subst read_loop.simps, simp only: Let_def nth_opt_Some [OF D(3)] option.case k)
       (use assms(2,3) rw in \<open>auto simp: out consume_at_read_def Let_def\<close>)
qed

lemma consume_at_read_shape:
  assumes "ba_shape b" "k \<le> length (node_data (m_nodes b ! m_readNode b))"
  shows "ba_shape (consume_at_read k b)"
    and "contents (consume_at_read k b) = drop k (contents b)"
    and "room (consume_at_read k b) = room b"
proof -
  let ?r = "m_readNode b" and ?N = "m_nodes b" and ?n = "m_nodes b ! m_readNode b"
  let ?n' = "?n\<lparr>node_start := node_start ?n + k\<rparr>"
  note D = ba_shapeD [OF assms(1)]
  have ok: "node_ok ?n" using D by simp
  have k: "k \<le> node_end ?n - node_start ?n" using ok assms(2) by simp
  note moved = read_node_not_exhausted [OF assms]
  have oks: "node_ok m" if "m \<in> set (?N[?r := ?n'])" for m
    by (rule list_update_all [OF that]) (auto intro: D(4) node_ok_consume ok k)
  show "ba_shape (consume_at_read k b)"
    using D oks moved
    by (auto simp: ba_shape_def consume_at_read_def Let_def nth_list_update)
  have data: "node_data ?n' = drop k (node_data ?n)" by (rule node_data_consume [OF k])
  have dropped: "drop k (contents b) = node_data ?n' @ concat (map node_data (drop (Suc ?r) ?N))"
    using assms(2) by (simp add: contents_read_split [OF assms(1)] data)
  show "contents (consume_at_read k b) = drop k (contents b)"
  proof (cases "node_start ?n + k = BufferNodeSize \<and> ?r + 1 < length ?N")
    case True
    then have "node_data ?n' = []"
      using ok k by (intro node_data_empty) (auto simp: node_ok_def)
    with True dropped show ?thesis
      by (simp add: consume_at_read_def Let_def contents_def)
  next
    case False
    with D(3) dropped show ?thesis
      by (auto simp: consume_at_read_def Let_def contents_def Cons_nth_drop_Suc [symmetric]
          drop_update_swap)
  qed
  show "room (consume_at_read k b) = room b"
    using D by (simp add: room_def consume_at_read_def Let_def nth_list_update)
qed

lemma read_loop_contents:
  assumes "ba_shape b" "len \<le> length (contents b)"
    and "e = m_writeNode b + 1 \<or> e = m_writeNode b \<and> node_end (m_nodes b ! m_writeNode b) = 0"
  shows "\<exists>b'. read_loop (m_readNode b) e len b = Some (take len (contents b), 0, b') \<and> ba_shape b'
     \<and> contents b' = drop len (contents b) \<and> room b' = room b
     \<and> m_availableSizeToRead b' = m_availableSizeToRead b
     \<and> m_availableSizeToWrite b' = m_availableSizeToWrite b"
  using assms
proof (induction "length (m_nodes b) - m_readNode b" arbitrary: b len rule: less_induct)
  case (less b len)
  let ?n = "m_nodes b ! m_readNode b" and ?r = "m_readNode b"
  define k where "k = min (length (node_data ?n)) len"
  let ?b = "consume_at_read k b"
  note D = ba_shapeD [OF less.prems(1)]
  have kle: "k \<le> length (node_data ?n)" "k \<le> len" by (auto simp: k_def)
  note consumed = consume_at_read_shape [OF less.prems(1) kle(1)]
  show ?case
  proof (cases "len = 0")
    case True
    with less.prems show ?thesis by simp
  next
    case False
    have before: "?r < e"
    proof (rule ccontr)
      assume "\<not> ?r < e"
      with less.prems(3) D(1) have "?r = m_writeNode b" "node_end ?n = 0" by auto
      then have "contents b = []"
        using contents_write_split [OF less.prems(1)] by (simp add: node_data_def)
      with less.prems(2) False show False by simp
    qed
    note step = read_loop_step [OF less.prems(1) _ before, of len, folded k_def]
    have tk: "take k (node_data ?n) = take k (contents b)"
      using kle(1) by (simp add: contents_read_split [OF less.prems(1)])
    show ?thesis
    proof (cases "k = len")
      case True
      with step False tk consumed show ?thesis by simp
    next
      case more: False
      then have kd: "k = length (node_data ?n)" "k < len" by (auto simp: k_def)
      have "?r \<noteq> m_writeNode b"
        using kd less.prems(2) contents_write_split [OF less.prems(1)] by auto
      then have rw: "?r < m_writeNode b" using D(1) by simp
      then have full: "node_end ?n = BufferNodeSize" "node_ok ?n" using D by auto
      have r: "m_readNode ?b = ?r + 1"
        using kd full rw D(2) by (auto simp: consume_at_read_def Let_def node_ok_def)
      have w: "m_nodes ?b ! m_writeNode b = m_nodes b ! m_writeNode b"
        using rw by (simp add: consume_at_read_def Let_def)
      have "\<exists>b'. read_loop (m_readNode ?b) e (len - k) ?b = Some (take (len - k) (contents ?b), 0, b')
          \<and> ba_shape b' \<and> contents b' = drop (len - k) (contents ?b) \<and> room b' = room ?b
          \<and> m_availableSizeToRead b' = m_availableSizeToRead ?b
          \<and> m_availableSizeToWrite b' = m_availableSizeToWrite ?b"
        by (rule less.hyps) (use r w rw D(2) consumed less.prems(2,3) kd in auto)
      moreover have "take k (contents b) @ take (len - k) (drop k (contents b)) = take len (contents b)"
        using kd(2) by (simp flip: take_add)
      ultimately show ?thesis
        using step False r tk consumed kd(2) by auto
    qed
  qed
qed

lemma endOfReadNode_shape:
  assumes "ba_shape b"
  shows "\<exists>e. endOfReadNode b = Some e \<and>
    (e = m_writeNode b + 1 \<or> e = m_writeNode b \<and> node_end (m_nodes b ! m_writeNode b) = 0)"
  using ba_shapeD(2) [OF assms] by (auto simp: endOfReadNode_def)

text \<open>
  \<^verbatim>\<open>retrieveRaw\<close> takes the first bytes when there are enough, and leaves the
  array as it is otherwise.
\<close>

lemma retrieveRaw_enough:
  assumes "ba_inv b" "len \<le> length (contents b)"
  shows "\<exists>b'. retrieveRaw len b = Some (take len (contents b), b') \<and> ba_inv b'
     \<and> contents b' = drop len (contents b)"
proof -
  have shape: "ba_shape b" using assms(1) by (simp add: ba_inv_def)
  obtain e where e: "endOfReadNode b = Some e"
    "e = m_writeNode b + 1 \<or> e = m_writeNode b \<and> node_end (m_nodes b ! m_writeNode b) = 0"
    using endOfReadNode_shape [OF shape] by blast
  from read_loop_contents [OF shape assms(2) e(2)] assms e(1) show ?thesis
    by (auto simp: retrieveRaw_def ba_inv_def)
qed

lemma retrieveRaw_short:
  "ba_inv b \<Longrightarrow> length (contents b) < len \<Longrightarrow> retrieveRaw len b = Some ([], b)"
  by (simp add: retrieveRaw_def ba_inv_def)

interpretation ba: byte_queue newByteArray writeRaw retrieveRaw contents ba_inv
  by unfold_locales (auto intro: writeRaw_inv retrieveRaw_enough retrieveRaw_short)

subsection \<open>What the array promises\<close>

text \<open>C1. Any sequence of raw writes and reads on a fresh array runs without touching memory
  outside its buffers, returns what a first-in first-out queue of bytes returns, and
  ends in a well-formed array that holds the queue.\<close>

theorem bytearray_refines_queue:
  "\<exists>b. impl_run writeRaw retrieveRaw newByteArray xs = Some (fst (queue_run [] xs), b)
     \<and> ba_inv b \<and> contents b = snd (queue_run [] xs)"
  using ba.simulates [OF ba_inv_new] by simp

text \<open>On a well-formed array \<^verbatim>\<open>writeRaw\<close> always succeeds, appends all the bytes it
  is given, keeps the array well-formed, counts the bytes as readable and leaves at
  least one writable byte.\<close>

lemma writeRaw_appends:
  assumes "ba_inv b"
  shows "\<exists>b'. writeRaw d b = Some b' \<and> ba_inv b' \<and> contents b' = contents b @ d
     \<and> m_availableSizeToRead b' = m_availableSizeToRead b + length d
     \<and> 0 < m_availableSizeToWrite b'"
  using writeRaw_inv [OF assms, of d] assms room_pos by (auto simp: ba_inv_def)

theorem writeRaw_appends_witness:
  "\<exists>b'. writeRaw [1, 2, 3] newByteArray = Some b' \<and> contents b' = [1, 2, 3]"
  using writeRaw_appends [OF ba_inv_new, of "[1, 2, 3]"] by auto

text \<open>\<^verbatim>\<open>retrieveRaw\<close> reads exactly the number of bytes asked for when they are
  available, from the front, and otherwise reads nothing and changes nothing.\<close>

lemma retrieveRaw_all_or_nothing:
  assumes "ba_inv b"
  shows "if n \<le> m_availableSizeToRead b
    then \<exists>b'. retrieveRaw n b = Some (take n (contents b), b') \<and> ba_inv b'
       \<and> contents b' = drop n (contents b) \<and> m_availableSizeToRead b' = m_availableSizeToRead b - n
    else retrieveRaw n b = Some ([], b)"
  using retrieveRaw_enough [OF assms, of n] retrieveRaw_short [OF assms, of n] assms
  by (auto simp: ba_inv_def)

theorem retrieveRaw_all_or_nothing_witness:
  "retrieveRaw 1 newByteArray = Some ([], newByteArray)"
  using retrieveRaw_all_or_nothing [OF ba_inv_new, of 1] by (simp add: newByteArray_def)

end
