(* ===== verification/CowLink.thy ===== *)
theory CowLink
  imports Prelude
begin

text \<open>
  \<^verbatim>\<open>CowLink\<close> (\<^verbatim>\<open>include/internal/buffer/CowLink.hpp\<close>): a vector of shared
  pointers to elements, copied on the first write access through an iterator.

  The elements live in a store: a list of cells whose address is the position, each with
  its \<^verbatim>\<open>use_count\<close>. A link is the list of the addresses it points to. Copying a
  link copies the pointers; the temporary pointers inside one operation are not counted,
  because no operation reads a count while it holds one.
\<close>

record 'e cell =
  use_count :: nat
  elem :: 'e

type_synonym 'e store = "'e cell list"

definition defaultNodeSize :: nat where
  "defaultNodeSize = 1"

definition make_shared :: "'e \<Rightarrow> 'e store \<Rightarrow> nat \<times> 'e store" where
  "make_shared x st = (length st, st @ [\<lparr>use_count = 1, elem = x\<rparr>])"

primrec alloc_loop :: "nat \<Rightarrow> 'e \<Rightarrow> nat list \<times> 'e store \<Rightarrow> nat list \<times> 'e store" where
  "alloc_loop 0 x s = s"
| "alloc_loop (Suc n) x s =
     (let (a, st) = make_shared x (snd s) in alloc_loop n x (fst s @ [a], st))"

definition newCowLink :: "'e \<Rightarrow> 'e store \<Rightarrow> nat list \<times> 'e store" where
  "newCowLink x st = alloc_loop defaultNodeSize x ([], st)"

definition retain :: "nat \<Rightarrow> 'e store \<Rightarrow> 'e store" where
  "retain a st = st[a := (st ! a)\<lparr>use_count := use_count (st ! a) + 1\<rparr>]"

definition release :: "nat \<Rightarrow> 'e store \<Rightarrow> 'e store" where
  "release a st = st[a := (st ! a)\<lparr>use_count := use_count (st ! a) - 1\<rparr>]"

text \<open>The defaulted copy constructor copies the vector of pointers.\<close>

definition copyCowLink :: "nat list \<Rightarrow> 'e store \<Rightarrow> nat list \<times> 'e store" where
  "copyCowLink l st = (l, fold retain l st)"

text \<open>\<^verbatim>\<open>CowIterator::cowThisNode\<close>: replace a shared node by a copy of it.\<close>

definition cowThisNode :: "('e \<Rightarrow> 'e) \<Rightarrow> nat \<Rightarrow> nat list \<times> 'e store \<Rightarrow> nat list \<times> 'e store" where
  "cowThisNode copy i s =
     (let (l, st) = s in
      if i < length l \<and> use_count (st ! (l ! i)) \<noteq> 1 then
        let (a, st') = make_shared (copy (elem (st ! (l ! i)))) st
        in (l[i := a], release (l ! i) st')
      else s)"

definition deref :: "nat \<Rightarrow> nat list \<times> 'e store \<Rightarrow> 'e option" where
  "deref i s = map_option (\<lambda>a. elem (snd s ! a)) (nth_opt (fst s) i)"

definition poke :: "nat \<Rightarrow> 'e \<Rightarrow> 'e store \<Rightarrow> 'e store" where
  "poke a x st = st[a := (st ! a)\<lparr>elem := x\<rparr>]"

definition assign :: "nat \<Rightarrow> 'e \<Rightarrow> nat list \<times> 'e store \<Rightarrow> nat list \<times> 'e store" where
  "assign i x s = (fst s, poke (fst s ! i) x (snd s))"

text \<open>
  \<^verbatim>\<open>moveToTail\<close>, its three loops: keep the first \<open>e\<close> pointers, move the others
  to the front (a moved-from pointer is null, here \<^term>\<open>None\<close>, except that moving a
  pointer onto itself keeps it), then run the callback on each kept element and put its
  pointer at the end.
\<close>

function shift_loop :: "nat \<Rightarrow> nat \<Rightarrow> nat option list \<Rightarrow> nat option list" where
  "shift_loop e i ns =
     (if i < length ns
      then shift_loop e (i + 1) (if e = 0 then ns else ns[i - e := ns ! i, i := None])
      else ns)"
  by pat_completeness auto
termination
  by (relation "measure (\<lambda>(e, i, ns). length ns - i)") auto

declare shift_loop.simps [simp del]

fun tail_loop :: "('e \<Rightarrow> 'e) \<Rightarrow> nat \<Rightarrow> nat \<Rightarrow> nat list \<Rightarrow> nat option list \<times> 'e store
    \<Rightarrow> nat option list \<times> 'e store" where
  "tail_loop f e i [] s = s"
| "tail_loop f e i (a # as) s =
     tail_loop f e (i + 1) as
       ((fst s)[length (fst s) - e + i := Some a], poke a (f (elem (snd s ! a))) (snd s))"

definition moveToTail_loops :: "('e \<Rightarrow> 'e) \<Rightarrow> nat \<Rightarrow> nat list \<Rightarrow> 'e store
    \<Rightarrow> (nat option list \<times> 'e store) option" where
  "moveToTail_loops f e l st =
     (if e \<le> length l
      then Some (tail_loop f e 0 (take e l) (shift_loop e e (map Some l), st))
      else None)"

definition moveToTail :: "('e \<Rightarrow> 'e) \<Rightarrow> nat \<Rightarrow> nat list \<Rightarrow> 'e store \<Rightarrow> (nat list \<times> 'e store) option" where
  "moveToTail f e l st = do {
     (ns, st) \<leftarrow> moveToTail_loops f e l st;
     if None \<in> set ns then None else Some (map the ns, st)
   }"

definition allocMore :: "'e \<Rightarrow> nat \<Rightarrow> nat list \<times> 'e store \<Rightarrow> nat list \<times> 'e store" where
  "allocMore x n s = (if n < length (fst s) then s else alloc_loop (n - length (fst s)) x s)"

subsection \<open>The store\<close>

lemma make_shared_simps [store_simps]:
  "fst (make_shared x st) = length st"
  "snd (make_shared x st) = st @ [\<lparr>use_count = 1, elem = x\<rparr>]"
  by (simp_all add: make_shared_def)

lemma length_store [simp]:
  "length (retain a st) = length st" "length (release a st) = length st"
  "length (poke a x st) = length st"
  by (simp_all add: retain_def release_def poke_def)

lemma elem_retain [simp]: "elem (retain a st ! c) = elem (st ! c)"
  unfolding retain_def by (rule nth_update_same) simp

lemma elem_release [simp]: "elem (release a st ! c) = elem (st ! c)"
  unfolding release_def by (rule nth_update_same) simp

lemma elem_poke: "c < length st \<Longrightarrow> elem (poke a x st ! c) = (if c = a then x else elem (st ! c))"
  by (auto simp: poke_def nth_list_update)

lemma count_poke [simp]: "use_count (poke a x st ! c) = use_count (st ! c)"
  unfolding poke_def by (rule nth_update_same) simp

lemma count_release: "c < length st \<Longrightarrow>
    use_count (release a st ! c) = (if c = a then use_count (st ! c) - 1 else use_count (st ! c))"
  by (auto simp: release_def nth_list_update)

lemma count_retain: "c < length st \<Longrightarrow>
    use_count (retain a st ! c) = (if c = a then use_count (st ! c) + 1 else use_count (st ! c))"
  by (auto simp: retain_def nth_list_update)

lemma elem_fold_retain [simp]: "elem (fold retain l st ! c) = elem (st ! c)"
  by (induction l arbitrary: st) simp_all

lemma length_fold_retain [simp]: "length (fold retain l st) = length st"
  by (induction l arbitrary: st) simp_all

lemma count_fold_retain:
  "c < length st \<Longrightarrow> use_count (fold retain l st ! c) = use_count (st ! c) + count_list l c"
  by (induction l arbitrary: st) (simp_all add: count_retain)

subsection \<open>Moving nodes to the tail\<close>

lemma shift_loop_spec:
  assumes "e \<le> i" "i \<le> length ns"
  shows "length (shift_loop e i ns) = length ns
     \<and> take (length ns - e) (shift_loop e i ns) = take (i - e) ns @ drop i ns"
  using assms
proof (induction e i ns rule: shift_loop.induct)
  case (1 e i ns)
  show ?case
  proof (cases "i < length ns")
    case False
    with "1.prems" show ?thesis by (subst (1 2) shift_loop.simps) simp
  next
    case True
    let ?ns = "if e = 0 then ns else ns[i - e := ns ! i, i := None]"
    have "take (Suc i - e) ?ns @ drop (Suc i) ?ns = take (i - e) ns @ drop i ns"
    proof (cases "e = 0")
      case True
      then show ?thesis by simp
    next
      case False
      then have "Suc i - e = Suc (i - e)" "i - e < length ns" "Suc (i - e) \<le> i"
        using "1.prems" True by auto
      then have "take (Suc i - e) ?ns = take (i - e) ns @ [ns ! i]"
        using False by (auto simp: list_eq_iff_nth_eq nth_append nth_list_update less_Suc_eq)
      moreover have "drop (Suc i) ?ns = drop (Suc i) ns"
        using False by simp
      ultimately show ?thesis using True by (simp add: Cons_nth_drop_Suc)
    qed
    moreover have "length (shift_loop e (i + 1) ?ns) = length ?ns
        \<and> take (length ?ns - e) (shift_loop e (i + 1) ?ns) = take (i + 1 - e) ?ns @ drop (i + 1) ?ns"
      by (rule "1.IH") (use True "1.prems" in auto)
    moreover have "length ?ns = length ns" by simp
    ultimately show ?thesis using True by (subst (1 2) shift_loop.simps) simp
  qed
qed

definition poke_all :: "('e \<Rightarrow> 'e) \<Rightarrow> nat list \<Rightarrow> 'e store \<Rightarrow> 'e store" where
  "poke_all f as st = fold (\<lambda>a st. poke a (f (elem (st ! a))) st) as st"

lemma tail_loop_spec:
  assumes "e \<le> length ns" "i + length as = e"
  shows "tail_loop f e i as (ns, st) = (take (length ns - e + i) ns @ map Some as, poke_all f as st)"
  using assms
proof (induction as arbitrary: i ns st)
  case Nil
  then show ?case by (simp add: poke_all_def)
next
  case (Cons a as)
  let ?k = "length ns - e + i"
  have "?k < length ns" using Cons.prems by auto
  then have "take (Suc ?k) (ns[?k := Some a]) = take ?k ns @ [Some a]"
    by (simp add: take_Suc_conv_app_nth)
  moreover have "tail_loop f e (Suc i) as (ns[?k := Some a], poke a (f (elem (st ! a))) st)
      = (take (length ns - e + Suc i) (ns[?k := Some a]) @ map Some as,
         poke_all f as (poke a (f (elem (st ! a))) st))"
    using Cons.IH [of "ns[?k := Some a]" "Suc i"] Cons.prems by simp
  ultimately show ?case by (simp add: poke_all_def)
qed

lemma moveToTail_eq:
  "moveToTail f e l st =
     (if e \<le> length l then Some (drop e l @ take e l, poke_all f (take e l) st) else None)"
proof (cases "e \<le> length l")
  case True
  let ?ns = "shift_loop e e (map Some l)"
  have ns: "length ?ns = length l" "take (length l - e) ?ns = map Some (drop e l)"
    using shift_loop_spec [of e e "map Some l"] True by (auto simp: drop_map)
  have "tail_loop f e 0 (take e l) (?ns, st)
      = (map Some (drop e l @ take e l), poke_all f (take e l) st)"
    using tail_loop_spec [of e ?ns 0 "take e l" f st] True ns by simp
  then show ?thesis
    using True by (auto simp: moveToTail_def moveToTail_loops_def comp_def)
qed (simp add: moveToTail_def moveToTail_loops_def)

text \<open>C27. The three loops of \<^verbatim>\<open>moveToTail\<close> rotate the vector: no pointer is lost,
  duplicated or left null, the callback runs once on each moved element, and the call
  is defined exactly when there are that many nodes.\<close>

theorem moveToTail_rotates:
  "moveToTail f e l st =
     (if e \<le> length l
      then Some (drop e l @ take e l, fold (\<lambda>a st. poke a (f (elem (st ! a))) st) (take e l) st)
      else None)"
  by (simp add: moveToTail_eq poke_all_def)

subsection \<open>Isolation of copies\<close>

text \<open>The counts of the store are those of the links that exist.\<close>

definition counted :: "nat list list \<Rightarrow> 'e store \<Rightarrow> bool" where
  "counted ls st \<longleftrightarrow> (\<forall>l \<in> set ls. \<forall>a \<in> set l. a < length st)
     \<and> (\<forall>a < length st. use_count (st ! a) = sum_list (map (\<lambda>l. count_list l a) ls))"

definition link_elems :: "'e store \<Rightarrow> nat list \<Rightarrow> 'e list" where
  "link_elems st l = map (\<lambda>a. elem (st ! a)) l"

text \<open>A write access through the copy-on-write iterator at \<open>i\<close>.\<close>

definition cow_write :: "('e \<Rightarrow> 'e) \<Rightarrow> nat \<Rightarrow> 'e \<Rightarrow> nat list \<times> 'e store \<Rightarrow> nat list \<times> 'e store" where
  "cow_write copy i x s = assign i x (cowThisNode copy i s)"

lemma count_list_update:
  "i < length l \<Longrightarrow> count_list (l[i := y]) c + (if l ! i = c then 1 else 0)
     = count_list l c + (if y = c then 1 else 0)"
proof (induction l arbitrary: i)
  case (Cons a l)
  show ?case
  proof (cases i)
    case (Suc j)
    then show ?thesis using Cons.IH [of j] Cons.prems by (simp split: if_splits)
  qed simp
qed simp

lemma count_list_pos: "a \<in> set l \<Longrightarrow> 0 < count_list l a"
  by (induction l) auto

lemma sum_list_counts_0: "sum_list (map f ls) = (0::nat) \<Longrightarrow> l \<in> set ls \<Longrightarrow> f l = 0"
  by (induction ls) auto

lemma count_outside: "(\<forall>a \<in> set l. a < (n::nat)) \<Longrightarrow> count_list l n = 0"
  using count_list_0_iff [of l n] by fastforce

lemma cow_write_owned:
  assumes "counted (l # ls) st" "i < length l" "use_count (st ! (l ! i)) = 1"
  shows "counted (l # ls) (poke (l ! i) x st)"
    and "k \<in> set ls \<Longrightarrow> link_elems (poke (l ! i) x st) k = link_elems st k"
proof -
  show "counted (l # ls) (poke (l ! i) x st)"
    using assms(1) by (simp add: counted_def)
  have a: "l ! i < length st" "l ! i \<in> set l" using assms by (auto simp: counted_def)
  then have "use_count (st ! (l ! i)) = count_list l (l ! i) + sum_list (map (\<lambda>l'. count_list l' (l ! i)) ls)"
    using assms(1) by (simp add: counted_def)
  then have "sum_list (map (\<lambda>l'. count_list l' (l ! i)) ls) = 0"
    using assms(3) count_list_pos [OF a(2)] by linarith
  then have "l ! i \<notin> set k" if "k \<in> set ls"
    using sum_list_counts_0 [of "\<lambda>l'. count_list l' (l ! i)" ls k] that by (simp add: count_list_0_iff)
  then show "link_elems (poke (l ! i) x st) k = link_elems st k" if "k \<in> set ls"
    using that assms(1) by (auto simp: link_elems_def counted_def elem_poke)
qed

lemma cow_write_shared:
  fixes st :: "'e store" and y :: 'e
  assumes "counted (l # ls) st" "i < length l" "use_count (st ! (l ! i)) \<noteq> 1"
  defines "st' \<equiv> release (l ! i) (st @ [\<lparr>use_count = 1, elem = y\<rparr>])"
  shows "counted (l[i := length st] # ls) st'"
    and "k \<in> set ls \<Longrightarrow> link_elems st' k = link_elems st k"
proof -
  have below: "\<forall>m \<in> set (l # ls). \<forall>a \<in> set m. a < length st"
    using assms(1) by (simp add: counted_def)
  have len: "length st' = Suc (length st)" by (simp add: st'_def)
  have "use_count (st' ! a) = sum_list (map (\<lambda>m. count_list m a) (l[i := length st] # ls))"
    if "a < length st'" for a
  proof (cases "a = length st")
    case True
    have "sum_list (map (\<lambda>m. count_list m (length st)) ls) = 0"
      using below by (auto intro!: sum_list_0 simp: count_outside cong: map_cong)
    moreover have li: "l ! i \<noteq> length st" using below assms(2) by (metis less_irrefl list.set_intros(1) nth_mem)
    moreover have "count_list (l[i := length st]) (length st) = 1"
      using count_list_update [OF assms(2), of "length st" "length st"] below li
        count_outside [of l "length st"] by simp
    ultimately show ?thesis using True by (simp add: st'_def count_release)
  next
    case False
    with that len have a: "a < length st" by simp
    have "use_count (st' ! a) = use_count (st ! a) - (if a = l ! i then 1 else 0)"
      using a by (simp add: st'_def count_release nth_append)
    moreover have "count_list (l[i := length st]) a = count_list l a - (if a = l ! i then 1 else 0)"
      using count_list_update [OF assms(2), of "length st" a] False by (auto split: if_splits)
    moreover have "a = l ! i \<Longrightarrow> 0 < count_list l a"
      using assms(2) by (auto intro: count_list_pos)
    ultimately show ?thesis using a assms(1) by (auto simp: counted_def)
  qed
  moreover have "\<forall>m \<in> set (l[i := length st] # ls). \<forall>a \<in> set m. a < length st'"
    using below len set_update_subset_insert [of l i "length st"] by fastforce
  ultimately show "counted (l[i := length st] # ls) st'" by (simp add: counted_def)
  show "link_elems st' k = link_elems st k" if "k \<in> set ls"
    using that below by (auto simp: link_elems_def st'_def nth_append)
qed

lemma cow_write_cases:
  assumes "i < length l"
  shows "cow_write copy i x (l, st) =
    (if use_count (st ! (l ! i)) = 1 then (l, poke (l ! i) x st)
     else (l[i := length st], poke (length st) x
       (release (l ! i) (st @ [\<lparr>use_count = 1, elem = copy (elem (st ! (l ! i)))\<rparr>]))))"
  using assms by (simp add: cow_write_def cowThisNode_def assign_def make_shared_def)

text \<open>C26. A write through the copy-on-write iterator of one link is seen by that link and by
  no other link, and the use counts stay those of the links.\<close>

theorem cow_write_isolated:
  assumes "counted (l # ls) st" "i < length l" "cow_write copy i x (l, st) = (l', st')"
  shows "counted (l' # ls) st' \<and> deref i (l', st') = Some x
     \<and> map (link_elems st') ls = map (link_elems st) ls"
proof (cases "use_count (st ! (l ! i)) = 1")
  case True
  with assms(3) have eq: "l' = l" "st' = poke (l ! i) x st"
    unfolding cow_write_cases [OF assms(2)] by auto
  have "l ! i < length st" using assms(1,2) by (auto simp: counted_def)
  with True assms(2) cow_write_owned [OF assms(1,2) True] show ?thesis
    by (simp add: eq deref_def elem_poke)
next
  case False
  let ?y = "copy (elem (st ! (l ! i)))"
  let ?st = "release (l ! i) (st @ [\<lparr>use_count = 1, elem = ?y\<rparr>])"
  from False assms(3) have eq: "l' = l[i := length st]" "st' = poke (length st) x ?st"
    unfolding cow_write_cases [OF assms(2)] by simp_all
  note shared = cow_write_shared [where y = ?y, OF assms(1,2) False]
  have "link_elems st' k = link_elems ?st k" if "k \<in> set ls" for k
  proof -
    have "xa < length st" if "xa \<in> set k" for xa
      using that \<open>k \<in> set ls\<close> assms(1) by (auto simp: counted_def)
    then show ?thesis
      unfolding eq link_elems_def by (intro map_cong refl) (force simp: elem_poke)
  qed
  moreover have "counted (l' # ls) st'"
    using shared(1) by (simp add: eq counted_def)
  ultimately show ?thesis
    using assms(2) shared(2) by (auto simp: eq deref_def elem_poke)
qed

lemma cow_write_isolated_witness:
  "map (link_elems (snd (cow_write (\<lambda>x. x) 1 (9::nat)
       ([0, 1], [\<lparr>use_count = 2, elem = 5\<rparr>, \<lparr>use_count = 2, elem = 6\<rparr>])))) [[0, 1]]
   = map (link_elems [\<lparr>use_count = 2, elem = 5\<rparr>, \<lparr>use_count = 2, elem = 6\<rparr>]) [[0, 1]]"
proof -
  let ?st = "[\<lparr>use_count = 2, elem = 5\<rparr>, \<lparr>use_count = 2, elem = 6::nat\<rparr>]"
  have "counted [[0, 1], [0, 1]] ?st"
    by (simp add: counted_def less_Suc_eq numeral_2_eq_2)
  then show ?thesis
    using cow_write_isolated [of "[0, 1]" "[[0, 1]]" ?st 1 "\<lambda>x. x" 9, OF _ _ prod.collapse [symmetric]]
    by simp
qed

lemma poke_all_elem:
  assumes "a \<notin> set as" "a < length st"
  shows "elem (poke_all f as st ! a) = elem (st ! a)"
  using assms by (induction as arbitrary: st) (simp_all add: poke_all_def elem_poke)

text \<open>\<^verbatim>\<open>moveToTail\<close> runs its callback on the elements themselves: with a callback that
  changes an element, moving nodes of one link changes what its copy sees.\<close>

lemma moveToTail_not_isolated:
  assumes "counted [l, l] st" "0 < e" "e \<le> length l" "distinct l" "f (elem (st ! (l ! 0))) \<noteq> elem (st ! (l ! 0))"
  shows "\<exists>l' st'. moveToTail f e l st = Some (l', st') \<and> link_elems st' l \<noteq> link_elems st l"
proof -
  from assms(2,3) obtain a as where l: "l = a # as" by (cases l) auto
  from assms(2) obtain k where e: "e = Suc k" by (cases e) auto
  have a: "a < length st" "a \<notin> set (take k as)"
    using assms(1,4) l by (auto simp: counted_def dest: in_set_takeD)
  have "poke_all f (take e l) st = poke_all f (take k as) (poke a (f (elem (st ! a))) st)"
    by (simp add: l e poke_all_def)
  then have "elem (poke_all f (take e l) st ! a) = f (elem (st ! a))"
    using a by (simp add: poke_all_elem elem_poke)
  with assms(3,5) show ?thesis
    by (simp add: moveToTail_eq link_elems_def l)
qed

lemma moveToTail_not_isolated_witness:
  "\<exists>l' st'. moveToTail (\<lambda>_. 0) 1 [0] [\<lparr>use_count = 2, elem = 5::nat\<rparr>] = Some (l', st')
     \<and> link_elems st' [0] \<noteq> link_elems [\<lparr>use_count = 2, elem = 5\<rparr>] [0]"
  by (rule moveToTail_not_isolated) (simp_all add: counted_def)

end
