(* ===== verification/CowByteArray.thy ===== *)
theory CowByteArray
  imports ByteArray CowLink
begin

text \<open>
  \<^verbatim>\<open>ByteArray\<close> on shared nodes: the operations of \<^verbatim>\<open>ByteArray\<close>
  with every access through the copy-on-write iterators of \<^verbatim>\<open>CowLink\<close>, the
  copy and the move constructor, and the destructor. The node vector holds addresses of a
  store that all arrays of the program share.

  An array whose nodes nobody shares behaves as the one of theory \<^verbatim>\<open>ByteArray\<close>
  and leaves the nodes of all others alone, so any number of such arrays are independent
  queues. A copied array does not: the first of the two that is read finds nothing.
\<close>

record CowByteArray = "nat ByteArray" +
  m_nodes_null :: bool

type_synonym cow_state = "CowByteArray \<times> BufferNode store"

subsection \<open>Construction, copy, move and destruction\<close>

definition newCowByteArray :: "BufferNode store \<Rightarrow> cow_state" where
  "newCowByteArray st = (let (l, st) = newCowLink newBufferNode st in
     (\<lparr>m_availableSizeToRead = 0, m_availableSizeToWrite = defaultNodeSize * BufferNodeSize,
       m_readNode = 0, m_writeNode = 0, m_nodes = l, m_nodes_null = False\<rparr>, st))"

text \<open>The copy constructor dereferences the pointer of the other array.\<close>

definition copyByteArray :: "CowByteArray \<Rightarrow> BufferNode store \<Rightarrow> cow_state option" where
  "copyByteArray other st =
     (if m_nodes_null other then None
      else let (l, st) = copyCowLink (m_nodes other) st in
        Some (\<lparr>m_availableSizeToRead = m_availableSizeToRead other,
          m_availableSizeToWrite = m_availableSizeToWrite other,
          m_readNode = m_readNode other, m_writeNode = m_writeNode other,
          m_nodes = l, m_nodes_null = False\<rparr>, st))"

text \<open>
  The move constructor takes the pointer: the new array and what is left of the other,
  whose counters stay.
\<close>

definition moveByteArray :: "CowByteArray \<Rightarrow> CowByteArray \<times> CowByteArray" where
  "moveByteArray other =
     (\<lparr>m_availableSizeToRead = m_availableSizeToRead other,
       m_availableSizeToWrite = m_availableSizeToWrite other,
       m_readNode = m_readNode other, m_writeNode = m_writeNode other,
       m_nodes = m_nodes other, m_nodes_null = m_nodes_null other\<rparr>,
      other\<lparr>m_nodes := [], m_nodes_null := True\<rparr>)"

definition destroyByteArray :: "CowByteArray \<Rightarrow> BufferNode store \<Rightarrow> BufferNode store" where
  "destroyByteArray c st = fold release (m_nodes c) st"

subsection \<open>Reading and writing\<close>

definition cow_at :: "nat \<Rightarrow> cow_state \<Rightarrow> cow_state" where
  "cow_at i s = (let (l, st) = cowThisNode copyBufferNode i (m_nodes (fst s), snd s)
     in ((fst s)\<lparr>m_nodes := l\<rparr>, st))"

definition node_at :: "nat \<Rightarrow> cow_state \<Rightarrow> BufferNode" where
  "node_at i s = elem (snd s ! (m_nodes (fst s) ! i))"

definition set_node :: "nat \<Rightarrow> BufferNode \<Rightarrow> cow_state \<Rightarrow> cow_state" where
  "set_node i n s = (fst s, poke (m_nodes (fst s) ! i) n (snd s))"

lemma length_cow_at [simp]: "length (m_nodes (fst (cow_at i s))) = length (m_nodes (fst s))"
  by (auto simp: cow_at_def cowThisNode_def make_shared_def split_beta)

lemma length_set_node [simp]: "m_nodes (fst (set_node i n s)) = m_nodes (fst s)"
  by (simp add: set_node_def)

text \<open>The loop after \<^verbatim>\<open>cowBegin\<close> has run: each increment makes the next node private.\<close>

function cow_write_loop :: "nat \<Rightarrow> byte list \<Rightarrow> cow_state \<Rightarrow> (byte list \<times> cow_state) option" where
  "cow_write_loop it data s =
     (if data \<noteq> [] \<and> it < length (m_nodes (fst s)) then
        let node = node_at it s;
            space = sub64 BufferNodeSize (node_end node);
            bytesToWrite = (if space < length data then space else length data)
        in case memcpy_in (node_buffer node) (node_end node) (take bytesToWrite data) of
             None \<Rightarrow> None
           | Some buf \<Rightarrow>
               let node' = node\<lparr>node_buffer := buf, node_end := node_end node + bytesToWrite\<rparr>;
                   (c, st) = set_node it node' s;
                   c' = (if m_writeNode c + 1 < length (m_nodes c) \<and> node_end node' = BufferNodeSize
                         then c\<lparr>m_writeNode := m_writeNode c + 1\<rparr> else c)
               in cow_write_loop (it + 1) (drop bytesToWrite data) (cow_at (it + 1) (c', st))
      else Some (data, s))"
  by pat_completeness auto
termination
  by (relation "measure (\<lambda>(it, data, s). length (m_nodes (fst s)) - it)")
     (auto simp: Let_def set_node_def)

declare cow_write_loop.simps [simp del]

definition cow_moveBufferHead :: "cow_state \<Rightarrow> cow_state option" where
  "cow_moveBufferHead s = (let (c, st) = s in
     if m_readNode c = 0 then Some s
     else if m_nodes_null c then None
     else map_option (\<lambda>(l, st).
            (c\<lparr>m_nodes := l,
               m_availableSizeToWrite := m_availableSizeToWrite c + m_readNode c * BufferNodeSize,
               m_writeNode := sub64 (m_writeNode c) (m_readNode c),
               m_readNode := 0\<rparr>, st))
          (moveToTail resetNode (m_readNode c) (m_nodes c) st))"

definition cow_allocIfNotEnough :: "nat \<Rightarrow> cow_state \<Rightarrow> cow_state option" where
  "cow_allocIfNotEnough sz s =
     (if m_availableSizeToWrite (fst s) \<le> sz then do {
        (c, st) \<leftarrow> cow_moveBufferHead s;
        if m_availableSizeToWrite c \<le> sz then
          if m_nodes_null c then None else do {
          let n = length (m_nodes c);
          (idleNodeCount, newWriteable) \<leftarrow> grow_loop sz n (m_availableSizeToWrite c) (n * 2)
             (sub64 (n * 2) n * BufferNodeSize + m_availableSizeToWrite c);
          let (l, st) = allocMore newBufferNode idleNodeCount (m_nodes c, st);
          Some (c\<lparr>m_nodes := l, m_availableSizeToWrite := newWriteable\<rparr>, st)
        } else Some (c, st)
      } else Some s)"

definition cow_writeRaw :: "byte list \<Rightarrow> cow_state \<Rightarrow> cow_state option" where
  "cow_writeRaw data s = do {
     s \<leftarrow> (if m_availableSizeToWrite (fst s) \<le> length data
          then cow_allocIfNotEnough (length data) s else Some s);
     if m_nodes_null (fst s) then None else do {
       (rest, c, st) \<leftarrow> cow_write_loop (m_writeNode (fst s)) data (cow_at (m_writeNode (fst s)) s);
       Some (c\<lparr>m_availableSizeToRead := m_availableSizeToRead c + (length data - length rest),
         m_availableSizeToWrite := sub64 (m_availableSizeToWrite c) (length data - length rest)\<rparr>, st)
     }
   }"

definition cow_endOfReadNode :: "cow_state \<Rightarrow> nat option" where
  "cow_endOfReadNode s = (let c = fst s in
     if m_writeNode c = m_readNode c then Some (m_readNode c + 1)
     else if m_nodes_null c then None
     else map_option (\<lambda>writeNode. if node_end writeNode = 0 then m_writeNode c else m_writeNode c + 1)
            (deref (m_writeNode c) (m_nodes c, snd s)))"

function cow_read_loop :: "nat \<Rightarrow> nat \<Rightarrow> nat \<Rightarrow> cow_state \<Rightarrow> (byte list \<times> nat \<times> cow_state) option" where
  "cow_read_loop it endOfRead len s =
     (if 0 < len \<and> it < endOfRead then
        if length (m_nodes (fst s)) \<le> it then None
        else
          let node = node_at it s;
              avail = sub64 (node_end node) (node_start node);
              bytesToCopy = (if avail < len then avail else len)
          in case memcpy_out (node_buffer node) (node_start node) bytesToCopy of
               None \<Rightarrow> None
             | Some out \<Rightarrow>
                 let node' = node\<lparr>node_start := node_start node + bytesToCopy\<rparr>;
                     (c, st) = set_node it node' s;
                     c' = (if node_start node' = BufferNodeSize \<and> m_readNode c + 1 < length (m_nodes c)
                           then c\<lparr>m_writeNode := (if m_readNode c = m_writeNode c
                                                then m_writeNode c + 1 else m_writeNode c),
                                  m_readNode := m_readNode c + 1\<rparr>
                           else c)
                 in map_option (\<lambda>(out', rest). (out @ out', rest))
                      (cow_read_loop (it + 1) endOfRead (len - bytesToCopy) (cow_at (it + 1) (c', st)))
      else Some ([], len, s))"
  by pat_completeness auto
termination
  by (relation "measure (\<lambda>(it, e, len, s). e - it)") auto

declare cow_read_loop.simps [simp del]

definition cow_retrieveRaw :: "nat \<Rightarrow> cow_state \<Rightarrow> (byte list \<times> cow_state) option" where
  "cow_retrieveRaw len s =
     (if len \<le> m_availableSizeToRead (fst s) then do {
        endOfRead \<leftarrow> cow_endOfReadNode s;
        if m_nodes_null (fst s) then None else do {
          (out, rest, c, st) \<leftarrow> cow_read_loop (m_readNode (fst s)) endOfRead len
            (cow_at (m_readNode (fst s)) s);
          Some (out, c\<lparr>m_availableSizeToRead := sub64 (m_availableSizeToRead c) (len - rest)\<rparr>, st)
        }
      } else Some ([], s))"

subsection \<open>Arrays that share no node\<close>

text \<open>The array that a state shows to its reader.\<close>

definition view :: "cow_state \<Rightarrow> bytes" where
  "view s = \<lparr>m_availableSizeToRead = m_availableSizeToRead (fst s),
     m_availableSizeToWrite = m_availableSizeToWrite (fst s),
     m_readNode = m_readNode (fst s), m_writeNode = m_writeNode (fst s),
     m_nodes = link_elems (snd s) (m_nodes (fst s))\<rparr>"

text \<open>The nodes at the positions \<open>I\<close> belong to this array alone.\<close>

definition sole :: "nat set \<Rightarrow> cow_state \<Rightarrow> bool" where
  "sole I s \<longleftrightarrow> \<not> m_nodes_null (fst s) \<and> distinct (m_nodes (fst s))
     \<and> (\<forall>a \<in> set (m_nodes (fst s)). a < length (snd s))
     \<and> (\<forall>i \<in> I. i < length (m_nodes (fst s)) \<longrightarrow> use_count (snd s ! (m_nodes (fst s) ! i)) = 1)"

lemma soleD:
  assumes "sole I s"
  shows "\<not> m_nodes_null (fst s)" "distinct (m_nodes (fst s))"
    "a \<in> set (m_nodes (fst s)) \<Longrightarrow> a < length (snd s)"
    "i < length (m_nodes (fst s)) \<Longrightarrow> m_nodes (fst s) ! i < length (snd s)"
    "i \<in> I \<Longrightarrow> i < length (m_nodes (fst s)) \<Longrightarrow> use_count (snd s ! (m_nodes (fst s) ! i)) = 1"
  using assms by (auto simp: sole_def)

lemma sole_mono: "sole I s \<Longrightarrow> J \<subseteq> I \<Longrightarrow> sole J s"
  by (auto simp: sole_def)

lemma view_fields [simp]:
  "m_availableSizeToRead (view s) = m_availableSizeToRead (fst s)"
  "m_availableSizeToWrite (view s) = m_availableSizeToWrite (fst s)"
  "m_readNode (view s) = m_readNode (fst s)"
  "m_writeNode (view s) = m_writeNode (fst s)"
  "length (m_nodes (view s)) = length (m_nodes (fst s))"
  by (simp_all add: view_def link_elems_def)

lemma view_updates [simp]:
  "view (c\<lparr>m_availableSizeToRead := x\<rparr>, st) = (view (c, st))\<lparr>m_availableSizeToRead := x\<rparr>"
  "view (c\<lparr>m_availableSizeToWrite := x\<rparr>, st) = (view (c, st))\<lparr>m_availableSizeToWrite := x\<rparr>"
  "view (c\<lparr>m_readNode := x\<rparr>, st) = (view (c, st))\<lparr>m_readNode := x\<rparr>"
  "view (c\<lparr>m_writeNode := x\<rparr>, st) = (view (c, st))\<lparr>m_writeNode := x\<rparr>"
  by (simp_all add: view_def)

lemma node_at_view: "i < length (m_nodes (fst s)) \<Longrightarrow> node_at i s = m_nodes (view s) ! i"
  by (simp add: node_at_def view_def link_elems_def)

lemma cow_at_sole:
  assumes "sole I s" "i \<in> I"
  shows "cow_at i s = s"
  using soleD [OF assms(1)] assms(2) by (auto simp: cow_at_def cowThisNode_def split_beta)

lemma view_set_node:
  assumes "sole I s" "i < length (m_nodes (fst s))"
  shows "view (set_node i n s) = (view s)\<lparr>m_nodes := (m_nodes (view s))[i := n]\<rparr>"
proof -
  note D = soleD [OF assms(1)]
  have "link_elems (poke (m_nodes (fst s) ! i) n (snd s)) (m_nodes (fst s))
      = (link_elems (snd s) (m_nodes (fst s)))[i := n]"
    using D(2,3) assms(2)
    by (auto simp: link_elems_def list_eq_iff_nth_eq nth_list_update elem_poke nth_eq_iff_index_eq)
  then show ?thesis by (simp add: view_def set_node_def)
qed

lemma sole_set_node: "sole I s \<Longrightarrow> sole I (set_node i n s)"
  by (simp add: sole_def set_node_def)

lemma sole_updates [simp]:
  "sole I (c\<lparr>m_availableSizeToRead := x\<rparr>, st) = sole I (c, st)"
  "sole I (c\<lparr>m_availableSizeToWrite := x\<rparr>, st) = sole I (c, st)"
  "sole I (c\<lparr>m_readNode := x\<rparr>, st) = sole I (c, st)"
  "sole I (c\<lparr>m_writeNode := x\<rparr>, st) = sole I (c, st)"
  by (simp_all add: sole_def)

text \<open>What a step may do to the store: write the array's own nodes and append new ones.\<close>

definition confined :: "cow_state \<Rightarrow> cow_state \<Rightarrow> bool" where
  "confined s s' \<longleftrightarrow> length (snd s) \<le> length (snd s')
     \<and> (\<forall>a < length (snd s). use_count (snd s' ! a) = use_count (snd s ! a))
     \<and> (\<forall>a < length (snd s). a \<notin> set (m_nodes (fst s)) \<longrightarrow> snd s' ! a = snd s ! a)
     \<and> set (m_nodes (fst s')) \<subseteq> set (m_nodes (fst s)) \<union> {length (snd s)..<length (snd s')}"

lemma confined_refl [intro, simp]: "confined s s"
  by (simp add: confined_def)

lemma confined_trans [trans]:
  assumes "confined s s'" "confined s' s''"
  shows "confined s s''"
proof -
  have "a \<notin> set (m_nodes (fst s'))" if "a < length (snd s)" "a \<notin> set (m_nodes (fst s))" for a
    using that assms(1) by (auto simp: confined_def)
  with assms show ?thesis by (fastforce simp: confined_def)
qed

lemma poke_other [simp]: "a \<noteq> b \<Longrightarrow> poke b x st ! a = st ! a"
  by (simp add: poke_def)

lemma confined_set_node [simp]:
  assumes "i < length (m_nodes (fst s))"
  shows "confined s (set_node i n s)"
proof -
  have "a \<noteq> m_nodes (fst s) ! i" if "a \<notin> set (m_nodes (fst s))" for a
    using that assms by auto
  then show ?thesis by (auto simp: confined_def set_node_def)
qed

lemma confined_fields [simp]:
  "confined s (c\<lparr>m_availableSizeToRead := x\<rparr>, st) = confined s (c, st)"
  "confined s (c\<lparr>m_availableSizeToWrite := x\<rparr>, st) = confined s (c, st)"
  "confined s (c\<lparr>m_readNode := x\<rparr>, st) = confined s (c, st)"
  "confined s (c\<lparr>m_writeNode := x\<rparr>, st) = confined s (c, st)"
  by (simp_all add: confined_def)

subsection \<open>The loops on unshared nodes\<close>

text \<open>
  A loop body ends by writing the node and, in some cases, by moving a cursor. What
  remains of the round is a no-op when the next node is unshared too.
\<close>

lemma body_sole:
  assumes "sole I s" "i < length (m_nodes (fst s))" "set_node i n s = (c, st)"
  shows "sole I (c, st)" "confined s (c, st)" "c = fst s"
    "view (c, st) = (view s)\<lparr>m_nodes := (m_nodes (view s))[i := n]\<rparr>"
  using sole_set_node [OF assms(1), of i n] confined_set_node [OF assms(2), of n]
    view_set_node [OF assms(1,2), of n] assms(3)
  by (auto simp: set_node_def)

text \<open>The effect of a run on an unshared array: confined, and nothing becomes shared.\<close>

definition tame :: "nat set \<Rightarrow> cow_state \<Rightarrow> cow_state \<Rightarrow> bool" where
  "tame I s s' \<longleftrightarrow> confined s s' \<and> sole I s'"

lemma tame_trans [trans]: "tame I s s' \<Longrightarrow> tame I s' s'' \<Longrightarrow> tame I s s''"
  unfolding tame_def by (metis confined_trans)

lemma tame_refl [intro]: "sole I s \<Longrightarrow> tame I s s"
  by (simp add: tame_def)

text \<open>A run that yields \<open>x\<close> and \<open>s'\<close> shows \<open>x\<close> and the view of \<open>s'\<close>.\<close>

definition sims :: "nat set \<Rightarrow> cow_state \<Rightarrow> ('x \<times> cow_state) option \<Rightarrow> ('x \<times> bytes) option \<Rightarrow> bool" where
  "sims I s r r' \<longleftrightarrow> map_option (map_prod id view) r = r' \<and> (\<forall>x s'. r = Some (x, s') \<longrightarrow> tame I s s')"

lemma sims_None [simp]: "sims I s None r' \<longleftrightarrow> r' = None"
  by (auto simp: sims_def)

lemma sims_Some [simp]: "sims I s (Some (x, s')) r' \<longleftrightarrow> r' = Some (x, view s') \<and> tame I s s'"
  by (cases s') (auto simp: sims_def)

lemma sims_step: "tame I s s' \<Longrightarrow> sims I s' r r' \<Longrightarrow> sims I s r r'"
  unfolding sims_def using tame_trans by blast

lemma sims_SomeD: "sims I s r (Some (x, b)) \<Longrightarrow> \<exists>s'. r = Some (x, s') \<and> view s' = b \<and> tame I s s'"
  by (cases r) (auto simp: sims_def)

lemma cow_write_loop_sim:
  assumes "sole I s" "{it..} \<subseteq> I"
  shows "sims I s (cow_write_loop it d s) (write_loop it d (view s))"
  using assms
proof (induction "length (m_nodes (fst s)) - it" arbitrary: it d s rule: less_induct)
  case (less it s d)
  let ?node = "node_at it s"
  obtain k where k: "(if sub64 BufferNodeSize (node_end ?node) < length d
            then sub64 BufferNodeSize (node_end ?node) else length d) = k" by blast
  show ?case
  proof (cases "d \<noteq> [] \<and> it < length (m_nodes (fst s))")
    case False
    then show ?thesis
      using less.prems by (subst cow_write_loop.simps, subst write_loop.simps) auto
  next
    case True
    then have view: "?node = m_nodes (view s) ! it" by (simp add: node_at_view)
    show ?thesis
    proof (cases "memcpy_in (node_buffer ?node) (node_end ?node) (take k d)")
      case None
      then show ?thesis
        using True
        by (subst cow_write_loop.simps, subst write_loop.simps)
           (simp only: Let_def k view [symmetric], simp)
    next
      case (Some buf)
      let ?n = "?node\<lparr>node_buffer := buf, node_end := node_end ?node + k\<rparr>"
      obtain c st where cst: "set_node it ?n s = (c, st)" by fastforce
      let ?c = "if m_writeNode c + 1 < length (m_nodes c) \<and> node_end ?n = BufferNodeSize
                then c\<lparr>m_writeNode := m_writeNode c + 1\<rparr> else c"
      note body = body_sole [OF less.prems(1) conjunct2 [OF True] cst]
      have sole: "sole I (?c, st)" and conf: "confined s (?c, st)" using body by simp_all
      have len: "m_nodes ?c = m_nodes (fst s)" using body(3) by simp
      have "cow_at (it + 1) (?c, st) = (?c, st)"
        by (rule cow_at_sole [OF sole]) (use less.prems(2) in auto)
      then have eq: "cow_write_loop it d s = cow_write_loop (it + 1) (drop k d) (?c, st)"
        using True by (subst cow_write_loop.simps, simp only: Let_def k) (simp add: Some cst)
      have eq': "write_loop it d (view s) = write_loop (it + 1) (drop k d) (view (?c, st))"
        using True body(3,4)
        by (subst write_loop.simps, simp only: Let_def k view [symmetric]) (simp add: Some)
      have IH: "sims I (?c, st) (cow_write_loop (it + 1) (drop k d) (?c, st))
          (write_loop (it + 1) (drop k d) (view (?c, st)))"
        by (rule less.hyps) (use True sole len less.prems(2) in auto)
      have "tame I s (?c, st)" using sole conf by (simp add: tame_def)
      then show ?thesis
        unfolding eq eq' by (rule sims_step) (rule IH)
    qed
  qed
qed

text \<open>Reading: the results of the loops, with the bytes and the count in one component.\<close>

definition read_result :: "('a \<times> 'b \<times> 's) option \<Rightarrow> (('a \<times> 'b) \<times> 's) option" where
  "read_result = map_option (\<lambda>(out, rest, s). ((out, rest), s))"

lemma read_result_simps [simp]:
  "read_result None = None" "read_result (Some (out, rest, s)) = Some ((out, rest), s)"
  by (simp_all add: read_result_def)

lemma sims_prefix:
  assumes "sims I s (read_result r) (read_result r')"
  shows "sims I s (read_result (map_option (\<lambda>(out', rest). (out @ out', rest)) r))
           (read_result (map_option (\<lambda>(out', rest). (out @ out', rest)) r'))"
  using assms by (cases r; cases r') auto

lemma cow_read_loop_sim:
  assumes "sole I s" "{it..e} \<subseteq> I"
  shows "sims I s (read_result (cow_read_loop it e n s)) (read_result (read_loop it e n (view s)))"
  using assms
proof (induction "e - it" arbitrary: it n s rule: less_induct)
  case (less it n s)
  let ?node = "node_at it s"
  obtain k where k: "(if sub64 (node_end ?node) (node_start ?node) < n
            then sub64 (node_end ?node) (node_start ?node) else n) = k" by blast
  show ?case
  proof (cases "(0 < n \<and> it < e) \<and> it < length (m_nodes (fst s))")
    case False
    then show ?thesis
      using less.prems by (subst cow_read_loop.simps, subst read_loop.simps) (auto simp: not_less)
  next
    case True
    then have view: "nth_opt (m_nodes (view s)) it = Some ?node" by (simp add: node_at_view)
    have nth: "m_nodes (view s) ! it = ?node" using True by (simp add: node_at_view)
    have pos: "0 < n \<and> it < e" "\<not> length (m_nodes (fst s)) \<le> it" using True by simp_all
    show ?thesis
    proof (cases "memcpy_out (node_buffer ?node) (node_start ?node) k")
      case None
      then show ?thesis
        by (subst cow_read_loop.simps, subst read_loop.simps)
           (simp only: Let_def k view option.case pos if_True if_False simp_thms, simp)
    next
      case (Some out)
      let ?n = "?node\<lparr>node_start := node_start ?node + k\<rparr>"
      obtain c st where cst: "set_node it ?n s = (c, st)" by fastforce
      let ?c = "if node_start ?n = BufferNodeSize \<and> m_readNode c + 1 < length (m_nodes c)
                then c\<lparr>m_writeNode := (if m_readNode c = m_writeNode c
                                     then m_writeNode c + 1 else m_writeNode c),
                       m_readNode := m_readNode c + 1\<rparr>
                else c"
      note body = body_sole [OF less.prems(1) conjunct2 [OF True] cst]
      have sole: "sole I (?c, st)" and conf: "confined s (?c, st)" using body by simp_all
      have "cow_at (it + 1) (?c, st) = (?c, st)"
        by (rule cow_at_sole [OF sole]) (use less.prems(2) True in auto)
      then have eq: "cow_read_loop it e n s = map_option (\<lambda>(out', rest). (out @ out', rest))
          (cow_read_loop (it + 1) e (n - k) (?c, st))"
        using pos by (subst cow_read_loop.simps, simp only: Let_def k) (simp add: Some cst)
      have eq': "read_loop it e n (view s) = map_option (\<lambda>(out', rest). (out @ out', rest))
          (read_loop (it + 1) e (n - k) (view (?c, st)))"
        using pos(1) body(3,4)
        by (subst read_loop.simps, simp only: Let_def view option.case k) (simp add: Some)
      have IH: "sims I (?c, st) (read_result (cow_read_loop (it + 1) e (n - k) (?c, st)))
          (read_result (read_loop (it + 1) e (n - k) (view (?c, st))))"
        by (rule less.hyps) (use True sole less.prems(2) in auto)
      have "tame I s (?c, st)" using sole conf by (simp add: tame_def)
      then show ?thesis
        unfolding eq eq' by (rule sims_step) (rule sims_prefix [OF IH])
    qed
  qed
qed

subsection \<open>The operations on unshared nodes\<close>

definition refines :: "cow_state \<Rightarrow> cow_state option \<Rightarrow> bytes option \<Rightarrow> bool" where
  "refines s r r' \<longleftrightarrow> map_option view r = r' \<and> (\<forall>s'. r = Some s' \<longrightarrow> tame UNIV s s')"

lemma refines_simps [simp]:
  "refines s None r' \<longleftrightarrow> r' = None"
  "refines s (Some s') r' \<longleftrightarrow> r' = Some (view s') \<and> tame UNIV s s'"
  by (auto simp: refines_def)

lemma refines_step: "tame UNIV s s' \<Longrightarrow> refines s' r r' \<Longrightarrow> refines s r r'"
  unfolding refines_def using tame_trans by blast

lemma count_poke_all [simp]: "use_count (poke_all f as st ! a) = use_count (st ! a)"
  by (induction as arbitrary: st) (simp_all add: poke_all_def)

lemma length_poke_all [simp]: "length (poke_all f as st) = length st"
  by (induction as arbitrary: st) (simp_all add: poke_all_def)

lemma poke_all_other: "a \<notin> set as \<Longrightarrow> poke_all f as st ! a = st ! a"
  by (induction as arbitrary: st) (simp_all add: poke_all_def)

lemma poke_all_own:
  "distinct as \<Longrightarrow> a \<in> set as \<Longrightarrow> \<forall>b \<in> set as. b < length st \<Longrightarrow>
   elem (poke_all f as st ! a) = f (elem (st ! a))"
proof (induction as arbitrary: st)
  case (Cons b as)
  have step: "poke_all f (b # as) st = poke_all f as (poke b (f (elem (st ! b))) st)"
    by (simp add: poke_all_def)
  show ?case
  proof (cases "a = b")
    case True
    with Cons.prems show ?thesis by (simp add: step poke_all_other elem_poke)
  next
    case False
    with Cons show ?thesis by (simp add: step)
  qed
qed simp

lemma link_elems_rotated:
  assumes "distinct l" "\<forall>a \<in> set l. a < length st"
  shows "link_elems (poke_all f (take e l) st) (drop e l @ take e l)
     = drop e (link_elems st l) @ map f (take e (link_elems st l))"
proof -
  have d: "distinct (take e l)" "\<And>a. a \<in> set (drop e l) \<Longrightarrow> a \<notin> set (take e l)"
    using assms(1) set_take_disj_set_drop_if_distinct [OF assms(1) order_refl, of e]
    by auto
  have "link_elems (poke_all f (take e l) st) (drop e l) = link_elems st (drop e l)"
    using d(2) by (auto simp: link_elems_def poke_all_other)
  moreover have b: "\<forall>b \<in> set (take e l). b < length st"
    using assms(2) by (auto dest: in_set_takeD)
  then have "link_elems (poke_all f (take e l) st) (take e l) = map f (link_elems st (take e l))"
    by (simp add: link_elems_def poke_all_own [OF d(1) _ b])
  ultimately show ?thesis
    by (simp add: link_elems_def take_map drop_map)
qed

lemma rotated_nodes:
  shows "set (drop e l @ take e l) = set l"
    and "distinct l \<Longrightarrow> distinct (drop e l @ take e l)"
  by (metis append_take_drop_id set_append sup_commute)
     (metis append_take_drop_id distinct_append inf_commute)

lemma cow_moveBufferHead_sim:
  assumes "sole UNIV s"
  shows "refines s (cow_moveBufferHead s) (unlockedMoveBufferHead (view s))"
proof -
  obtain c st where s: "s = (c, st)" by fastforce
  note D = soleD [OF assms, unfolded s fst_conv snd_conv]
  show ?thesis
  proof (cases "m_readNode c = 0 \<or> length (m_nodes c) < m_readNode c")
    case True
    then show ?thesis using assms D(1)
      by (auto simp: s cow_moveBufferHead_def unlockedMoveBufferHead_def moveToTail_eq
          node_moveToTail_def)
  next
    case False
    let ?e = "m_readNode c" and ?l = "m_nodes c"
    let ?st = "poke_all resetNode (take ?e ?l) st" and ?l' = "drop ?e ?l @ take ?e ?l"
    have "use_count (st ! a) = 1" if "a \<in> set ?l" for a
      using that D(5) by (auto simp: in_set_conv_nth)
    moreover have "?l' ! i \<in> set ?l" if "i < length ?l'" for i
      using that rotated_nodes(1) by (metis nth_mem)
    ultimately have "sole UNIV (c\<lparr>m_nodes := ?l'\<rparr>, ?st)"
      using D rotated_nodes [where e = ?e and l = ?l] by (auto simp: sole_def)
    moreover have "confined s (c\<lparr>m_nodes := ?l'\<rparr>, ?st)"
      using rotated_nodes(1) [where e = ?e and l = ?l]
      by (auto simp: s confined_def poke_all_other dest: in_set_takeD)
    moreover have "link_elems ?st ?l' = drop ?e (link_elems st ?l) @ map resetNode (take ?e (link_elems st ?l))"
      using D by (intro link_elems_rotated) auto
    ultimately show ?thesis
      using False D(1)
      by (simp add: s cow_moveBufferHead_def unlockedMoveBufferHead_def moveToTail_eq
          node_moveToTail_def tame_def view_def confined_def sole_def link_elems_def)
  qed
qed

lemma alloc_loop_spec:
  "alloc_loop n x (l, st) = (l @ [length st..<length st + n],
     st @ replicate n \<lparr>use_count = 1, elem = x\<rparr>)"
proof (induction n arbitrary: l st)
  case (Suc n)
  have "length st # [Suc (length st)..<length st + Suc n] = [length st..<length st + Suc n]"
    by (simp add: upt_conv_Cons)
  with Suc.IH [of "l @ [length st]" "st @ [\<lparr>use_count = 1, elem = x\<rparr>]"] show ?case
    by (simp add: make_shared_def)
qed simp

lemma alloc_loop_sim:
  assumes "sole UNIV (c, st)" "alloc_loop k newBufferNode (m_nodes c, st) = (l, st')"
  shows "tame UNIV (c, st) (c\<lparr>m_nodes := l\<rparr>, st')"
    and "view (c\<lparr>m_nodes := l\<rparr>, st')
       = (view (c, st))\<lparr>m_nodes := m_nodes (view (c, st)) @ replicate k newBufferNode\<rparr>"
proof -
  note D = soleD [OF assms(1), unfolded fst_conv snd_conv]
  have l: "l = m_nodes c @ [length st..<length st + k]"
    and st': "st' = st @ replicate k \<lparr>use_count = 1, elem = newBufferNode\<rparr>"
    using assms(2) by (simp_all add: alloc_loop_spec)
  have "use_count (st' ! (l ! i)) = 1" if "i < length l" for i
    using that D(4,5) by (auto simp: l st' nth_append)
  with D(1,2,3) show "tame UNIV (c, st) (c\<lparr>m_nodes := l\<rparr>, st')"
    by (auto simp: tame_def confined_def sole_def l st' nth_append dest!: D(3))
  have "link_elems st' [length st..<length st + k] = replicate k newBufferNode"
    by (simp add: link_elems_def st' list_eq_iff_nth_eq)
  moreover have "link_elems st' (m_nodes c) = link_elems st (m_nodes c)"
    using D(3) by (simp add: link_elems_def st' nth_append)
  ultimately show "view (c\<lparr>m_nodes := l\<rparr>, st')
       = (view (c, st))\<lparr>m_nodes := m_nodes (view (c, st)) @ replicate k newBufferNode\<rparr>"
    by (simp add: view_def l link_elems_def)
qed

lemma cow_allocIfNotEnough_sim:
  assumes "sole UNIV s"
  shows "refines s (cow_allocIfNotEnough sz s) (unlockedAllocIfNotEnough sz (view s))"
proof (cases "m_availableSizeToWrite (fst s) \<le> sz")
  case False
  with assms show ?thesis
    by (auto simp: cow_allocIfNotEnough_def unlockedAllocIfNotEnough_def)
next
  case True
  note sim = cow_moveBufferHead_sim [OF assms]
  show ?thesis
  proof (cases "cow_moveBufferHead s")
    case None
    with sim True show ?thesis
      by (simp add: cow_allocIfNotEnough_def unlockedAllocIfNotEnough_def)
  next
    case (Some s1)
    obtain c st where s1: "s1 = (c, st)" by fastforce
    from sim Some have moved: "unlockedMoveBufferHead (view s) = Some (view s1)" "tame UNIV s s1"
      by simp_all
    then have sole: "sole UNIV (c, st)" by (simp add: tame_def s1)
    let ?n = "length (m_nodes c)" and ?a = "m_availableSizeToWrite c"
    let ?g = "grow_loop sz ?n ?a (?n * 2) (sub64 (?n * 2) ?n * BufferNodeSize + ?a)"
    consider "\<not> ?a \<le> sz" | "?a \<le> sz" "?g = None" | i w where "?a \<le> sz" "?g = Some (i, w)" by fastforce
    then show ?thesis
    proof cases
      case (3 i w)
      let ?k = "if i < ?n then 0 else i - ?n"
      obtain l st' where more: "alloc_loop ?k newBufferNode (m_nodes c, st) = (l, st')" by fastforce
      note alloc = alloc_loop_sim [OF sole more]
      have "allocMore newBufferNode i (m_nodes c, st) = (l, st')"
        using more by (auto simp: allocMore_def split: if_splits)
      moreover have "node_allocMore i (m_nodes (view s1)) = m_nodes (view s1) @ replicate ?k newBufferNode"
        by (simp add: node_allocMore_def s1)
      moreover have "tame UNIV s (c\<lparr>m_nodes := l\<rparr>, st')"
        using moved(2) alloc(1) tame_trans by (auto simp: s1)
      ultimately show ?thesis
        using True Some moved(1) 3 alloc(2) soleD(1) [OF sole]
        by (simp add: cow_allocIfNotEnough_def unlockedAllocIfNotEnough_def s1 Let_def tame_def)
    qed (use True Some moved s1 soleD(1) [OF sole] in
        \<open>simp_all add: cow_allocIfNotEnough_def unlockedAllocIfNotEnough_def Let_def\<close>)
  qed
qed

text \<open>\<^verbatim>\<open>writeRaw\<close> and \<^verbatim>\<open>retrieveRaw\<close> on unshared nodes are those of the plain array.\<close>

lemma cow_writeRaw_sim:
  assumes "sole UNIV s"
  shows "refines s (cow_writeRaw d s) (writeRaw d (view s))"
proof -
  let ?a = "if m_availableSizeToWrite (fst s) \<le> length d then cow_allocIfNotEnough (length d) s else Some s"
  let ?a' = "if m_availableSizeToWrite (view s) \<le> length d
             then unlockedAllocIfNotEnough (length d) (view s) else Some (view s)"
  have alloc: "refines s ?a ?a'"
    using cow_allocIfNotEnough_sim [OF assms] assms by auto
  show ?thesis
  proof (cases ?a)
    case None
    with alloc show ?thesis by (simp add: cow_writeRaw_def writeRaw_def)
  next
    case (Some s1)
    with alloc have s1: "?a' = Some (view s1)" "tame UNIV s s1" by simp_all
    then have sole: "sole UNIV s1" by (simp add: tame_def)
    note loop = cow_write_loop_sim [OF sole, of "m_writeNode (fst s1)" d]
    show ?thesis
    proof (cases "cow_write_loop (m_writeNode (fst s1)) d s1")
      case None
      with loop Some s1 sole show ?thesis
        by (simp add: cow_writeRaw_def writeRaw_def cow_at_sole [OF sole])
    next
      case (Some r)
      obtain rest c st where r: "r = (rest, c, st)" by (cases r)
      from loop Some have "write_loop (m_writeNode (fst s1)) d (view s1) = Some (rest, view (c, st))"
        "tame UNIV s1 (c, st)" by (simp_all add: r)
      moreover from this s1(2) have "tame UNIV s (c, st)" by (blast intro: tame_trans)
      moreover have "cow_writeRaw d s = Some (c\<lparr>m_availableSizeToRead := m_availableSizeToRead c + (length d - length rest),
         m_availableSizeToWrite := sub64 (m_availableSizeToWrite c) (length d - length rest)\<rparr>, st)"
        using \<open>?a = Some s1\<close> Some soleD(1) [OF sole] by (simp add: cow_writeRaw_def cow_at_sole [OF sole] r)
      ultimately show ?thesis
        using s1(1) by (simp add: writeRaw_def tame_def)
    qed
  qed
qed

lemma cow_endOfReadNode_view:
  "\<not> m_nodes_null (fst s) \<Longrightarrow> cow_endOfReadNode s = endOfReadNode (view s)"
  by (auto simp: cow_endOfReadNode_def endOfReadNode_def deref_def nth_opt_def view_def link_elems_def
      Let_def)

text \<open>Reading needs only the nodes between the cursors to be unshared.\<close>

lemma endOfReadNode_le:
  "endOfReadNode b = Some e \<Longrightarrow> m_readNode b \<le> m_writeNode b \<Longrightarrow> m_readNode b \<le> e"
  by (auto simp: endOfReadNode_def split: if_splits option.splits)

lemma cow_retrieveRaw_sim:
  assumes "sole I s" "\<And>e. endOfReadNode (view s) = Some e \<Longrightarrow> {m_readNode (fst s)..e} \<subseteq> I"
    and "m_readNode (fst s) \<le> m_writeNode (fst s)"
  shows "sims I s (cow_retrieveRaw n s) (retrieveRaw n (view s))"
proof (cases "n \<le> m_availableSizeToRead (fst s)")
  case False
  with assms show ?thesis by (auto simp: cow_retrieveRaw_def retrieveRaw_def)
next
  case True
  note null = soleD(1) [OF assms(1)]
  show ?thesis
  proof (cases "endOfReadNode (view s)")
    case None
    with True null show ?thesis
      by (simp add: cow_retrieveRaw_def retrieveRaw_def cow_endOfReadNode_view)
  next
    case (Some e)
    have at: "cow_at (m_readNode (fst s)) s = s"
      by (rule cow_at_sole [OF assms(1)]) (use assms(2) [OF Some] endOfReadNode_le [OF Some] assms(3) in auto)
    have "sims I s (read_result (cow_read_loop (m_readNode (fst s)) e n s))
        (read_result (read_loop (m_readNode (fst s)) e n (view s)))"
      by (rule cow_read_loop_sim [OF assms(1) assms(2) [OF Some]])
    then show ?thesis
      using True Some null
      by (cases "cow_read_loop (m_readNode (fst s)) e n s";
          cases "read_loop (m_readNode (fst s)) e n (view s)")
         (auto simp: cow_retrieveRaw_def retrieveRaw_def cow_endOfReadNode_view at tame_def)
  qed
qed

subsection \<open>Any number of arrays that share no node\<close>

text \<open>
  A program that owns several arrays: it makes, writes, reads, moves and destroys them.
  An array that has been moved from or destroyed is not there any more.
\<close>

datatype arrays_op = Make | WriteTo nat "byte list" | ReadFrom nat nat | Move nat | Destroy nat

type_synonym arrays = "CowByteArray list \<times> BufferNode store"

fun arrays_step :: "arrays \<Rightarrow> arrays_op \<Rightarrow> (byte list \<times> arrays) option" where
  "arrays_step (cs, st) Make = (let (c, st) = newCowByteArray st in Some ([], cs @ [c], st))"
| "arrays_step (cs, st) (WriteTo i d) = do {
     c \<leftarrow> nth_opt cs i; (c, st) \<leftarrow> cow_writeRaw d (c, st); Some ([], cs[i := c], st) }"
| "arrays_step (cs, st) (ReadFrom i n) = do {
     c \<leftarrow> nth_opt cs i; (out, c, st) \<leftarrow> cow_retrieveRaw n (c, st); Some (out, cs[i := c], st) }"
| "arrays_step (cs, st) (Move i) = do {
     c \<leftarrow> nth_opt cs i; let (c', c) = moveByteArray c; Some ([], cs[i := c] @ [c'], st) }"
| "arrays_step (cs, st) (Destroy i) = do {
     c \<leftarrow> nth_opt cs i;
     Some ([], cs[i := c\<lparr>m_nodes := [], m_nodes_null := True\<rparr>], destroyByteArray c st) }"

text \<open>The specification: independent queues.\<close>

fun queues_step :: "byte list option list \<Rightarrow> arrays_op \<Rightarrow> (byte list \<times> byte list option list) option" where
  "queues_step qs Make = Some ([], qs @ [Some []])"
| "queues_step qs (WriteTo i d) = do {
     q \<leftarrow> Option.bind (nth_opt qs i) id; Some ([], qs[i := Some (q @ d)]) }"
| "queues_step qs (ReadFrom i n) = do {
     q \<leftarrow> Option.bind (nth_opt qs i) id;
     if n \<le> length q then Some (take n q, qs[i := Some (drop n q)]) else Some ([], qs) }"
| "queues_step qs (Move i) = do {
     q \<leftarrow> Option.bind (nth_opt qs i) id; Some ([], qs[i := None] @ [Some q]) }"
| "queues_step qs (Destroy i) = do {
     q \<leftarrow> Option.bind (nth_opt qs i) id; Some ([], qs[i := None]) }"

fun ops_run :: "('s \<Rightarrow> 'o \<Rightarrow> ('x \<times> 's) option) \<Rightarrow> 's \<Rightarrow> 'o list \<Rightarrow> ('x list \<times> 's) option" where
  "ops_run step s [] = Some ([], s)"
| "ops_run step s (x # xs) = do {
     (out, s) \<leftarrow> step s x; (outs, s) \<leftarrow> ops_run step s xs; Some (out # outs, s) }"

definition holds :: "BufferNode store \<Rightarrow> CowByteArray \<Rightarrow> byte list option \<Rightarrow> bool" where
  "holds st c q \<longleftrightarrow> (case q of None \<Rightarrow> m_nodes c = []
     | Some q \<Rightarrow> sole UNIV (c, st) \<and> ba_inv (view (c, st)) \<and> contents (view (c, st)) = q)"

definition apart :: "CowByteArray list \<Rightarrow> bool" where
  "apart cs \<longleftrightarrow> (\<forall>i < length cs. \<forall>j < length cs. i \<noteq> j \<longrightarrow>
     set (m_nodes (cs ! i)) \<inter> set (m_nodes (cs ! j)) = {})"

definition arrays_ok :: "arrays \<Rightarrow> byte list option list \<Rightarrow> bool" where
  "arrays_ok s qs \<longleftrightarrow> list_all2 (holds (snd s)) (fst s) qs \<and> apart (fst s)"

text \<open>What the others see when one array changes its own cells and makes new ones.\<close>

definition spares :: "nat set \<Rightarrow> BufferNode store \<Rightarrow> BufferNode store \<Rightarrow> bool" where
  "spares N st st' \<longleftrightarrow> length st \<le> length st' \<and> (\<forall>a < length st. a \<notin> N \<longrightarrow> st' ! a = st ! a)"

lemma spares_confined: "confined s s' \<Longrightarrow> spares (set (m_nodes (fst s))) (snd s) (snd s')"
  by (simp add: confined_def spares_def)

lemma spared_view:
  assumes "spares N st st'" "sole UNIV (c, st)" "set (m_nodes c) \<inter> N = {}"
  shows "sole UNIV (c, st')" "view (c, st') = view (c, st)"
proof -
  note D = soleD [OF assms(2), unfolded fst_conv snd_conv]
  have same: "st' ! a = st ! a" "a < length st'" if "a \<in> set (m_nodes c)" for a
    using that assms(1,3) D(3) [OF that] by (auto simp: spares_def)
  then show "sole UNIV (c, st')"
    using D by (auto simp: sole_def)
  show "view (c, st') = view (c, st)"
    using same by (simp add: view_def link_elems_def)
qed

lemma spared_holds:
  "spares N st st' \<Longrightarrow> holds st c q \<Longrightarrow> set (m_nodes c) \<inter> N = {} \<Longrightarrow> holds st' c q"
  using spared_view by (auto simp: holds_def split: option.splits)

lemma holds_in_store: "holds st c q \<Longrightarrow> a \<in> set (m_nodes c) \<Longrightarrow> a < length st"
  by (auto simp: holds_def sole_def split: option.splits)

lemma arrays_update:
  assumes "arrays_ok (cs, st) qs" "i < length cs"
    and "spares (set (m_nodes (cs ! i))) st st'" "holds st' c' q'"
    and "set (m_nodes c') \<subseteq> set (m_nodes (cs ! i)) \<union> {length st..}"
  shows "arrays_ok (cs[i := c'], st') (qs[i := q'])"
proof -
  have all: "list_all2 (holds st) cs qs" and apart: "apart cs"
    using assms(1) by (simp_all add: arrays_ok_def)
  have len: "length qs = length cs" using all by (simp add: list_all2_lengthD)
  have held: "holds st (cs ! j) (qs ! j)" if "j < length cs" for j
    using all that len by (simp add: list_all2_conv_all_nth)
  have disj: "set (m_nodes (cs ! j)) \<inter> set (m_nodes (cs ! i)) = {}" if "j < length cs" "j \<noteq> i" for j
    using apart that assms(2) by (simp add: apart_def)
  have "holds st' (cs ! j) (qs ! j)" if "j < length cs" "j \<noteq> i" for j
    by (rule spared_holds [OF assms(3) held [OF that(1)] disj [OF that]])
  then have "list_all2 (holds st') (cs[i := c']) (qs[i := q'])"
    using len assms(2,4) by (auto simp: list_all2_conv_all_nth nth_list_update)
  moreover have new: "set (m_nodes (cs ! j)) \<inter> set (m_nodes c') = {}" if "j < length cs" "j \<noteq> i" for j
    using disj [OF that] assms(5) holds_in_store [OF held [OF that(1)]] by fastforce
  have "apart (cs[i := c'])"
    using apart new assms(2) by (auto simp: apart_def nth_list_update Int_commute)
  ultimately show ?thesis by (simp add: arrays_ok_def)
qed

lemma arrays_append:
  assumes "arrays_ok (cs, st) qs" "spares {} st st'" "holds st' c' q'"
    and "\<And>j. j < length cs \<Longrightarrow> set (m_nodes (cs ! j)) \<inter> set (m_nodes c') = {}"
  shows "arrays_ok (cs @ [c'], st') (qs @ [q'])"
proof -
  have all: "list_all2 (holds st) cs qs" and apart: "apart cs"
    using assms(1) by (simp_all add: arrays_ok_def)
  have "list_all2 (holds st') cs qs"
    using all by (rule list_all2_mono) (rule spared_holds [OF assms(2)], auto)
  moreover have "apart (cs @ [c'])"
    using apart assms(4) by (auto simp: apart_def nth_append less_Suc_eq Int_commute)
  ultimately show ?thesis
    using assms(3) by (simp add: arrays_ok_def list_all2_appendI)
qed

lemma moveByteArray_eq: "moveByteArray c = (c, c\<lparr>m_nodes := [], m_nodes_null := True\<rparr>)"
  by (simp add: moveByteArray_def)

lemma newCowByteArray_eq:
  "newCowByteArray st = (\<lparr>m_availableSizeToRead = 0, m_availableSizeToWrite = BufferNodeSize,
     m_readNode = 0, m_writeNode = 0, m_nodes = [length st], m_nodes_null = False\<rparr>,
     st @ [\<lparr>use_count = 1, elem = newBufferNode\<rparr>])"
  by (simp add: newCowByteArray_def newCowLink_def defaultNodeSize_def alloc_loop_spec)

lemma new_holds: "newCowByteArray st = (c, st') \<Longrightarrow> holds st' c (Some []) \<and> m_nodes c = [length st]"
proof -
  assume new: "newCowByteArray st = (c, st')"
  then have "view (c, st') = newByteArray"
    by (auto simp: newCowByteArray_eq view_def link_elems_def newByteArray_def)
  moreover have "sole UNIV (c, st')" "m_nodes c = [length st]"
    using new by (auto simp: newCowByteArray_eq sole_def)
  ultimately show ?thesis by (simp add: holds_def)
qed

text \<open>Writing and reading an array that holds a queue.\<close>

lemma write_holds:
  assumes "holds st c (Some q)"
  shows "\<exists>c' st'. cow_writeRaw d (c, st) = Some (c', st') \<and> confined (c, st) (c', st')
     \<and> holds st' c' (Some (q @ d))"
proof -
  have h: "sole UNIV (c, st)" "ba_inv (view (c, st))" "contents (view (c, st)) = q"
    using assms by (simp_all add: holds_def)
  obtain b where b: "writeRaw d (view (c, st)) = Some b" "ba_inv b" "contents b = q @ d"
    using writeRaw_inv [OF h(2), of d] h(3) by blast
  with cow_writeRaw_sim [OF h(1), of d] show ?thesis
    by (cases "cow_writeRaw d (c, st)") (auto simp: tame_def holds_def)
qed

lemma read_holds:
  assumes "holds st c (Some q)"
  shows "\<exists>c' st'. cow_retrieveRaw n (c, st) = Some (fst (queue_step q (Pop n)), c', st')
     \<and> confined (c, st) (c', st') \<and> holds st' c' (Some (snd (queue_step q (Pop n))))"
proof -
  have h: "sole UNIV (c, st)" "ba_inv (view (c, st))" "contents (view (c, st)) = q"
    using assms by (simp_all add: holds_def)
  obtain b where b: "retrieveRaw n (view (c, st)) = Some (fst (queue_step q (Pop n)), b)"
    "ba_inv b" "contents b = snd (queue_step q (Pop n))"
    using retrieveRaw_enough [OF h(2), of n] retrieveRaw_short [OF h(2), of n] h(2,3)
    by (cases "n \<le> length q") auto
  have "sims UNIV (c, st) (cow_retrieveRaw n (c, st)) (retrieveRaw n (view (c, st)))"
    by (rule cow_retrieveRaw_sim [OF h(1)])
       (use h(2) in \<open>auto simp: ba_inv_def dest: ba_shapeD(1)\<close>)
  from sims_SomeD [OF this [unfolded b(1)]] b(2,3) show ?thesis
    by (auto simp: tame_def holds_def)
qed

text \<open>One array of the program provides the contract of a byte buffer too.\<close>

definition cow_contents :: "cow_state \<Rightarrow> byte list" where
  "cow_contents s = contents (view s)"

definition cow_inv :: "cow_state \<Rightarrow> bool" where
  "cow_inv s \<longleftrightarrow> holds (snd s) (fst s) (Some (cow_contents s))"

lemma cow_invI: "holds st c (Some q) \<Longrightarrow> cow_inv (c, st) \<and> cow_contents (c, st) = q"
  by (auto simp: cow_inv_def cow_contents_def holds_def)

lemma cow_retrieveRaw_short:
  "cow_inv s \<Longrightarrow> length (cow_contents s) < n \<Longrightarrow> cow_retrieveRaw n s = Some ([], s)"
  by (auto simp: cow_inv_def cow_contents_def holds_def ba_inv_def cow_retrieveRaw_def)

interpretation cow: byte_queue "newCowByteArray []" cow_writeRaw cow_retrieveRaw cow_contents cow_inv
proof
  have "holds (snd (newCowByteArray [])) (fst (newCowByteArray [])) (Some [])"
    using new_holds [of "[]"] by (metis prod.collapse)
  then show "cow_inv (newCowByteArray [])" "cow_contents (newCowByteArray []) = []"
    using cow_invI by fastforce+
  show "\<exists>s'. cow_writeRaw d s = Some s' \<and> cow_inv s' \<and> cow_contents s' = cow_contents s @ d"
    if "cow_inv s" for s d
    using write_holds [OF that [unfolded cow_inv_def], of d] cow_invI by fastforce
  show "\<exists>s'. cow_retrieveRaw n s = Some (take n (cow_contents s), s') \<and> cow_inv s'
      \<and> cow_contents s' = drop n (cow_contents s)" if "cow_inv s" "n \<le> length (cow_contents s)" for s n
    using read_holds [OF that(1) [unfolded cow_inv_def], of n] that(2) cow_invI by fastforce
qed (rule cow_retrieveRaw_short)

lemma spares_release: "spares (set as) st (fold release as st)"
proof (induction as arbitrary: st)
  case (Cons a as)
  have "spares (set (a # as)) st (release a st)"
    by (auto simp: spares_def release_def)
  with Cons.IH [of "release a st"] show ?case by (auto simp: spares_def)
qed (simp add: spares_def)

lemma arrays_step_ok:
  assumes "arrays_ok s qs" "queues_step qs x = Some (out, qs')"
  shows "\<exists>s'. arrays_step s x = Some (out, s') \<and> arrays_ok s' qs'"
proof -
  obtain cs st where s: "s = (cs, st)" by fastforce
  note ok = assms(1) [unfolded s]
  have len: "length qs = length cs" and apart: "apart cs"
    and held: "\<And>i q. nth_opt qs i = Some q \<Longrightarrow> i < length cs \<and> holds st (cs ! i) q"
    using ok by (auto simp: arrays_ok_def list_all2_conv_all_nth nth_opt_eq_Some)
  have live: "i < length cs \<and> holds st (cs ! i) (Some q)" if "Option.bind (nth_opt qs i) id = Some q" for i q
    using that held by (auto simp: bind_eq_Some_conv)
  have self: "spares N st st" for N by (simp add: spares_def)
  have dead: "holds st' (c\<lparr>m_nodes := [], m_nodes_null := True\<rparr>) None" for st' c
    by (simp add: holds_def)
  show ?thesis
  proof (cases x)
    case Make
    obtain c st' where new: "newCowByteArray st = (c, st')" by fastforce
    have "arrays_ok (cs @ [c], st') (qs @ [Some []])"
    proof (rule arrays_append [OF ok])
      show "spares {} st st'" using new by (auto simp: newCowByteArray_eq spares_def nth_append)
      show "holds st' c (Some [])" using new_holds [OF new] by simp
      show "set (m_nodes (cs ! j)) \<inter> set (m_nodes c) = {}" if "j < length cs" for j
        using new_holds [OF new] holds_in_store [of st "cs ! j" "qs ! j" "length st"] held [of j "qs ! j"] that len
        by auto
    qed
    with Make assms(2) new show ?thesis by (simp add: s)
  next
    case (WriteTo i d)
    then obtain q where q: "Option.bind (nth_opt qs i) id = Some q" "out = []" "qs' = qs[i := Some (q @ d)]"
      using assms(2) by (auto simp: bind_eq_Some_conv)
    obtain c' st' where w: "cow_writeRaw d (cs ! i, st) = Some (c', st')"
      "confined (cs ! i, st) (c', st')" "holds st' c' (Some (q @ d))"
      using write_holds live [OF q(1)] by blast
    have "arrays_ok (cs[i := c'], st') (qs[i := Some (q @ d)])"
      by (rule arrays_update [OF ok _ _ w(3)])
         (use live [OF q(1)] w(2) spares_confined [OF w(2)] in \<open>auto simp: confined_def\<close>)
    with WriteTo live [OF q(1)] w(1) q(2,3) show ?thesis by (simp add: s)
  next
    case (ReadFrom i n)
    then obtain q where q: "Option.bind (nth_opt qs i) id = Some q"
      "out = fst (queue_step q (Pop n))" "qs' = qs[i := Some (snd (queue_step q (Pop n)))]"
      using assms(2) by (auto simp: bind_eq_Some_conv nth_opt_eq_Some split: if_splits)
        (metis list_update_id)
    obtain c' st' where r: "cow_retrieveRaw n (cs ! i, st) = Some (fst (queue_step q (Pop n)), c', st')"
      "confined (cs ! i, st) (c', st')" "holds st' c' (Some (snd (queue_step q (Pop n))))"
      using read_holds live [OF q(1)] by blast
    have "arrays_ok (cs[i := c'], st') (qs[i := Some (snd (queue_step q (Pop n)))])"
      by (rule arrays_update [OF ok _ _ r(3)])
         (use live [OF q(1)] r(2) spares_confined [OF r(2)] in \<open>auto simp: confined_def\<close>)
    with ReadFrom live [OF q(1)] r(1) q(2,3) show ?thesis by (simp add: s)
  next
    case (Move i)
    then obtain q where q: "Option.bind (nth_opt qs i) id = Some q" "out = []" "qs' = qs[i := None] @ [Some q]"
      using assms(2) by (auto simp: bind_eq_Some_conv)
    let ?c = "(cs ! i)\<lparr>m_nodes := [], m_nodes_null := True\<rparr>"
    have i: "i < length cs" and h: "holds st (cs ! i) (Some q)" using live [OF q(1)] by simp_all
    have "arrays_ok (cs[i := ?c], st) (qs[i := None])"
      by (rule arrays_update [OF ok i self dead]) simp
    moreover have "set (m_nodes (cs[i := ?c] ! j)) \<inter> set (m_nodes (cs ! i)) = {}" if "j < length cs" for j
      using apart that i by (auto simp: apart_def nth_list_update)
    ultimately have "arrays_ok (cs[i := ?c] @ [cs ! i], st) (qs[i := None] @ [Some q])"
      using h by (intro arrays_append [OF _ self]) auto
    with Move i q(2,3) show ?thesis
      by (simp add: s moveByteArray_eq)
  next
    case (Destroy i)
    then obtain q where q: "Option.bind (nth_opt qs i) id = Some q" "out = []" "qs' = qs[i := None]"
      using assms(2) by (auto simp: bind_eq_Some_conv)
    have "arrays_ok (cs[i := (cs ! i)\<lparr>m_nodes := [], m_nodes_null := True\<rparr>], destroyByteArray (cs ! i) st)
        (qs[i := None])"
      by (rule arrays_update [OF ok _ _ dead])
         (use live [OF q(1)] spares_release in \<open>auto simp: destroyByteArray_def\<close>)
    with Destroy live [OF q(1)] q(2,3) show ?thesis by (simp add: s)
  qed
qed

text \<open>C2. A program that makes, writes, reads, moves and destroys any number of byte arrays,
  none of which it copies, sees independent first-in first-out queues: as long as it
  does not use an array that was moved from or destroyed, no operation fails and every
  read returns what the queue of that array holds, although all nodes live in one
  store.\<close>

theorem arrays_refine_queues:
  assumes "ops_run queues_step [] xs = Some (outs, qs)"
  shows "\<exists>s. ops_run arrays_step ([], []) xs = Some (outs, s) \<and> arrays_ok s qs"
proof -
  have "ops_run queues_step qs0 xs = Some (outs, qs) \<Longrightarrow> arrays_ok s0 qs0 \<Longrightarrow>
      \<exists>s. ops_run arrays_step s0 xs = Some (outs, s) \<and> arrays_ok s qs" for qs0 s0
  proof (induction xs arbitrary: qs0 s0 outs)
    case (Cons x xs)
    then obtain out qs1 outs1 where step: "queues_step qs0 x = Some (out, qs1)"
      "ops_run queues_step qs1 xs = Some (outs1, qs)" "outs = out # outs1"
      by (auto simp: bind_eq_Some_conv)
    then show ?case
      using arrays_step_ok [OF Cons.prems(2) step(1)] Cons.IH [OF step(2)] by fastforce
  qed simp
  moreover have "arrays_ok ([], []) []" by (simp add: arrays_ok_def apart_def)
  ultimately show ?thesis using assms by blast
qed

theorem arrays_refine_queues_witness:
  "\<exists>s. ops_run arrays_step ([], []) [Make, Make, WriteTo 0 [1], WriteTo 1 [2], Move 0, ReadFrom 2 1]
     = Some ([[], [], [], [], [], [1]], s)"
proof -
  have "ops_run queues_step [] [Make, Make, WriteTo 0 [1], WriteTo 1 [2], Move 0, ReadFrom 2 1]
      = Some ([[], [], [], [], [], [1]], [None, Some [2], Some []])"
    by (simp add: nth_opt_def)
  from arrays_refine_queues [OF this] show ?thesis by blast
qed

subsection \<open>Copies\<close>

text \<open>A copied array has the nodes of the other, each counted once more.\<close>

lemma copyByteArray_eq:
  assumes "\<not> m_nodes_null c"
  shows "copyByteArray c st = Some (c, fold retain (m_nodes c) st)"
  using assms by (simp add: copyByteArray_def copyCowLink_def)

text \<open>
  Reading through the iterators copies the nodes on the way, and a copied node is empty:
  as long as only such nodes come up, the loop reads nothing and goes on.
\<close>

lemma set_node_id: "i < length (m_nodes (fst s)) \<Longrightarrow> set_node i (node_at i s) s = s"
proof -
  have "poke a (elem (st ! a)) st = st" for a and st :: "BufferNode store"
    by (cases "a < length st") (simp_all add: poke_def list_update_beyond)
  then show ?thesis by (simp add: set_node_def node_at_def)
qed

definition cow_range :: "nat \<Rightarrow> nat \<Rightarrow> cow_state \<Rightarrow> cow_state" where
  "cow_range i j s = fold cow_at [i..<j] s"

lemma cow_range_simps [simp]:
  "cow_range i i s = s"
  "i \<le> j \<Longrightarrow> cow_range i (Suc j) s = cow_at j (cow_range i j s)"
  by (simp_all add: cow_range_def)

lemma cow_range_first: "i < j \<Longrightarrow> cow_range i j s = cow_range (Suc i) j (cow_at i s)"
  by (simp add: cow_range_def upt_conv_Cons)

definition blank :: "BufferNode \<Rightarrow> bool" where
  "blank n \<longleftrightarrow> node_start n = 0 \<and> node_end n = 0"

lemma read_blank:
  assumes "it \<le> e" "e \<le> length (m_nodes (fst s))" "0 < n"
    and "\<And>j. it \<le> j \<Longrightarrow> j < e \<Longrightarrow> blank (node_at j (cow_range (Suc it) (Suc j) s))"
  shows "cow_read_loop it e n s = Some ([], n, cow_range (Suc it) (Suc e) s)"
  using assms
proof (induction "e - it" arbitrary: it s)
  case 0
  then show ?case by (subst cow_read_loop.simps) simp
next
  case (Suc k)
  let ?s = "cow_at (Suc it) s"
  have it: "it < e" "it < length (m_nodes (fst s))" using Suc by auto
  have "blank (node_at it s)" using Suc.prems(4) [of it] it by simp
  then have node: "node_start (node_at it s) = 0" "node_end (node_at it s) = 0"
    "(node_at it s)\<lparr>node_start := 0\<rparr> = node_at it s"
    by (simp_all add: blank_def)
  have "cow_read_loop it e n s = map_option (\<lambda>(out', rest). ([] @ out', rest)) (cow_read_loop (Suc it) e n ?s)"
    using it Suc.prems(3)
    by (subst cow_read_loop.simps)
       (simp add: node memcpy_out_def BufferNodeSize_def set_node_id [OF it(2)] split_beta)
  moreover have "cow_read_loop (Suc it) e n ?s = Some ([], n, cow_range (Suc (Suc it)) (Suc e) ?s)"
  proof (rule Suc.hyps)
    show "blank (node_at j (cow_range (Suc (Suc it)) (Suc j) ?s))" if "Suc it \<le> j" "j < e" for j
      using Suc.prems(4) [of j] that cow_range_first [of "Suc it" "Suc j" s] by simp
  qed (use Suc it in auto)
  ultimately show ?case using it cow_range_first [of "Suc it" "Suc e" s] by simp
qed

text \<open>
  An array all of whose nodes have two owners, after the iterator went over the positions
  from \<open>r\<close> to \<open>j\<close>: it has copies there, and the other owner has the originals alone.
\<close>

definition twice :: "CowByteArray \<Rightarrow> BufferNode store \<Rightarrow> bool" where
  "twice c st \<longleftrightarrow> \<not> m_nodes_null c \<and> distinct (m_nodes c)
     \<and> (\<forall>a \<in> set (m_nodes c). a < length st \<and> use_count (st ! a) = 2)"

definition split_off :: "nat \<Rightarrow> nat \<Rightarrow> CowByteArray \<Rightarrow> BufferNode store \<Rightarrow> cow_state \<Rightarrow> bool" where
  "split_off r j c st s \<longleftrightarrow> (let l = m_nodes c; d = fst s; st' = snd s in
     d = c\<lparr>m_nodes := m_nodes d\<rparr> \<and> length (m_nodes d) = length l \<and> length st \<le> length st'
   \<and> (\<forall>a < length st. elem (st' ! a) = elem (st ! a))
   \<and> (\<forall>i < length l. if r \<le> i \<and> i < j
        then use_count (st' ! (l ! i)) = 1 \<and> elem (st' ! (m_nodes d ! i)) = copyBufferNode (elem (st ! (l ! i)))
          \<and> m_nodes d ! i < length st'
        else use_count (st' ! (l ! i)) = 2 \<and> m_nodes d ! i = l ! i))"

lemma split_offD:
  assumes "split_off r j c st s"
  shows "fst s = c\<lparr>m_nodes := m_nodes (fst s)\<rparr>" "length (m_nodes (fst s)) = length (m_nodes c)"
    "length st \<le> length (snd s)" "a < length st \<Longrightarrow> elem (snd s ! a) = elem (st ! a)"
    "i < length (m_nodes c) \<Longrightarrow> r \<le> i \<Longrightarrow> i < j \<Longrightarrow> use_count (snd s ! (m_nodes c ! i)) = 1"
    "i < length (m_nodes c) \<Longrightarrow> r \<le> i \<Longrightarrow> i < j \<Longrightarrow> m_nodes (fst s) ! i < length (snd s)"
    "i < length (m_nodes c) \<Longrightarrow> r \<le> i \<Longrightarrow> i < j \<Longrightarrow>
       node_at i s = copyBufferNode (node_at i (c, st))"
    "i < length (m_nodes c) \<Longrightarrow> \<not> (r \<le> i \<and> i < j) \<Longrightarrow> use_count (snd s ! (m_nodes c ! i)) = 2"
    "i < length (m_nodes c) \<Longrightarrow> \<not> (r \<le> i \<and> i < j) \<Longrightarrow> m_nodes (fst s) ! i = m_nodes c ! i"
  using assms unfolding split_off_def Let_def node_at_def by (auto simp del: not_le)

lemma cow_at_split_off:
  assumes "twice c st" "split_off r j c st s" "r \<le> j"
  shows "split_off r (Suc j) c st (cow_at j s)"
proof (cases "j < length (m_nodes c)")
  case False
  then have "cow_at j s = s"
    using split_offD(2) [OF assms(2)] by (cases s) (simp add: cow_at_def cowThisNode_def)
  with False assms(2) show ?thesis by (auto simp: split_off_def Let_def)
next
  case True
  obtain d st' where s: "s = (d, st')" by fastforce
  let ?l = "m_nodes c"
  note S = split_offD [OF assms(2), unfolded s fst_conv snd_conv]
  have old: "?l ! i < length st" if "i < length ?l" for i
    using that assms(1) by (simp add: twice_def)
  have inj: "?l ! i = ?l ! j \<longleftrightarrow> i = j" if "i < length ?l" for i
    using that True assms(1) by (simp add: twice_def nth_eq_iff_index_eq)
  let ?n = "copyBufferNode (elem (st' ! (?l ! j)))"
  have at: "cow_at j s = (d\<lparr>m_nodes := (m_nodes d)[j := length st']\<rparr>,
      release (?l ! j) (st' @ [\<lparr>use_count = 1, elem = ?n\<rparr>]))"
    using True S(2) S(8) [of j] S(9) [of j]
    by (simp add: s cow_at_def cowThisNode_def make_shared_def)
  have lt: "?l ! i < length st'" if "i < length ?l" for i
    using old [OF that] S(3) by simp
  have cnt: "use_count (release (?l ! j) (st' @ [\<lparr>use_count = 1, elem = ?n\<rparr>]) ! (?l ! i))
      = (if i = j then use_count (st' ! (?l ! i)) - 1 else use_count (st' ! (?l ! i)))"
    if "i < length ?l" for i
    using lt [OF that] inj [OF that] by (auto simp: count_release nth_append)
  have el: "elem (release (?l ! j) (st' @ [\<lparr>use_count = 1, elem = ?n\<rparr>]) ! a) = elem (st' ! a)"
    if "a < length st'" for a
    using that by (simp add: nth_append)
  have i_case: "if r \<le> i \<and> i < Suc j
     then use_count (snd (cow_at j s) ! (?l ! i)) = 1
       \<and> elem (snd (cow_at j s) ! (m_nodes (fst (cow_at j s)) ! i)) = copyBufferNode (elem (st ! (?l ! i)))
       \<and> m_nodes (fst (cow_at j s)) ! i < length (snd (cow_at j s))
     else use_count (snd (cow_at j s) ! (?l ! i)) = 2 \<and> m_nodes (fst (cow_at j s)) ! i = ?l ! i"
    if i: "i < length ?l" for i
  proof (cases "i = j")
    case True
    with i S(2) S(8) [of j] S(4) [OF old [OF i]] cnt [OF i] assms(3) show ?thesis
      by (simp add: at nth_append)
  next
    case False
    then have "r \<le> i \<and> i < Suc j \<longleftrightarrow> r \<le> i \<and> i < j" by auto
    with False i S(5,6,8,9) [of i] S(7) [of i] cnt [OF i] el show ?thesis
      by (simp add: at node_at_def less_SucI)
  qed
  have "fst (cow_at j s) = c\<lparr>m_nodes := m_nodes (fst (cow_at j s))\<rparr>"
    using S(1) by (cases c; cases d) (simp add: at)
  moreover have "length (m_nodes (fst (cow_at j s))) = length ?l" "length st \<le> length (snd (cow_at j s))"
    using S(2,3) by (simp_all add: at)
  moreover have "elem (snd (cow_at j s) ! a) = elem (st ! a)" if "a < length st" for a
    using that S(3,4) el [of a] unfolding at snd_conv by simp
  ultimately show ?thesis
    unfolding split_off_def Let_def using i_case by blast
qed

lemma cow_range_split_off:
  assumes "twice c st" "r \<le> j"
  shows "split_off r j c st (cow_range r j (c, st))"
  using assms(2)
proof (induction j rule: dec_induct)
  case base
  show ?case using assms(1) by (auto simp: split_off_def twice_def Let_def)
next
  case (step j)
  then show ?case using cow_at_split_off [OF assms(1) step.IH] by simp
qed

lemma read_of_shared:
  assumes "twice c st" "ba_inv (view (c, st))" "0 < n" "n \<le> m_availableSizeToRead c"
  obtains e where "endOfReadNode (view (c, st)) = Some e" "m_writeNode c \<le> e"
    "cow_retrieveRaw n (c, st) = Some ([], cow_range (m_readNode c) (Suc e) (c, st))"
proof -
  let ?r = "m_readNode c"
  have shape: "ba_shape (view (c, st))" using assms(2) by (simp add: ba_inv_def)
  have rw: "?r \<le> m_writeNode c" "m_writeNode c < length (m_nodes c)"
    using ba_shapeD(1,2) [OF shape] by simp_all
  obtain e where e: "endOfReadNode (view (c, st)) = Some e"
    "e = m_writeNode c + 1 \<or> e = m_writeNode c"
    using endOfReadNode_shape [OF shape] by auto
  have re: "?r \<le> e" "e \<le> length (m_nodes c)" using e(2) rw by auto
  let ?s = "cow_range ?r (Suc e) (c, st)"
  have first: "cow_range (Suc ?r) (Suc j) (cow_at ?r (c, st)) = cow_range ?r (Suc j) (c, st)" if "?r \<le> j" for j
    using cow_range_first [of ?r "Suc j" "(c, st)"] that by simp
  have "cow_read_loop ?r e n (cow_at ?r (c, st)) = Some ([], n, cow_range (Suc ?r) (Suc e) (cow_at ?r (c, st)))"
  proof (rule read_blank [OF re(1) _ assms(3)])
    show "blank (node_at j (cow_range (Suc ?r) (Suc j) (cow_at ?r (c, st))))" if "?r \<le> j" "j < e" for j
    proof -
      have "node_at j (cow_range ?r (Suc j) (c, st)) = copyBufferNode (node_at j (c, st))"
        using that re(2) by (intro split_offD(7) [OF cow_range_split_off [OF assms(1)]]) auto
      then show ?thesis by (simp add: first [OF that(1)] blank_def)
    qed
  qed (use re in simp)
  then have loop: "cow_read_loop ?r e n (cow_at ?r (c, st)) = Some ([], n, ?s)"
    using first [OF re(1)] by simp
  have "m_availableSizeToRead (fst ?s) = m_availableSizeToRead c"
    using split_offD(1) [OF cow_range_split_off [OF assms(1), of ?r "Suc e"]] re(1)
    by (metis ByteArray.select_convs(1) ByteArray.surjective ByteArray.update_convs(5) le_SucI)
  then have "cow_retrieveRaw n (c, st) = Some ([], ?s)"
    using assms(1,4) e(1) loop
    by (cases ?s) (simp add: cow_retrieveRaw_def cow_endOfReadNode_view twice_def)
  with that e rw show thesis by auto
qed

text \<open>What a first reader leaves to the second, and what it has itself afterwards.\<close>

lemma split_off_rest:
  assumes "twice c st" "split_off r j c st s"
  shows "view (c, snd s) = view (c, st)" "sole {r..<j} (c, snd s)"
proof -
  note S = split_offD [OF assms(2)]
  have l: "\<not> m_nodes_null c" "distinct (m_nodes c)" "\<And>a. a \<in> set (m_nodes c) \<Longrightarrow> a < length st"
    using assms(1) by (auto simp: twice_def)
  show "view (c, snd s) = view (c, st)"
    using l(3) S(4) by (simp add: view_def link_elems_def)
  show "sole {r..<j} (c, snd s)"
    using l S(3,5) by (fastforce simp: sole_def)
qed

lemma split_off_empty:
  assumes "ba_shape (view (c, st))" "split_off (m_readNode c) (Suc e) c st s" "m_writeNode c \<le> e" "twice c st"
  shows "contents (view s) = []"
proof -
  note S = split_offD [OF assms(2)]
  let ?r = "m_readNode c"
  have cur: "m_readNode (fst s) = ?r"
    by (subst S(1)) simp
  have "node_data (m_nodes (view s) ! i) = []" if i: "?r \<le> i" "i < length (m_nodes (view s))" for i
  proof -
    have len: "i < length (m_nodes c)" using i(2) S(2) by simp
    have at: "m_nodes (view s) ! i = node_at i s" using i(2) by (simp add: node_at_view)
    show ?thesis
    proof (cases "i < Suc e")
      case True
      with S(7) [OF len i(1)] show ?thesis by (simp add: at)
    next
      case False
      then have "node_at i s = node_at i (c, st)"
        using S(9) [OF len] S(4) assms(4) len by (simp add: node_at_def twice_def)
      moreover have "node_end (m_nodes (view (c, st)) ! i) = 0"
        using False assms(3) len by (intro ba_shapeD(7) [OF assms(1)]) simp_all
      ultimately show ?thesis
        using len by (simp add: at node_at_view node_data_def)
    qed
  qed
  then have "concat (map node_data (drop ?r (m_nodes (view s)))) = []"
    by (rule contents_no_data)
  then show ?thesis by (simp add: contents_def cur)
qed

text \<open>A copied array and its copy are the same record on nodes that are each used twice.\<close>

lemma copied_twice:
  assumes "sole UNIV (c, st)" "copyByteArray c st = Some (c', st')"
  shows "c' = c" "view (c, st') = view (c, st)" "twice c st'"
proof -
  note D = soleD [OF assms(1), unfolded fst_conv snd_conv]
  have copy: "c' = c" "st' = fold retain (m_nodes c) st"
    using assms(2) copyByteArray_eq [OF D(1), of st] by auto
  then show "c' = c" "view (c, st') = view (c, st)" by (simp_all add: view_def link_elems_def)
  have "use_count (st' ! a) = 2" if "a \<in> set (m_nodes c)" for a
  proof -
    have "use_count (st ! a) = 1" using that D(5) by (auto simp: in_set_conv_nth)
    moreover have "count_list (m_nodes c) a = 1"
      using D(2) that by (simp add: count_list_eq_length_filter distinct_length_filter Int_absorb2)
    ultimately show ?thesis using D(3) [OF that] by (simp add: copy count_fold_retain)
  qed
  then show "twice c st'" using D(1,2,3) by (simp add: twice_def copy)
qed

text \<open>C3. Copying a byte array shares its nodes, and a node that is copied on access loses its
  offsets. Whichever of the two arrays is read first gets no bytes although it counts
  all of them as readable, and holds nothing from then on; the other one then reads the
  bytes as if no copy had been made.\<close>

theorem first_reader_of_copy_loses:
  assumes "holds st c (Some q)" "0 < n" "n \<le> length q"
    and "copyByteArray c st = Some (c', st')" "x = c \<and> y = c' \<or> x = c' \<and> y = c"
  shows "\<exists>x1 st1 s2. cow_retrieveRaw n (x, st') = Some ([], x1, st1)
     \<and> m_availableSizeToRead x1 = length q \<and> contents (view (x1, st1)) = []
     \<and> cow_retrieveRaw n (y, st1) = Some (take n q, s2) \<and> contents (view s2) = drop n q"
proof -
  have h: "sole UNIV (c, st)" "ba_inv (view (c, st))" "contents (view (c, st)) = q"
    using assms(1) by (simp_all add: holds_def)
  note copied = copied_twice [OF h(1) assms(4)]
  have copy: "x = c" "y = c" and view: "view (c, st') = view (c, st)" and two: "twice c st'"
    using assms(5) copied by auto
  have avail: "m_availableSizeToRead c = length q" using h(2,3) by (simp add: ba_inv_def)
  have inv: "ba_inv (view (c, st'))" and shape: "ba_shape (view (c, st'))"
    using h(2) view by (simp_all add: ba_inv_def)
  obtain e where e: "endOfReadNode (view (c, st')) = Some e" "m_writeNode c \<le> e"
    "cow_retrieveRaw n (c, st') = Some ([], cow_range (m_readNode c) (Suc e) (c, st'))"
    using read_of_shared [OF two inv assms(2)] assms(3) avail by auto
  obtain x1 st1 where s1: "cow_range (m_readNode c) (Suc e) (c, st') = (x1, st1)" by fastforce
  have rw: "m_readNode c \<le> m_writeNode c" using ba_shapeD(1) [OF shape] by simp
  have off: "split_off (m_readNode c) (Suc e) c st' (x1, st1)"
    using cow_range_split_off [OF two, of "m_readNode c" "Suc e"] e(2) rw s1 by simp
  note rest = split_off_rest [OF two off, unfolded snd_conv]
  have "m_availableSizeToRead x1 = length q"
    using split_offD(1) [OF off] avail by (cases x1; cases c) simp
  moreover have "contents (view (x1, st1)) = []"
    by (rule split_off_empty [OF shape off e(2) two])
  moreover have "\<exists>s2. cow_retrieveRaw n (c, st1) = Some (take n q, s2) \<and> contents (view s2) = drop n q"
  proof -
    obtain b where b: "retrieveRaw n (view (c, st1)) = Some (take n q, b)" "contents b = drop n q"
      using retrieveRaw_enough [OF h(2), of n] assms(3) h(3) rest(1) view by auto
    have "sims {m_readNode c..<Suc e} (c, st1) (cow_retrieveRaw n (c, st1)) (retrieveRaw n (view (c, st1)))"
      by (rule cow_retrieveRaw_sim [OF rest(2)]) (use e(1) rest(1) rw in auto)
    from sims_SomeD [OF this [unfolded b(1)]] b(2) show ?thesis by auto
  qed
  ultimately show ?thesis using e(3) s1 by (auto simp: copy)
qed

theorem first_reader_of_copy_loses_witness:
  "\<exists>c st c' st' x1 st1 s2. copyByteArray c st = Some (c', st')
     \<and> cow_retrieveRaw 1 (c', st') = Some ([], x1, st1) \<and> m_availableSizeToRead x1 = 1
     \<and> cow_retrieveRaw 1 (c, st1) = Some ([7], s2)"
proof -
  obtain c0 st0 where "newCowByteArray [] = (c0, st0)" by fastforce
  then obtain c st where h: "holds st c (Some [7])"
    using write_holds [of st0 c0 "[]" "[7]"] new_holds by force
  then have "\<not> m_nodes_null c" by (simp add: holds_def sole_def)
  then obtain st' where copy: "copyByteArray c st = Some (c, st')" using copyByteArray_eq by blast
  from first_reader_of_copy_loses [OF h _ _ copy, of 1 c c] copy show ?thesis by fastforce
qed

text \<open>
  A write into a copied array starts over at the beginning of its write node: when all
  the bytes are in that node, they are gone, and still counted.
\<close>

lemma node_at_cow_at:
  assumes "sole {} s" "i < length (m_nodes (fst s))"
  shows "node_at i (cow_at j s) = (if i = j \<and> use_count (snd s ! (m_nodes (fst s) ! j)) \<noteq> 1
     then copyBufferNode (node_at i s) else node_at i s)"
  using assms soleD(4) [OF assms]
  by (cases s) (auto simp: cow_at_def cowThisNode_def make_shared_def node_at_def nth_append nth_list_update)

lemma sole_cow_at:
  assumes "sole {} s"
  shows "sole {} (cow_at j s)"
proof -
  have "length (snd s) \<notin> set (m_nodes (fst s))" using assms by (auto simp: sole_def)
  with assms show ?thesis
    by (cases s) (auto simp: sole_def cow_at_def cowThisNode_def make_shared_def distinct_list_update
        less_SucI dest!: set_update_subset_insert [THEN subsetD])
qed

lemma cow_at_fields [simp]:
  "m_availableSizeToRead (fst (cow_at j s)) = m_availableSizeToRead (fst s)"
  "m_availableSizeToWrite (fst (cow_at j s)) = m_availableSizeToWrite (fst s)"
  "m_readNode (fst (cow_at j s)) = m_readNode (fst s)"
  "m_writeNode (fst (cow_at j s)) = m_writeNode (fst s)"
  "m_nodes_null (fst (cow_at j s)) = m_nodes_null (fst s)"
  by (simp_all add: cow_at_def split_beta)

lemma write_after_copy_overwrites:
  assumes "twice c st" "ba_inv (view (c, st))" "m_readNode c = m_writeNode c"
    and "d \<noteq> []" "length d < BufferNodeSize" "length d < m_availableSizeToWrite c"
  shows "\<exists>s. cow_writeRaw d (c, st) = Some s \<and> contents (view s) = d
     \<and> m_availableSizeToRead (fst s) = m_availableSizeToRead c + length d"
proof -
  let ?w = "m_writeNode c" and ?s0 = "cow_at (m_writeNode c) (c, st)"
  have shape: "ba_shape (view (c, st))" using assms(2) by (simp add: ba_inv_def)
  note D = ba_shapeD [OF shape, unfolded view_fields fst_conv]
  have w: "?w < length (m_nodes c)" using D(2) .
  have sole: "sole {} (c, st)" using assms(1) by (auto simp: twice_def sole_def)
  have sole0: "sole {} ?s0" by (rule sole_cow_at [OF sole])
  let ?n = "copyBufferNode (node_at ?w (c, st))"
  have n: "node_at ?w ?s0 = ?n"
    using node_at_cow_at [OF sole, of ?w ?w] w assms(1) by (simp add: twice_def)
  have "node_ok (node_at ?w (c, st))" using D(4) [OF w] w by (simp add: node_at_view)
  then have ok: "node_ok ?n" by (simp add: node_ok_def)
  have fit: "node_end ?n + length d \<le> BufferNodeSize" using assms(5) by simp
  let ?s1 = "set_node ?w (node_append ?n d) ?s0" and ?n' = "node_append ?n d"
  have buf: "\<exists>buf. memcpy_in (node_buffer ?n) 0 d = Some buf
      \<and> ?n\<lparr>node_buffer := buf, node_end := length d\<rparr> = ?n'"
    using node_in [OF ok fit] by (auto simp: map_option_case split: option.splits)
  have loop: "cow_write_loop ?w d ?s0 = Some ([], cow_at (?w + 1) ?s1)"
  proof -
    obtain buf where b: "memcpy_in (node_buffer ?n) 0 d = Some buf"
      "?n\<lparr>node_buffer := buf, node_end := length d\<rparr> = ?n'" using buf by blast
    have "cow_write_loop (Suc ?w) [] s = Some ([], s)" for s
      by (subst cow_write_loop.simps) simp
    then show ?thesis
      using assms(4,5) w b by (subst cow_write_loop.simps) (simp add: n Let_def split_beta)
  qed
  let ?s2 = "cow_at (?w + 1) ?s1"
  have sole1: "sole {} ?s1" by (rule sole_set_node [OF sole0])
  have data: "node_data (m_nodes (view ?s2) ! i) = (if i = ?w then d else [])"
    if i: "?w \<le> i" "i < length (m_nodes c)" for i
  proof -
    have l1: "i < length (m_nodes (fst ?s1))" using i by simp
    have "node_at i ?s1 = (if i = ?w then ?n' else node_at i (c, st))"
      using node_at_view [OF l1] view_set_node [OF sole0, of ?w ?n'] i w
        node_at_view [of i ?s0] node_at_cow_at [OF sole, of i ?w] by (cases "i = ?w") simp_all
    moreover have "i \<noteq> ?w \<Longrightarrow> node_end (node_at i (c, st)) = 0"
      using D(7) [of i] i by (simp add: node_at_view)
    moreover have "node_at i ?s2 = node_at i ?s1 \<or> i \<noteq> ?w \<and> node_data (node_at i ?s2) = []"
      using node_at_cow_at [OF sole1 l1, of "?w + 1"] by (auto split: if_splits)
    moreover have "node_data ?n' = d" using node_data_append [OF ok fit] by simp
    ultimately show ?thesis
      using i by (auto simp: node_at_view [symmetric] node_data_empty)
  qed
  have cont: "contents (view ?s2) = d"
  proof -
    have "drop ?w (m_nodes (view ?s2)) = m_nodes (view ?s2) ! ?w # drop (Suc ?w) (m_nodes (view ?s2))"
      using w by (simp add: Cons_nth_drop_Suc)
    moreover have "concat (map node_data (drop (Suc ?w) (m_nodes (view ?s2)))) = []"
      by (rule contents_no_data) (use data in simp)
    ultimately show ?thesis using data [of ?w] w assms(3) by (simp add: contents_def set_node_def)
  qed
  obtain a b where s2: "?s2 = (a, b)" by fastforce
  have "m_availableSizeToRead (fst ?s2) = m_availableSizeToRead c" by (simp add: set_node_def)
  then have "m_availableSizeToRead a = m_availableSizeToRead c" unfolding s2 by simp
  then show ?thesis
    using assms(1,6) loop [unfolded s2] cont [unfolded s2] by (simp add: cow_writeRaw_def twice_def)
qed

text \<open>A moved-from array still counts its bytes, but every use of its nodes is undefined.\<close>

lemma moved_from_undefined:
  assumes "moveByteArray c = (c', old)"
  shows "c' = c" "cow_writeRaw d (old, st) = None" "copyByteArray old st = None"
    "n \<le> m_availableSizeToRead c \<Longrightarrow> cow_retrieveRaw n (old, st) = None"
  using assms
  by (auto simp: moveByteArray_eq cow_writeRaw_def cow_allocIfNotEnough_def cow_moveBufferHead_def
      copyByteArray_def cow_retrieveRaw_def bind_eq_None_conv Let_def split: if_splits option.splits)

end
