(* ===== verification/UriCodec.thy ===== *)
theory UriCodec
  imports Prelude
begin

text \<open>
  Character classes and percent encoding (\<^verbatim>\<open>src/uri/Uri.cpp\<close>, namespace
  \<^verbatim>\<open>details\<close> and class \<^verbatim>\<open>UriCodec\<close>). A character is a byte; the
  C library's \<^verbatim>\<open>isalnum\<close>, \<^verbatim>\<open>isalpha\<close> and \<^verbatim>\<open>isdigit\<close>
  are those of the C locale, false above 127. An exception carries which of the two
  messages it has, or the offending URI.
\<close>

datatype uri_exception = TwoDigitsExpected | InvalidHexDigit | InvalidUri string

definition code :: "char \<Rightarrow> nat" where
  "code c = of_char c"

definition isdigit :: "char \<Rightarrow> bool" where
  "isdigit c \<longleftrightarrow> 48 \<le> code c \<and> code c \<le> 57"

definition isalpha :: "char \<Rightarrow> bool" where
  "isalpha c \<longleftrightarrow> 65 \<le> code c \<and> code c \<le> 90 \<or> 97 \<le> code c \<and> code c \<le> 122"

definition isalnum :: "char \<Rightarrow> bool" where
  "isalnum c \<longleftrightarrow> isalpha c \<or> isdigit c"

definition is_unreserved :: "char \<Rightarrow> bool" where
  "is_unreserved c \<longleftrightarrow> isalnum c \<or> c \<in> set ''-._~''"

definition is_gen_delim :: "char \<Rightarrow> bool" where
  "is_gen_delim c \<longleftrightarrow> c \<in> set '':/?#[]@''"

definition is_sub_delim :: "char \<Rightarrow> bool" where
  "is_sub_delim c \<longleftrightarrow> c \<in> set ''!$&()*+,;='' \<or> c = CHR 0x27"

definition is_reserved :: "char \<Rightarrow> bool" where
  "is_reserved c \<longleftrightarrow> is_gen_delim c \<or> is_sub_delim c"

definition is_scheme_character :: "char \<Rightarrow> bool" where
  "is_scheme_character c \<longleftrightarrow> isalnum c \<or> c \<in> set ''+-.''"

definition is_user_info_character :: "char \<Rightarrow> bool" where
  "is_user_info_character c \<longleftrightarrow> is_unreserved c \<or> is_sub_delim c \<or> c \<in> set ''%:''"

definition is_authority_character :: "char \<Rightarrow> bool" where
  "is_authority_character c \<longleftrightarrow> is_unreserved c \<or> is_sub_delim c \<or> c \<in> set ''%@:[]''"

definition is_path_character :: "char \<Rightarrow> bool" where
  "is_path_character c \<longleftrightarrow> is_unreserved c \<or> is_sub_delim c \<or> c \<in> set ''%/:@''"

definition is_query_character :: "char \<Rightarrow> bool" where
  "is_query_character c \<longleftrightarrow> is_path_character c \<or> c = CHR ''?''"

definition is_fragment_character :: "char \<Rightarrow> bool" where
  "is_fragment_character c \<longleftrightarrow> is_query_character c"

lemmas char_classes = is_unreserved_def is_gen_delim_def is_sub_delim_def is_reserved_def
  is_scheme_character_def is_user_info_character_def is_authority_character_def
  is_path_character_def is_query_character_def is_fragment_character_def
  isalnum_def isalpha_def isdigit_def code_def

subsection \<open>Encoding and decoding\<close>

definition hex_digit :: "nat \<Rightarrow> char" where
  "hex_digit n = ''0123456789ABCDEF'' ! n"

definition encode_char :: "(char \<Rightarrow> bool) \<Rightarrow> char \<Rightarrow> string" where
  "encode_char should_encode c =
     (if should_encode c then [CHR ''%'', hex_digit (code c div 16), hex_digit (code c mod 16)] else [c])"

definition encode_impl :: "string \<Rightarrow> (char \<Rightarrow> bool) \<Rightarrow> string" where
  "encode_impl raw should_encode = concat (map (encode_char should_encode) raw)"

definition hex_char_digit_to_decimal_char :: "char \<Rightarrow> nat option" where
  "hex_char_digit_to_decimal_char c =
     (if 48 \<le> code c \<and> code c \<le> 57 then Some (code c - 48)
      else if 65 \<le> code c \<and> code c \<le> 70 then Some (10 + (code c - 65))
      else if 97 \<le> code c \<and> code c \<le> 102 then Some (10 + (code c - 97))
      else None)"

fun decode :: "string \<Rightarrow> uri_exception + string" where
  "decode [] = Inr []"
| "decode (c # cs) =
     (if c = CHR ''%'' then
        (case cs of
           [] \<Rightarrow> Inl TwoDigitsExpected
         | h # cs' \<Rightarrow>
             (case hex_char_digit_to_decimal_char h of
                None \<Rightarrow> Inl InvalidHexDigit
              | Some a \<Rightarrow>
                  (case cs' of
                     [] \<Rightarrow> Inl TwoDigitsExpected
                   | l # rest \<Rightarrow>
                       (case hex_char_digit_to_decimal_char l of
                          None \<Rightarrow> Inl InvalidHexDigit
                        | Some b \<Rightarrow> map_sum id ((#) (char_of (a * 16 + b))) (decode rest)))))
      else map_sum id ((#) c) (decode cs))"

datatype UriComponent = C_userInfo | C_host | C_path | C_query | C_fragment | C_fullUri

fun should_encode :: "UriComponent \<Rightarrow> char \<Rightarrow> bool" where
  "should_encode C_userInfo c = (\<not> is_user_info_character c \<or> c = CHR ''%'' \<or> c = CHR ''+'')"
| "should_encode C_host c = (127 < code c)"
| "should_encode C_path c = (\<not> is_path_character c \<or> c = CHR ''%'' \<or> c = CHR ''+'')"
| "should_encode C_query c = (\<not> is_query_character c \<or> c = CHR ''%'' \<or> c = CHR ''+'')"
| "should_encode C_fragment c = (\<not> is_fragment_character c \<or> c = CHR ''%'' \<or> c = CHR ''+'')"
| "should_encode C_fullUri c = (\<not> is_unreserved c \<and> \<not> is_reserved c)"

definition encode :: "string \<Rightarrow> UriComponent \<Rightarrow> string" where
  "encode raw component = encode_impl raw (should_encode component)"

definition query_value_encode :: "char \<Rightarrow> bool" where
  "query_value_encode c \<longleftrightarrow> c \<in> set ''&;=%+'' \<or> \<not> is_query_character c"

subsection \<open>Round trips\<close>

lemma code_less: "code c < 256"
  by (simp add: code_def)

lemma char_of_code [simp]: "char_of (code c) = c"
  by (simp add: code_def)

lemma hex_digits: "list_all (\<lambda>n. hex_char_digit_to_decimal_char (hex_digit n) = Some n
    \<and> isalnum (hex_digit n)) [0..<16]"
  by code_simp

lemma hex_digit_cases:
  assumes "n < 16"
  shows "hex_char_digit_to_decimal_char (hex_digit n) = Some n"
    and "isalnum (hex_digit n)"
  using hex_digits assms by (auto simp: list_all_iff)

lemma encode_Cons: "encode_impl (c # cs) p = encode_char p c @ encode_impl cs p"
  by (simp add: encode_impl_def)

lemma encode_Nil [simp]: "encode_impl [] p = []"
  by (simp add: encode_impl_def)

lemma encode_append: "encode_impl (xs @ ys) p = encode_impl xs p @ encode_impl ys p"
  by (simp add: encode_impl_def)

lemma decode_hex: "decode (CHR ''%'' # hex_digit (code c div 16) # hex_digit (code c mod 16) # s)
    = map_sum id ((#) c) (decode s)"
proof -
  have "code c div 16 < 16" "code c mod 16 < 16" using code_less [of c] by (simp_all add: div_less_iff_less_mult)
  then show ?thesis by (simp add: hex_digit_cases)
qed

text \<open>
  A component's encoder decodes back when it encodes the percent sign; the result is
  made of legal characters when every character it leaves alone is.
\<close>

locale percent_codec =
  fixes enc :: "char \<Rightarrow> bool" and legal :: "char \<Rightarrow> bool"
  assumes percent_encoded: "enc (CHR ''%'')"
    and unchanged_legal: "\<not> enc c \<Longrightarrow> legal c"
    and escapes_legal: "c = CHR ''%'' \<or> isalnum c \<Longrightarrow> legal c"
begin

lemma decode_encode_char: "decode (encode_char enc c @ s) = map_sum id ((#) c) (decode s)"
  using percent_encoded by (cases "enc c") (auto simp: encode_char_def decode_hex simp del: decode.simps(2), auto)

lemma decode_encode: "decode (encode_impl raw enc) = Inr raw"
  by (induction raw) (simp_all add: encode_Cons decode_encode_char)

lemma encode_legal: "list_all legal (encode_impl raw enc)"
proof (induction raw)
  case (Cons c cs)
  have "code c div 16 < 16" "code c mod 16 < 16" using code_less [of c] by (simp_all add: div_less_iff_less_mult)
  with Cons show ?case
    by (auto simp: encode_Cons encode_char_def escapes_legal hex_digit_cases unchanged_legal)
qed simp

lemma encode_injective: "encode_impl a enc = encode_impl b enc \<Longrightarrow> a = b"
  by (metis decode_encode sum.inject(2))

end

definition full_uri_character :: "char \<Rightarrow> bool" where
  "full_uri_character c \<longleftrightarrow> is_unreserved c \<or> is_reserved c \<or> c = CHR ''%''"

lemma should_encode_percent:
  "\<not> is_unreserved (CHR ''%'')" "\<not> is_reserved (CHR ''%'')" "query_value_encode (CHR ''%'')"
  by (simp_all add: query_value_encode_def char_classes)

lemma alnum_unreserved: "isalnum c \<Longrightarrow> is_unreserved c"
  by (simp add: is_unreserved_def)

lemmas path_class = is_path_character_def is_query_character_def is_fragment_character_def

interpretation user_info_codec: percent_codec "should_encode C_userInfo" is_user_info_character
  by unfold_locales (auto simp: is_user_info_character_def alnum_unreserved)

interpretation path_codec: percent_codec "should_encode C_path" is_path_character
  by unfold_locales (auto simp: path_class alnum_unreserved)

interpretation query_codec: percent_codec "should_encode C_query" is_query_character
  by unfold_locales (auto simp: path_class alnum_unreserved)

interpretation fragment_codec: percent_codec "should_encode C_fragment" is_fragment_character
  by unfold_locales (auto simp: path_class alnum_unreserved)

interpretation full_uri_codec: percent_codec "should_encode C_fullUri" full_uri_character
  by unfold_locales (auto simp: full_uri_character_def alnum_unreserved should_encode_percent)

interpretation query_value_codec: percent_codec query_value_encode is_query_character
  by unfold_locales (auto simp: should_encode_percent, auto simp: query_value_encode_def path_class alnum_unreserved)

text \<open>C30. For every component but the host, decoding an encoded string gives the string
  back.\<close>

theorem decode_encode_roundtrip:
  "component \<noteq> C_host \<Longrightarrow> decode (encode raw component) = Inr raw"
  by (cases component)
     (auto simp: encode_def user_info_codec.decode_encode path_codec.decode_encode
       query_codec.decode_encode fragment_codec.decode_encode full_uri_codec.decode_encode)

lemma decode_encode_roundtrip_witness: "decode (encode ''a b%'' C_path) = Inr ''a b%''"
  by (rule decode_encode_roundtrip) simp

text \<open>The host encoder leaves the percent sign alone, so it is not inverted by decoding:
  a host that already looks escaped comes back changed, and one with a lone percent sign
  cannot be decoded.\<close>

lemma host_encode_not_inverted:
  "decode (encode ''%41'' C_host) = Inr ''A'' \<and> decode (encode ''100%'' C_host) = Inl TwoDigitsExpected"
  by code_simp

text \<open>Encoded components consist of the characters that the parser accepts there.\<close>

lemma encode_emits_legal:
  "list_all is_user_info_character (encode raw C_userInfo)
 \<and> list_all is_path_character (encode raw C_path)
 \<and> list_all is_query_character (encode raw C_query)
 \<and> list_all is_fragment_character (encode raw C_fragment)"
  by (simp only: encode_def user_info_codec.encode_legal path_codec.encode_legal
      query_codec.encode_legal fragment_codec.encode_legal)

text \<open>Decoding fails exactly on a percent sign that two hexadecimal digits do not follow.\<close>

fun escapes_ok :: "string \<Rightarrow> bool" where
  "escapes_ok [] = True"
| "escapes_ok (c # cs) =
     (if c = CHR ''%'' then
        (case cs of
           h # l # rest \<Rightarrow> hex_char_digit_to_decimal_char h \<noteq> None
             \<and> hex_char_digit_to_decimal_char l \<noteq> None \<and> escapes_ok rest
         | _ \<Rightarrow> False)
      else escapes_ok cs)"

lemma decode_total_iff: "(\<exists>raw. decode s = Inr raw) \<longleftrightarrow> escapes_ok s"
proof (induction s rule: escapes_ok.induct)
  case (2 c cs)
  show ?case
  proof (cases "c = CHR ''%''")
    case False
    with 2 show ?thesis by (cases "decode cs") auto
  next
    case True
    show ?thesis
    proof (cases cs)
      case Nil
      with True show ?thesis by simp
    next
      case (Cons h cs')
      with True 2(1) show ?thesis
        by (cases cs'; cases "decode (tl cs')") (force split: option.splits)+
    qed
  qed
qed simp

lemma decode_no_percent: "CHR ''%'' \<notin> set s \<Longrightarrow> decode s = Inr s"
  by (induction s) auto

end
