(* ===== verification/UriParse.thy ===== *)
theory UriParse
  imports UriCodec
begin

text \<open>
  The URI parser (\<^verbatim>\<open>src/uri/Uri.cpp\<close>, \<^verbatim>\<open>inner_parse_out\<close>). The
  pointer into the zero-terminated buffer is the list of the characters from there to
  the terminator; a pair of pointers is the string between them, and a pair of null
  pointers is \<^term>\<open>None\<close>. Each phase of \<^verbatim>\<open>parse_from\<close> is one definition:
  it returns what it has found and the rest, and \<^term>\<open>None\<close> for
  \<^verbatim>\<open>return false\<close>.
\<close>

record inner_parse_out =
  out_scheme :: "string option"
  out_uinfo :: "string option"
  out_host :: "string option"
  out_port :: int
  out_path :: "string option"
  out_query :: "string option"
  out_fragment :: "string option"

definition cstr :: "string \<Rightarrow> string" where
  "cstr s = takeWhile (\<lambda>c. c \<noteq> CHR 0x00) s"

text \<open>The scan that looks for a colon before the first slash.\<close>

fun finds_colon :: "string \<Rightarrow> bool" where
  "finds_colon [] = False"
| "finds_colon (c # cs) = (if c = CHR ''/'' then False else if c = CHR '':'' then True else finds_colon cs)"

definition parse_scheme :: "string \<Rightarrow> (string option \<times> string) option" where
  "parse_scheme p =
     (if finds_colon p then
        if isalpha (hd p) then
          (let s = takeWhile (\<lambda>c. c \<noteq> CHR '':'') p in
           if list_all is_scheme_character (tl s) then Some (Some s, drop (length s + 1) p) else None)
        else None
      else Some (None, p))"

text \<open>The backward scan over the digits of a port, and \<^verbatim>\<open>std::from_chars\<close> into an
  \<^verbatim>\<open>int\<close> that keeps its 0 when there is no digit or the number is too large.\<close>

fun port_scan :: "string \<Rightarrow> nat \<Rightarrow> nat" where
  "port_scan a i = (if isdigit (a ! i) \<and> i \<noteq> 0 then port_scan a (i - 1) else i)"

declare port_scan.simps [simp del]

definition number :: "string \<Rightarrow> int" where
  "number ds = foldl (\<lambda>v c. 10 * v + (int (code c) - 48)) 0 ds"

definition from_chars :: "string \<Rightarrow> int" where
  "from_chars ds = (if ds = [] \<or> 2 ^ 31 - 1 < number ds then 0 else number ds)"

definition split_authority :: "string \<Rightarrow> string option \<times> string \<times> int" where
  "split_authority a =
     (let i = port_scan a (length a - 1);
          (host, port) = (if a ! i = CHR '':'' then (take i a, from_chars (drop (i + 1) a)) else (a, 0));
          uinfo = takeWhile is_user_info_character host;
          rest = dropWhile is_user_info_character host
      in case rest of
           [] \<Rightarrow> (None, host, port)
         | c # host' \<Rightarrow> if c = CHR ''@'' then (Some uinfo, host', port) else (None, host, port))"

definition authority_end :: "char \<Rightarrow> bool" where
  "authority_end c \<longleftrightarrow> c = CHR ''/'' \<or> c = CHR ''?'' \<or> c = CHR ''#''"

definition parse_authority :: "string \<Rightarrow> ((string option \<times> string option \<times> int) \<times> string) option" where
  "parse_authority p =
     (if take 2 p = ''//'' then
        (let q = drop 2 p; a = takeWhile (\<lambda>c. \<not> authority_end c) q; rest = drop (length a) q in
         if list_all is_authority_character a then
           Some (if a = [] then (None, None, 0)
                 else case split_authority a of (u, h, port) \<Rightarrow> (u, Some h, port), rest)
         else None)
      else Some ((None, None, 0), p))"

definition parse_path :: "string \<Rightarrow> (string option \<times> string) option" where
  "parse_path p =
     (case p of
        [] \<Rightarrow> Some (None, p)
      | c # _ \<Rightarrow>
          if c = CHR ''/'' \<or> is_path_character c then
            (let s = takeWhile (\<lambda>c. c \<noteq> CHR ''?'' \<and> c \<noteq> CHR ''#'') p in
             if list_all is_path_character s then Some (Some s, drop (length s) p) else None)
          else Some (None, p))"

definition parse_query :: "string \<Rightarrow> (string option \<times> string) option" where
  "parse_query p =
     (case p of
        [] \<Rightarrow> Some (None, p)
      | c # q \<Rightarrow>
          if c = CHR ''?'' then
            (let s = takeWhile (\<lambda>c. c \<noteq> CHR ''#'') q in
             if list_all is_query_character s then Some (Some s, drop (length s) q) else None)
          else Some (None, p))"

definition parse_fragment :: "string \<Rightarrow> (string option) option" where
  "parse_fragment p =
     (case p of
        [] \<Rightarrow> Some None
      | c # q \<Rightarrow>
          if c = CHR ''#'' then (if list_all is_fragment_character q then Some (Some q) else None)
          else Some None)"

definition parse_from :: "string \<Rightarrow> inner_parse_out option" where
  "parse_from encoded = do {
     (scheme, p) \<leftarrow> parse_scheme (cstr encoded);
     ((uinfo, host, port), p) \<leftarrow> parse_authority p;
     (path, p) \<leftarrow> parse_path p;
     (query, p) \<leftarrow> parse_query p;
     fragment \<leftarrow> parse_fragment p;
     Some \<lparr>out_scheme = scheme, out_uinfo = uinfo, out_host = host, out_port = port,
           out_path = path, out_query = query, out_fragment = fragment\<rparr>
   }"

definition empty_out :: inner_parse_out where
  "empty_out = \<lparr>out_scheme = None, out_uinfo = None, out_host = None, out_port = 0,
     out_path = None, out_query = None, out_fragment = None\<rparr>"

subsection \<open>What the parser accepts\<close>

definition opt_all :: "(char \<Rightarrow> bool) \<Rightarrow> string option \<Rightarrow> bool" where
  "opt_all P x = (case x of None \<Rightarrow> True | Some s \<Rightarrow> list_all P s)"

lemma opt_all_simps [simp]: "opt_all P None" "opt_all P (Some s) = list_all P s"
  by (simp_all add: opt_all_def)

definition out_ok :: "inner_parse_out \<Rightarrow> bool" where
  "out_ok r \<longleftrightarrow> opt_all is_scheme_character (out_scheme r) \<and> opt_all is_user_info_character (out_uinfo r)
     \<and> opt_all is_authority_character (out_host r) \<and> 0 \<le> out_port r \<and> out_port r < 2 ^ 31
     \<and> opt_all is_path_character (out_path r) \<and> opt_all is_query_character (out_query r)
     \<and> opt_all is_fragment_character (out_fragment r) \<and> (out_uinfo r \<noteq> None \<longrightarrow> out_host r \<noteq> None)"

lemma isalpha_scheme: "isalpha c \<Longrightarrow> is_scheme_character c"
  by (simp add: is_scheme_character_def isalnum_def)

lemma finds_colon_iff: "finds_colon p \<longleftrightarrow> (\<exists>s t. p = s @ CHR '':'' # t \<and> CHR ''/'' \<notin> set s)"
proof
  show "finds_colon p \<Longrightarrow> \<exists>s t. p = s @ CHR '':'' # t \<and> CHR ''/'' \<notin> set s"
  proof (induction p)
    case (Cons c p)
    then show ?case
    proof (cases "c = CHR '':''")
      case False
      with Cons obtain s t where "p = s @ CHR '':'' # t" "CHR ''/'' \<notin> set s" "c \<noteq> CHR ''/''"
        by (auto split: if_splits)
      then show ?thesis by (intro exI [of _ "c # s"] exI [of _ t]) simp
    qed (metis append_Nil emptyE empty_set)
  qed simp
  show "\<exists>s t. p = s @ CHR '':'' # t \<and> CHR ''/'' \<notin> set s \<Longrightarrow> finds_colon p"
  proof (induction p)
    case (Cons c p)
    then obtain s t where st: "c # p = s @ CHR '':'' # t" "CHR ''/'' \<notin> set s" by blast
    with Cons.IH show ?case by (cases s) auto
  qed simp
qed

lemma parse_scheme_ok:
  assumes "parse_scheme p = Some (s, rest)"
  shows "opt_all is_scheme_character s"
proof (cases "finds_colon p")
  case True
  define t where "t = takeWhile (\<lambda>c. c \<noteq> CHR '':'') p"
  from True assms have t: "isalpha (hd p)" "list_all is_scheme_character (tl t)" "s = Some t"
    by (auto simp: parse_scheme_def Let_def t_def split: if_splits)
  have "t = [] \<or> hd t = hd p" by (cases p) (simp_all add: t_def)
  with t isalpha_scheme show ?thesis by (cases t) auto
qed (use assms in \<open>auto simp: parse_scheme_def\<close>)

lemma number_bounds: "list_all isdigit ds \<Longrightarrow> 0 \<le> v \<Longrightarrow>
    0 \<le> foldl (\<lambda>v c. 10 * v + (int (code c) - 48)) v ds"
  by (induction ds arbitrary: v) (auto simp: isdigit_def)

lemma port_scan_le: "port_scan a i \<le> i"
  by (induction a i rule: port_scan.induct) (subst port_scan.simps, auto)

lemma port_scan_digits: "port_scan a i < j \<Longrightarrow> j \<le> i \<Longrightarrow> isdigit (a ! j)"
proof (induction a i rule: port_scan.induct)
  case (1 a i)
  show ?case
  proof (cases "isdigit (a ! i) \<and> i \<noteq> 0")
    case True
    then have "port_scan a i = port_scan a (i - 1)" by (subst port_scan.simps) simp
    with 1 True show ?thesis by (cases "j = i") auto
  next
    case False
    then have "port_scan a i = i" by (subst port_scan.simps) auto
    with 1 show ?thesis by simp
  qed
qed

lemma port_digits: "list_all isdigit (drop (Suc (port_scan a (length a - 1))) a)"
proof -
  have "isdigit (a ! (Suc (port_scan a (length a - 1)) + k))"
    if "Suc (port_scan a (length a - 1)) + k < length a" for k
    using that by (intro port_scan_digits [of a "length a - 1"]) auto
  then show ?thesis by (simp add: list_all_length)
qed

lemma from_chars_bounds: "list_all isdigit ds \<Longrightarrow> 0 \<le> from_chars ds \<and> from_chars ds < 2 ^ 31"
  using number_bounds [of ds 0] by (auto simp: from_chars_def number_def)

lemma list_all_drop: "list_all P xs \<Longrightarrow> list_all P (drop n xs)"
  by (auto simp: list_all_iff dest: in_set_dropD)

lemma list_all_take: "list_all P xs \<Longrightarrow> list_all P (take n xs)"
  by (auto simp: list_all_iff dest: in_set_takeD)

lemma list_all_takeWhile: "list_all P (takeWhile P xs)"
  by (auto simp: list_all_iff dest: set_takeWhileD)

lemma split_authority_ok:
  assumes "list_all is_authority_character a" "split_authority a = (u, h, port)"
  shows "opt_all is_user_info_character u \<and> list_all is_authority_character h \<and> 0 \<le> port \<and> port < 2 ^ 31"
proof -
  let ?i = "port_scan a (length a - 1)"
  let ?h = "if a ! ?i = CHR '':'' then take ?i a else a"
  have port: "port = 0 \<or> port = from_chars (drop (?i + 1) a)"
    and u: "u = None \<or> u = Some (takeWhile is_user_info_character ?h)"
    and h: "h = ?h \<or> CHR ''@'' # h = dropWhile is_user_info_character ?h"
    using assms(2) by (auto simp: split_authority_def Let_def split: if_splits list.splits)
  have a: "list_all is_authority_character ?h" using assms(1) by (simp add: list_all_take)
  have "list_all is_authority_character h"
  proof (cases "h = ?h")
    case False
    with h have "set h \<subseteq> set ?h" by (metis set_dropWhileD set_subset_Cons subsetD subsetI)
    with a show ?thesis by (auto simp: list_all_iff)
  qed (use a in simp)
  with port u from_chars_bounds [OF port_digits [of a]] show ?thesis
    by (auto simp: list_all_takeWhile)
qed

lemma parse_authority_ok:
  assumes "parse_authority p = Some ((u, h, port), rest)"
  shows "opt_all is_user_info_character u \<and> opt_all is_authority_character h \<and> 0 \<le> port \<and> port < 2 ^ 31
     \<and> (u \<noteq> None \<longrightarrow> h \<noteq> None)"
proof -
  let ?a = "takeWhile (\<lambda>c. \<not> authority_end c) (drop 2 p)"
  show ?thesis
  proof (cases "take 2 p = ''//'' \<and> ?a \<noteq> []")
    case False
    with assms show ?thesis by (auto simp: parse_authority_def Let_def split: if_splits)
  next
    case True
    obtain u' h' port' where sp: "split_authority ?a = (u', h', port')" by (metis prod_cases3)
    with True assms have "list_all is_authority_character ?a" "u = u'" "h = Some h'" "port = port'"
      by (auto simp: parse_authority_def Let_def split: if_splits)
    with split_authority_ok [OF _ sp] show ?thesis by simp
  qed
qed

lemma parse_path_ok: "parse_path p = Some (s, rest) \<Longrightarrow> opt_all is_path_character s"
  by (auto simp: parse_path_def Let_def split: list.splits if_splits)

lemma parse_query_ok: "parse_query p = Some (s, rest) \<Longrightarrow> opt_all is_query_character s"
  by (auto simp: parse_query_def Let_def split: list.splits if_splits)

lemma parse_fragment_ok: "parse_fragment p = Some s \<Longrightarrow> opt_all is_fragment_character s"
  by (auto simp: parse_fragment_def split: list.splits if_splits)

text \<open>C32. Whatever the parser accepts has only characters that its component allows, a
  port that is a non-negative \<^verbatim>\<open>int\<close>, and user information only with a host.\<close>

theorem parse_from_sound:
  assumes "parse_from encoded = Some r"
  shows "out_ok r"
proof -
  obtain s p1 u h port p2 pa p3 q p4 f where
    *: "parse_scheme (cstr encoded) = Some (s, p1)" "parse_authority p1 = Some ((u, h, port), p2)"
       "parse_path p2 = Some (pa, p3)" "parse_query p3 = Some (q, p4)" "parse_fragment p4 = Some f"
    "r = \<lparr>out_scheme = s, out_uinfo = u, out_host = h, out_port = port, out_path = pa, out_query = q,
        out_fragment = f\<rparr>"
    using assms by (auto simp: parse_from_def split: bind_splits)
  show ?thesis
    using parse_scheme_ok [OF *(1)] parse_authority_ok [OF *(2)] parse_path_ok [OF *(3)]
      parse_query_ok [OF *(4)] parse_fragment_ok [OF *(5)] *(6)
    by (simp add: out_ok_def)
qed

lemma parse_from_sound_witness: "\<exists>r. parse_from ''http://a:80/b'' = Some r \<and> out_ok r"
proof -
  have "parse_from ''http://a:80/b'' = Some \<lparr>out_scheme = Some ''http'', out_uinfo = None,
     out_host = Some ''a'', out_port = 80, out_path = Some ''/b'', out_query = None, out_fragment = None\<rparr>"
    by code_simp
  with parse_from_sound [OF this] show ?thesis by blast
qed

text \<open>The parser accepts every string whose first character no component allows, provided
  no colon comes before its first slash, and finds nothing in it: the whole text is
  ignored, illegal characters included.\<close>

lemma parse_ignores_illegal_text:
  assumes "\<not> is_path_character c" "c \<noteq> CHR ''?''" "c \<noteq> CHR ''#''" "c \<noteq> CHR 0x00" "\<not> finds_colon (cstr (c # cs))"
  shows "parse_from (c # cs) = Some empty_out"
proof -
  have c: "c \<noteq> CHR ''/''" using assms(1) by (auto simp: is_path_character_def)
  have "cstr (c # cs) = c # cstr cs" using assms(4) by (simp add: cstr_def)
  with assms c show ?thesis
    by (simp add: parse_from_def parse_scheme_def parse_authority_def parse_path_def parse_query_def
        parse_fragment_def empty_out_def numeral_2_eq_2)
qed

lemma parse_ignores_illegal_text_witness: "parse_from ''<no uri>'' = Some empty_out"
  by (rule parse_ignores_illegal_text) (simp_all add: char_classes cstr_def)

subsection \<open>The parser on printed components\<close>

lemma cstr_id: "CHR 0x00 \<notin> set s \<Longrightarrow> cstr s = s"
  by (induction s) (auto simp: cstr_def)

lemma class_not_special:
  "is_scheme_character c \<Longrightarrow> c \<noteq> CHR '':'' \<and> c \<noteq> CHR ''/'' \<and> c \<noteq> CHR 0x00"
  "is_authority_character c \<Longrightarrow> \<not> authority_end c \<and> c \<noteq> CHR 0x00"
  "is_path_character c \<Longrightarrow> c \<noteq> CHR ''?'' \<and> c \<noteq> CHR ''#'' \<and> c \<noteq> CHR 0x00"
  "is_query_character c \<Longrightarrow> c \<noteq> CHR ''#'' \<and> c \<noteq> CHR 0x00"
  "is_user_info_character c \<Longrightarrow> c \<noteq> CHR ''@'' \<and> is_authority_character c"
  by (auto simp: char_classes authority_end_def)

lemma takeWhile_stop: "list_all P xs \<Longrightarrow> ys = [] \<or> \<not> P (hd ys) \<Longrightarrow> takeWhile P (xs @ ys) = xs"
  by (induction xs) (cases ys; simp)+

lemma dropWhile_stop: "list_all P xs \<Longrightarrow> ys = [] \<or> \<not> P (hd ys) \<Longrightarrow> dropWhile P (xs @ ys) = ys"
  by (induction xs) (cases ys; simp)+

lemma list_all_mono: "list_all P xs \<Longrightarrow> (\<And>x. P x \<Longrightarrow> Q x) \<Longrightarrow> list_all Q xs"
  by (auto simp: list_all_iff)

lemma parse_scheme_print:
  assumes "s \<noteq> []" "isalpha (hd s)" "list_all is_scheme_character s"
  shows "parse_scheme (s @ CHR '':'' # p) = Some (Some s, p)"
proof -
  have "list_all (\<lambda>c. c \<noteq> CHR '':'') s" using assms(3) class_not_special(1) by (blast intro: list_all_mono)
  then have tw: "takeWhile (\<lambda>c. c \<noteq> CHR '':'') (s @ CHR '':'' # p) = s"
    by (intro takeWhile_stop) simp_all
  have "CHR ''/'' \<notin> set s" using assms(3) class_not_special(1) by (auto simp: list_all_iff)
  then have "finds_colon (s @ CHR '':'' # p)" by (auto simp: finds_colon_iff)
  moreover have "hd (s @ CHR '':'' # p) = hd s" "list_all is_scheme_character (tl s)"
    using assms by (cases s; simp)+
  ultimately show ?thesis
    using assms(2) by (simp add: parse_scheme_def tw Let_def)
qed

lemma parse_authority_print:
  assumes "list_all is_authority_character a" "a \<noteq> []" "rest = [] \<or> authority_end (hd rest)"
    "split_authority a = (u, h, port)"
  shows "parse_authority (''//'' @ a @ rest) = Some ((u, Some h, port), rest)"
proof -
  have "list_all (\<lambda>c. \<not> authority_end c) a" using assms(1) class_not_special(2) by (blast intro: list_all_mono)
  then have "takeWhile (\<lambda>c. \<not> authority_end c) (a @ rest) = a"
    by (intro takeWhile_stop) (use assms(3) in auto)
  with assms show ?thesis by (simp add: parse_authority_def Let_def)
qed

lemma parse_path_print:
  assumes "list_all is_path_character s" "s \<noteq> []" "rest = [] \<or> hd rest \<in> set ''?#''"
  shows "parse_path (s @ rest) = Some (Some s, rest)"
proof -
  have "list_all (\<lambda>c. c \<noteq> CHR ''?'' \<and> c \<noteq> CHR ''#'') s"
    using assms(1) class_not_special(3) by (blast intro: list_all_mono)
  then have "takeWhile (\<lambda>c. c \<noteq> CHR ''?'' \<and> c \<noteq> CHR ''#'') (s @ rest) = s"
    by (intro takeWhile_stop) (use assms(3) in auto)
  moreover obtain c cs where "s = c # cs" using assms(2) by (cases s) auto
  ultimately show ?thesis using assms(1) by (auto simp: parse_path_def Let_def)
qed

lemma parse_query_print:
  assumes "list_all is_query_character s" "rest = [] \<or> hd rest = CHR ''#''"
  shows "parse_query (CHR ''?'' # s @ rest) = Some (Some s, rest)"
proof -
  have "list_all (\<lambda>c. c \<noteq> CHR ''#'') s"
    using assms(1) class_not_special(4) by (blast intro: list_all_mono)
  then have "takeWhile (\<lambda>c. c \<noteq> CHR ''#'') (s @ rest) = s"
    by (intro takeWhile_stop) (use assms(2) in auto)
  with assms(1) show ?thesis by (simp add: parse_query_def Let_def)
qed

end
