(* ===== verification/Uri.thy ===== *)
theory Uri
  imports UriParse
begin

text \<open>
  \<^verbatim>\<open>Uri\<close> (\<^verbatim>\<open>include/uri/Uri.h\<close>, \<^verbatim>\<open>src/uri/Uri.cpp\<close>):
  construction from a string, the setters, printing, splitting, comparison and
  reference resolution. A \<^verbatim>\<open>UriException\<close> is the left side of a sum.
  \<^verbatim>\<open>toString\<close> changes the object: it returns the string and the new object.
\<close>

record Uri =
  m_scheme :: string
  m_host :: string
  m_user_info :: string
  m_path :: string
  m_query :: string
  m_fragment :: string
  m_port :: int

definition to_lower_ch_impl :: "char \<Rightarrow> char" where
  "to_lower_ch_impl c = (if 65 \<le> code c \<and> code c \<le> 90 then char_of (code c - 65 + 97) else c)"

definition inplace_tolower :: "string \<Rightarrow> string" where
  "inplace_tolower s = map to_lower_ch_impl s"

definition opt_string :: "string option \<Rightarrow> string" where
  "opt_string x = (case x of None \<Rightarrow> [] | Some s \<Rightarrow> s)"

definition newUri :: "string \<Rightarrow> uri_exception + Uri" where
  "newUri uri =
     (case parse_from uri of
        None \<Rightarrow> Inl (InvalidUri (cstr uri))
      | Some out \<Rightarrow> Inr \<lparr>m_scheme = inplace_tolower (opt_string (out_scheme out)),
          m_host = inplace_tolower (opt_string (out_host out)),
          m_user_info = opt_string (out_uinfo out),
          m_path = (case out_path out of None \<Rightarrow> ''/'' | Some p \<Rightarrow> p),
          m_query = opt_string (out_query out),
          m_fragment = opt_string (out_fragment out),
          m_port = out_port out\<rparr>)"

definition defaultUri :: Uri where
  "defaultUri = \<lparr>m_scheme = [], m_host = [], m_user_info = [], m_path = ''/'', m_query = [],
     m_fragment = [], m_port = 0\<rparr>"

lemma newUri_default: "newUri ''/'' = Inr defaultUri"
  by code_simp

subsection \<open>Setters\<close>

definition setScheme :: "string \<Rightarrow> Uri \<Rightarrow> Uri" where
  "setScheme scheme u = u\<lparr>m_scheme := scheme\<rparr>"

definition setHost :: "string \<Rightarrow> bool \<Rightarrow> Uri \<Rightarrow> Uri" where
  "setHost host shouldEncode u = u\<lparr>m_host := (if shouldEncode then encode host C_host else host)\<rparr>"

definition setUserInfo :: "string \<Rightarrow> bool \<Rightarrow> Uri \<Rightarrow> Uri" where
  "setUserInfo userInfo shouldEncode u =
     u\<lparr>m_user_info := (if shouldEncode then encode userInfo C_userInfo else userInfo)\<rparr>"

definition setPort :: "int \<Rightarrow> Uri \<Rightarrow> Uri" where
  "setPort port u = u\<lparr>m_port := port\<rparr>"

definition setPath :: "string \<Rightarrow> bool \<Rightarrow> Uri \<Rightarrow> Uri" where
  "setPath path shouldEncode u =
     (let prepend = (if path = [] \<or> hd path \<noteq> CHR ''/'' then ''/'' else []) in
      u\<lparr>m_path := prepend @ (if shouldEncode then encode path C_path else path)\<rparr>)"

definition appendPath :: "string \<Rightarrow> bool \<Rightarrow> Uri \<Rightarrow> Uri" where
  "appendPath path shouldEncode u =
     (if path \<noteq> [] \<and> path \<noteq> ''/'' then
        let this = m_path u;
            this = (if this = [] \<or> this = ''/'' then (if hd path \<noteq> CHR ''/'' then ''/'' else [])
                    else if last this = CHR ''/'' \<and> hd path = CHR ''/'' then butlast this
                    else if last this \<noteq> CHR ''/'' \<and> hd path \<noteq> CHR ''/'' then this @ ''/''
                    else this)
        in u\<lparr>m_path := this @ (if shouldEncode then encode path C_path else path)\<rparr>
      else u)"

definition setQuery :: "string \<Rightarrow> bool \<Rightarrow> Uri \<Rightarrow> Uri" where
  "setQuery query shouldEncode u = u\<lparr>m_query := (if shouldEncode then encode query C_query else query)\<rparr>"

definition appendQuery :: "string \<Rightarrow> bool \<Rightarrow> Uri \<Rightarrow> Uri" where
  "appendQuery query shouldEncode u =
     (if query \<noteq> [] then
        let this = m_query u;
            this = (if this = [] then []
                    else if last this = CHR ''&'' \<and> hd query = CHR ''&'' then butlast this
                    else if last this \<noteq> CHR ''&'' \<and> hd query \<noteq> CHR ''&'' then this @ ''&''
                    else this)
        in u\<lparr>m_query := this @ (if shouldEncode then encode query C_query else query)\<rparr>
      else u)"

definition append_query_encode_impl :: "string \<Rightarrow> string \<Rightarrow> bool \<Rightarrow> Uri \<Rightarrow> Uri" where
  "append_query_encode_impl name val shouldEncode u =
     (if shouldEncode
      then appendQuery (encode_impl name query_value_encode @ ''='' @ encode_impl val query_value_encode) False u
      else appendQuery (name @ ''='' @ val) False u)"

text \<open>\<^verbatim>\<open>setFragment\<close> encodes with the rules of a query.\<close>

definition setFragment :: "string \<Rightarrow> bool \<Rightarrow> Uri \<Rightarrow> Uri" where
  "setFragment fragment shouldEncode u =
     u\<lparr>m_fragment := (if shouldEncode then encode fragment C_query else fragment)\<rparr>"

subsection \<open>Printing and splitting\<close>

definition canonical :: "Uri \<Rightarrow> Uri" where
  "canonical u =
     (let u = u\<lparr>m_scheme := inplace_tolower (m_scheme u), m_host := inplace_tolower (m_host u)\<rparr> in
      if m_host u \<noteq> [] \<and> m_path u = [] then u\<lparr>m_path := ''/''\<rparr>
      else if m_host u \<noteq> [] \<and> hd (m_path u) \<noteq> CHR ''/'' then u\<lparr>m_path := CHR ''/'' # m_path u\<rparr>
      else u)"

definition print_authority :: "Uri \<Rightarrow> string" where
  "print_authority u = (if m_user_info u \<noteq> [] then m_user_info u @ ''@'' else []) @ m_host u
     @ (if 0 < m_port u then CHR '':'' # nat_digits (nat (m_port u)) else [])"

definition print_tail :: "Uri \<Rightarrow> string" where
  "print_tail u = (if m_query u \<noteq> [] then CHR ''?'' # m_query u else [])
     @ (if m_fragment u \<noteq> [] then CHR ''#'' # m_fragment u else [])"

definition print_path :: "Uri \<Rightarrow> string" where
  "print_path u =
     (if m_path u \<noteq> []
      then (if m_host u \<noteq> [] \<and> hd (m_path u) \<noteq> CHR ''/'' then ''/'' else []) @ m_path u else [])"

definition toString :: "Uri \<Rightarrow> string \<times> Uri" where
  "toString u =
     (let u = canonical u in
      ((if m_scheme u \<noteq> [] then m_scheme u @ '':'' else [])
       @ (if m_host u \<noteq> [] then ''//'' @ print_authority u else [])
       @ print_path u @ print_tail u, u))"

lemma tl_dropWhile_less: "q \<noteq> [] \<Longrightarrow> length (tl (dropWhile P q)) < length q"
  using length_dropWhile_le [of P q] by (cases "length q") auto

function getlines :: "string \<Rightarrow> string list" where
  "getlines s =
     (if s = [] then []
      else takeWhile (\<lambda>c. c \<noteq> CHR ''/'') s # getlines (tl (dropWhile (\<lambda>c. c \<noteq> CHR ''/'') s)))"
  by pat_completeness auto
termination
  by (relation "measure length")
     (use tl_dropWhile_less in simp_all)

declare getlines.simps [simp del]

definition splitPath :: "Uri \<Rightarrow> string list" where
  "splitPath u = filter (\<lambda>s. s \<noteq> []) (getlines (m_path u))"

text \<open>One round of the loop of \<^verbatim>\<open>splitQuery\<close>: the separator is the first ampersand of
  the rest, or the first semicolon when the rest has no ampersand.\<close>

definition next_separator :: "string \<Rightarrow> char option" where
  "next_separator q = (if CHR ''&'' \<in> set q then Some (CHR ''&'')
     else if CHR '';'' \<in> set q then Some (CHR '';'') else None)"

definition add_pair :: "string \<Rightarrow> (string \<rightharpoonup> string) \<Rightarrow> (string \<rightharpoonup> string)" where
  "add_pair kv m =
     (if CHR ''='' \<in> set kv
      then m(takeWhile (\<lambda>c. c \<noteq> CHR ''='') kv \<mapsto> tl (dropWhile (\<lambda>c. c \<noteq> CHR ''='') kv)) else m)"

function split_query_loop :: "string \<Rightarrow> (string \<rightharpoonup> string) \<Rightarrow> (string \<rightharpoonup> string)" where
  "split_query_loop q m =
     (case next_separator q of
        None \<Rightarrow> add_pair q m
      | Some sep \<Rightarrow> split_query_loop (tl (dropWhile (\<lambda>c. c \<noteq> sep) q)) (add_pair (takeWhile (\<lambda>c. c \<noteq> sep) q) m))"
  by pat_completeness auto
termination
proof (relation "measure (\<lambda>(q, m). length q)", goal_cases)
  case (2 q m sep)
  then have "q \<noteq> []" by (auto simp: next_separator_def)
  then have "length (tl (dropWhile (\<lambda>c. c \<noteq> sep) q)) < length q"
    by (rule tl_dropWhile_less)
  then show ?case by simp
qed simp

declare split_query_loop.simps [simp del]

definition splitQuery :: "Uri \<Rightarrow> (string \<rightharpoonup> string)" where
  "splitQuery u = split_query_loop (m_query u) Map.empty"

subsection \<open>Comparison and resolution\<close>

definition authority :: "Uri \<Rightarrow> Uri" where
  "authority u = defaultUri\<lparr>m_scheme := m_scheme u, m_host := m_host u, m_user_info := m_user_info u,
     m_port := m_port u, m_path := ''/''\<rparr>"

definition validate_string :: "string \<Rightarrow> bool" where
  "validate_string s = (parse_from s \<noteq> None)"

definition validate :: "Uri \<Rightarrow> bool \<times> Uri" where
  "validate u = (case toString u of (s, u') \<Rightarrow> (validate_string s, u'))"

definition isEmpty :: "Uri \<Rightarrow> bool" where
  "isEmpty u = (m_host u = [] \<or> m_host u = ''/'')"

text \<open>\<^verbatim>\<open>decode a != decode b || rest\<close>: either side may throw.\<close>

definition differ_or :: "string \<Rightarrow> string \<Rightarrow> uri_exception + bool \<Rightarrow> uri_exception + bool" where
  "differ_or a b rest =
     (case decode a of Inl e \<Rightarrow> Inl e | Inr x \<Rightarrow>
        (case decode b of Inl e \<Rightarrow> Inl e | Inr y \<Rightarrow> if x \<noteq> y then Inr True else rest))"

definition uri_equal :: "Uri \<Rightarrow> Uri \<Rightarrow> uri_exception + bool" where
  "uri_equal u v =
     (if isEmpty u \<and> isEmpty v then Inr True
      else if isEmpty u \<or> isEmpty v \<or> m_scheme u \<noteq> m_scheme v then Inr False
      else map_sum id Not
        (differ_or (m_user_info u) (m_user_info v)
          (differ_or (m_host u) (m_host v)
            (if m_port u \<noteq> m_port v then Inr True
             else differ_or (m_path u) (m_path v)
               (differ_or (m_query u) (m_query v)
                 (differ_or (m_fragment u) (m_fragment v) (Inr False)))))))"

definition upto_last_slash :: "string \<Rightarrow> string" where
  "upto_last_slash s = rev (dropWhile (\<lambda>c. c \<noteq> CHR ''/'') (rev s))"

definition mergePaths :: "string \<Rightarrow> string \<Rightarrow> string" where
  "mergePaths base relative =
     (if CHR ''/'' \<notin> set base then base @ ''/'' @ relative
      else if last base = CHR ''/'' then base @ relative
      else upto_last_slash base @ relative)"

fun dot_stack :: "string list \<Rightarrow> string list \<Rightarrow> string list" where
  "dot_stack [] result = result"
| "dot_stack (segment # segments) result =
     (if segment = ''.'' then dot_stack segments result
      else if segment \<noteq> ''..'' then dot_stack segments (result @ [segment])
      else if result \<noteq> [] then dot_stack segments (butlast result)
      else dot_stack segments result)"

fun join_path :: "string list \<Rightarrow> string" where
  "join_path [] = []"
| "join_path [s] = s"
| "join_path (s # t # ss) = s @ ''/'' @ join_path (t # ss)"

definition removeDotSegments :: "Uri \<Rightarrow> Uri" where
  "removeDotSegments u =
     (if CHR ''.'' \<notin> set (m_path u) then u
      else let segments = splitPath u; result = dot_stack segments [] in
        if result = [] then setPath [] True u
        else let path = join_path result;
                 path = (if last segments = ''..'' \<or> last segments = ''.'' \<or> last (m_path u) = CHR ''/''
                         then path @ ''/'' else path)
             in setPath path True u)"

definition resolveUri :: "Uri \<Rightarrow> string \<Rightarrow> uri_exception + Uri" where
  "resolveUri u relativeUri =
     (if relativeUri = [] then Inr u
      else if hd relativeUri = CHR ''/'' then
        if 2 \<le> length relativeUri \<and> relativeUri ! 1 = CHR ''/''
        then newUri (m_scheme u @ '':'' @ relativeUri)
        else (case newUri relativeUri of
           Inl e \<Rightarrow> Inl e
         | Inr relative \<Rightarrow> Inr (removeDotSegments (setFragment (m_fragment u @ m_fragment relative) True
             (appendQuery (m_query relative) True (appendPath (m_path relative) True (authority u))))))
      else (case newUri relativeUri of
         Inl e \<Rightarrow> Inl e
       | Inr url \<Rightarrow>
           if m_scheme url \<noteq> [] then Inr url
           else if \<not> isEmpty (authority url) then Inr (setScheme (m_scheme u) url)
           else if m_path url = ''/'' \<or> m_path url = [] then
             Inr (setFragment (m_fragment url) True
               (if m_query url \<noteq> [] then setQuery (m_query url) True u else u))
           else if m_path u \<noteq> [] then
             Inr (setFragment (m_fragment url) True (setQuery (m_query url) True
               (removeDotSegments (setPath (mergePaths (m_path u) (m_path url)) True u))))
           else Inr (setFragment (m_fragment url) True u)))"

subsection \<open>Printing and parsing back\<close>

lemma number_append: "number (ds @ [c]) = 10 * number ds + (int (code c) - 48)"
  by (simp add: number_def)

lemma code_char_of: "n < 256 \<Longrightarrow> code (char_of n) = n"
  by (simp add: code_def)

lemma isdigit_char: "n < 10 \<Longrightarrow> isdigit (char_of (48 + n)) \<and> code (char_of (48 + n)) = 48 + n"
  by (simp add: isdigit_def code_char_of)

lemma nat_digits_props: "list_all isdigit (nat_digits n) \<and> number (nat_digits n) = int n \<and> nat_digits n \<noteq> []"
proof (induction n rule: nat_digits.induct)
  case (1 n)
  show ?case
  proof (cases "n < 10")
    case True
    then show ?thesis
      by (subst (1 2 3) nat_digits.simps) (simp add: number_def isdigit_def code_char_of)
  next
    case False
    have "int n = 10 * int (n div 10) + int (n mod 10)" by presburger
    moreover have "n mod 10 < 10" by simp
    ultimately show ?thesis
      using False "1.IH" isdigit_char [of "n mod 10"]
      by (subst (1 2 3) nat_digits.simps) (simp add: number_append)
  qed
qed

lemma from_chars_digits: "n < 2 ^ 31 \<Longrightarrow> from_chars (nat_digits n) = int n"
  using nat_digits_props [of n] by (simp add: from_chars_def)

lemma port_scan_stop:
  assumes "list_all isdigit ds" "\<not> isdigit c"
  shows "port_scan (xs @ c # ds) (length xs + length ds) = length xs"
  using assms
proof (induction ds rule: rev_induct)
  case Nil
  then show ?case by (subst port_scan.simps) (simp add: nth_append)
next
  case (snoc d ds)
  have "port_scan (xs @ c # ds @ [d]) i = port_scan (xs @ c # ds) i" if "i \<le> length xs + length ds" for i
    using that
  proof (induction i)
    case 0
    then show ?case by (subst (1 2) port_scan.simps) simp
  next
    case (Suc i)
    have "((xs @ c # ds) @ [d]) ! Suc i = (xs @ c # ds) ! Suc i"
      using Suc.prems by (subst nth_append) simp
    then have "(xs @ c # ds @ [d]) ! Suc i = (xs @ c # ds) ! Suc i" by simp
    with Suc show ?case by (subst (1 2) port_scan.simps) simp
  qed
  from this [of "length xs + length ds"] snoc show ?case
    by (subst port_scan.simps) (simp add: nth_append)
qed

lemma port_scan_no_colon:
  assumes "CHR '':'' \<notin> set a" "a \<noteq> []"
  shows "a ! port_scan a (length a - 1) \<noteq> CHR '':''"
  using assms port_scan_le [of a "length a - 1"]
  by (metis One_nat_def Suc_pred le_imp_less_Suc length_greater_0_conv nth_mem)

text \<open>
  The URIs that printing represents exactly: lower-case scheme and host, a host without
  the two characters that separate the parts of an authority, an absolute path, and
  components made of their characters.
\<close>

definition printable :: "Uri \<Rightarrow> bool" where
  "printable u \<longleftrightarrow>
     m_scheme u \<noteq> [] \<and> isalpha (hd (m_scheme u)) \<and> list_all is_scheme_character (m_scheme u)
   \<and> inplace_tolower (m_scheme u) = m_scheme u
   \<and> m_host u \<noteq> [] \<and> inplace_tolower (m_host u) = m_host u
   \<and> list_all (\<lambda>c. is_authority_character c \<and> c \<noteq> CHR ''@'' \<and> c \<noteq> CHR '':'') (m_host u)
   \<and> list_all is_user_info_character (m_user_info u)
   \<and> 0 \<le> m_port u \<and> m_port u < 2 ^ 31
   \<and> m_path u \<noteq> [] \<and> hd (m_path u) = CHR ''/'' \<and> list_all is_path_character (m_path u)
   \<and> list_all is_query_character (m_query u) \<and> list_all is_fragment_character (m_fragment u)"

lemma split_user_host:
  assumes "list_all is_user_info_character ui" "CHR ''@'' \<notin> set h"
  shows "(case dropWhile is_user_info_character ((if ui \<noteq> [] then ui @ ''@'' else []) @ h) of
      [] \<Rightarrow> (None, (if ui \<noteq> [] then ui @ ''@'' else []) @ h, port)
    | c # host' \<Rightarrow> if c = CHR ''@'' then (Some (takeWhile is_user_info_character ((if ui \<noteq> [] then ui @ ''@'' else []) @ h)), host', port)
        else (None, (if ui \<noteq> [] then ui @ ''@'' else []) @ h, port))
   = (if ui \<noteq> [] then Some ui else None, h, port)"
proof (cases "ui = []")
  case True
  have "set (dropWhile is_user_info_character h) \<subseteq> set h" by (auto dest: set_dropWhileD)
  with True assms(2) show ?thesis by (auto split: list.splits)
next
  case False
  have "\<not> is_user_info_character (CHR ''@'')" by (simp add: char_classes)
  then have "takeWhile is_user_info_character (ui @ CHR ''@'' # h) = ui"
    "dropWhile is_user_info_character (ui @ CHR ''@'' # h) = CHR ''@'' # h"
    using assms(1) by (auto intro: takeWhile_stop dropWhile_stop)
  with False show ?thesis by simp
qed

lemma split_with_port:
  assumes "list_all isdigit ds"
  shows "split_authority (x @ CHR '':'' # ds)
       = (case dropWhile is_user_info_character x of
           [] \<Rightarrow> (None, x, from_chars ds)
         | c # host' \<Rightarrow> if c = CHR ''@'' then (Some (takeWhile is_user_info_character x), host', from_chars ds)
             else (None, x, from_chars ds))"
proof -
  have "\<not> isdigit (CHR '':'')" by (simp add: isdigit_def code_def)
  from port_scan_stop [OF assms this, of x]
  have "port_scan (x @ CHR '':'' # ds) (length (x @ CHR '':'' # ds) - 1) = length x" by simp
  then show ?thesis by (simp add: split_authority_def)
qed

lemma split_without_port:
  assumes "a ! port_scan a (length a - 1) \<noteq> CHR '':''"
  shows "split_authority a
       = (case dropWhile is_user_info_character a of
           [] \<Rightarrow> (None, a, 0)
         | c # host' \<Rightarrow> if c = CHR ''@'' then (Some (takeWhile is_user_info_character a), host', 0)
             else (None, a, 0))"
  using assms by (simp add: split_authority_def)

lemma no_port_found:
  assumes "CHR '':'' \<notin> set h" "h \<noteq> []"
  shows "(ui @ CHR ''@'' # h) ! port_scan (ui @ CHR ''@'' # h) (length (ui @ CHR ''@'' # h) - 1) \<noteq> CHR '':''"
proof -
  let ?a = "ui @ CHR ''@'' # h"
  let ?i = "port_scan ?a (length ?a - 1)"
  have "\<not> ?i < length ui"
  proof
    assume "?i < length ui"
    then have "isdigit (?a ! length ui)" by (intro port_scan_digits [of ?a "length ?a - 1"]) auto
    then show False by (simp add: isdigit_def code_def)
  qed
  moreover have "?i < length ?a"
    using port_scan_le [of ?a "length ?a - 1"] by simp
  ultimately have "?a ! ?i \<in> set (CHR ''@'' # h)"
    using nth_mem [of "?i - length ui" "CHR ''@'' # h"] by (simp add: nth_append)
  then show ?thesis using assms(1) by auto
qed

lemma split_printed_authority:
  assumes "printable u"
  shows "split_authority (print_authority u)
       = (if m_user_info u \<noteq> [] then Some (m_user_info u) else None, m_host u, m_port u)"
proof -
  define x where "x = (if m_user_info u \<noteq> [] then m_user_info u @ ''@'' else []) @ m_host u"
  have ui: "list_all is_user_info_character (m_user_info u)" and no_at: "CHR ''@'' \<notin> set (m_host u)"
    and no_colon: "CHR '':'' \<notin> set (m_host u)" and port: "0 \<le> m_port u" "m_port u < 2 ^ 31"
    and h: "m_host u \<noteq> []"
    using assms unfolding printable_def list_all_iff by blast+
  note user = split_user_host [OF ui no_at, folded x_def]
  show ?thesis
  proof (cases "0 < m_port u")
    case True
    let ?ds = "nat_digits (nat (m_port u))"
    have "print_authority u = x @ CHR '':'' # ?ds" using True by (simp add: print_authority_def x_def)
    moreover have "list_all isdigit ?ds" using nat_digits_props by blast
    moreover have "from_chars ?ds = m_port u"
      using from_chars_digits [of "nat (m_port u)"] port by simp
    ultimately show ?thesis by (simp only: split_with_port user)
  next
    case False
    have colon: "x ! port_scan x (length x - 1) \<noteq> CHR '':''"
    proof (cases "m_user_info u = []")
      case True
      then have "x = m_host u" by (simp add: x_def)
      with port_scan_no_colon [OF no_colon h] show ?thesis by (simp only: not_False_eq_True)
    next
      case ne: False
      then have "x = m_user_info u @ CHR ''@'' # m_host u" by (simp add: x_def)
      with no_port_found [OF no_colon h] show ?thesis by (simp only: not_False_eq_True)
    qed
    have "print_authority u = x" "m_port u = 0"
      using False port by (simp_all add: print_authority_def x_def)
    then show ?thesis using split_without_port [OF colon] by (simp only: user)
  qed
qed

lemma printable_authority:
  assumes "printable u"
  shows "list_all is_authority_character (print_authority u)" "print_authority u \<noteq> []"
proof -
  have "is_authority_character c" if "isdigit c" for c
    using that by (simp add: is_authority_character_def is_unreserved_def isalnum_def)
  then have "list_all is_authority_character (nat_digits n)" for n
    using nat_digits_props [of n] by (auto intro: list_all_mono)
  moreover have "is_authority_character (CHR '':'')" "is_authority_character (CHR ''@'')"
    by (simp_all add: is_authority_character_def)
  moreover have "list_all is_authority_character (m_user_info u)"
    using assms class_not_special(5) unfolding printable_def by (blast intro: list_all_mono)
  moreover have "list_all is_authority_character (m_host u)" "m_host u \<noteq> []"
    using assms unfolding printable_def by (blast intro: list_all_mono)+
  ultimately show "list_all is_authority_character (print_authority u)" "print_authority u \<noteq> []"
    by (simp_all add: print_authority_def)
qed

lemma canonical_printable: "printable u \<Longrightarrow> canonical u = u"
  by (simp add: canonical_def printable_def)

lemma toString_printable:
  assumes "printable u"
  shows "toString u = (m_scheme u @ CHR '':'' # ''//'' @ print_authority u @ m_path u @ print_tail u, u)"
  using assms by (simp add: toString_def canonical_printable print_path_def printable_def)

lemma no_nul:
  "list_all is_scheme_character s \<Longrightarrow> CHR 0x00 \<notin> set s"
  "list_all is_authority_character s \<Longrightarrow> CHR 0x00 \<notin> set s"
  "list_all is_path_character s \<Longrightarrow> CHR 0x00 \<notin> set s"
  "list_all is_query_character s \<Longrightarrow> CHR 0x00 \<notin> set s"
  by (auto simp: list_all_iff dest: class_not_special)

lemma printed_no_nul:
  assumes "printable u"
  shows "CHR 0x00 \<notin> set (fst (toString u))"
proof -
  have "list_all is_scheme_character (m_scheme u)" "list_all is_path_character (m_path u)"
    "list_all is_query_character (m_query u)" "list_all is_query_character (m_fragment u)"
    using assms unfolding printable_def is_fragment_character_def by simp_all
  from no_nul(1) [OF this(1)] no_nul(3) [OF this(2)] no_nul(4) [OF this(3)] no_nul(4) [OF this(4)]
    no_nul(2) [OF printable_authority(1) [OF assms]]
  show ?thesis by (simp add: toString_printable [OF assms] print_tail_def)
qed

lemma parse_tail:
  assumes "list_all is_query_character (m_query u)" "list_all is_fragment_character (m_fragment u)"
  shows "\<exists>p. parse_query (print_tail u) = Some (if m_query u \<noteq> [] then Some (m_query u) else None, p)
    \<and> parse_fragment p = Some (if m_fragment u \<noteq> [] then Some (m_fragment u) else None)"
proof -
  let ?f = "if m_fragment u \<noteq> [] then CHR ''#'' # m_fragment u else []"
  have "parse_fragment ?f = Some (if m_fragment u \<noteq> [] then Some (m_fragment u) else None)"
    using assms(2) by (simp add: parse_fragment_def)
  moreover have "parse_query (print_tail u) = Some (if m_query u \<noteq> [] then Some (m_query u) else None, ?f)"
  proof (cases "m_query u = []")
    case True
    then show ?thesis by (simp add: print_tail_def parse_query_def)
  next
    case False
    then show ?thesis using parse_query_print [OF assms(1), of ?f] by (simp add: print_tail_def)
  qed
  ultimately show ?thesis by blast
qed


definition sample_uri :: Uri where
  "sample_uri = \<lparr>m_scheme = ''http'', m_host = ''ex.org'', m_user_info = ''me'', m_path = ''/a/b'',
     m_query = ''k=v'', m_fragment = [], m_port = 8080\<rparr>"


subsection \<open>Paths\<close>

definition segs :: "string \<Rightarrow> string list" where
  "segs s = filter (\<lambda>s. s \<noteq> []) (getlines s)"

lemma splitPath_segs: "splitPath u = segs (m_path u)"
  by (simp add: splitPath_def segs_def)

lemma getlines_Nil [simp]: "getlines [] = []"
  by (subst getlines.simps) simp

lemma no_slash_all: "CHR ''/'' \<notin> set x \<longleftrightarrow> list_all (\<lambda>c. c \<noteq> CHR ''/'') x"
  by (auto simp: list_all_iff)

lemma getlines_slash: "CHR ''/'' \<notin> set x \<Longrightarrow> getlines (x @ CHR ''/'' # y) = x # getlines y"
  using takeWhile_stop [of "\<lambda>c. c \<noteq> CHR ''/''" x "CHR ''/'' # y"]
    dropWhile_stop [of "\<lambda>c. c \<noteq> CHR ''/''" x "CHR ''/'' # y"]
  by (subst getlines.simps) (simp add: no_slash_all)

lemma getlines_plain: "CHR ''/'' \<notin> set x \<Longrightarrow> x \<noteq> [] \<Longrightarrow> getlines x = [x]"
proof -
  assume x: "CHR ''/'' \<notin> set x" "x \<noteq> []"
  then have "dropWhile (\<lambda>c. c \<noteq> CHR ''/'') x = []" "takeWhile (\<lambda>c. c \<noteq> CHR ''/'') x = x"
    unfolding dropWhile_eq_Nil_conv takeWhile_eq_all_conv by blast+
  with x(2) show ?thesis by (subst getlines.simps) (simp only: if_False list.sel getlines_Nil)
qed

lemma segs_slash: "CHR ''/'' \<notin> set x \<Longrightarrow> segs (x @ CHR ''/'' # y) = (if x = [] then [] else [x]) @ segs y"
  by (simp add: segs_def getlines_slash)

lemma segs_plain: "CHR ''/'' \<notin> set x \<Longrightarrow> segs x = (if x = [] then [] else [x])"
  by (simp add: segs_def getlines_plain)

lemma segs_Cons_slash [simp]: "segs (CHR ''/'' # y) = segs y"
  using segs_slash [of "[]" y] by simp

lemma segs_Nil [simp]: "segs [] = []"
  by (simp add: segs_def)

lemma slash_split: "CHR ''/'' \<in> set s \<Longrightarrow> \<exists>x y. s = x @ CHR ''/'' # y \<and> CHR ''/'' \<notin> set x"
  by (metis split_list_first)

lemma segs_append: "segs (a @ CHR ''/'' # b) = segs a @ segs b"
proof (induction "length a" arbitrary: a rule: less_induct)
  case less
  show ?case
  proof (cases "CHR ''/'' \<in> set a")
    case False
    then show ?thesis by (simp add: segs_slash segs_plain)
  next
    case True
    then obtain x y where xy: "a = x @ CHR ''/'' # y" "CHR ''/'' \<notin> set x" using slash_split by blast
    then have "segs (y @ CHR ''/'' # b) = segs y @ segs b" by (intro less) simp
    with xy show ?thesis by (simp add: segs_slash)
  qed
qed

lemma segs_snoc_slash [simp]: "segs (a @ ''/'') = segs a"
  using segs_append [of a "[]"] by (simp add: segs_def)

lemma segs_elems: "s \<in> set (segs p) \<Longrightarrow> s \<noteq> [] \<and> CHR ''/'' \<notin> set s"
proof (induction "length p" arbitrary: p rule: less_induct)
  case less
  show ?case
  proof (cases "CHR ''/'' \<in> set p")
    case False
    with less.prems show ?thesis by (auto simp: segs_plain split: if_splits)
  next
    case True
    then obtain x y where xy: "p = x @ CHR ''/'' # y" "CHR ''/'' \<notin> set x" using slash_split by blast
    with less.prems have "s = x \<and> x \<noteq> [] \<or> s \<in> set (segs y)" by (auto simp: segs_slash split: if_splits)
    with xy less.hyps [of y] show ?thesis by auto
  qed
qed

lemma segs_join: "\<forall>s \<in> set ss. s \<noteq> [] \<and> CHR ''/'' \<notin> set s \<Longrightarrow> segs (join_path ss) = ss"
  by (induction ss rule: join_path.induct) (simp_all add: segs_plain segs_slash)

lemma encode_slash: "encode_char (should_encode C_path) (CHR ''/'') = ''/''"
  by code_simp

lemma hex_not_slash: "n < 16 \<Longrightarrow> hex_digit n \<noteq> CHR ''/''"
  using hex_digit_cases(2) [of n] by (auto simp: char_classes)

lemma encode_no_slash: "CHR ''/'' \<notin> set x \<Longrightarrow> CHR ''/'' \<notin> set (encode x C_path)"
  by (auto simp: encode_def encode_impl_def encode_char_def dest!: sym [of "CHR ''/''"]
      simp: hex_not_slash code_less div_less_iff_less_mult split: if_splits)

lemma encode_path_append: "encode (x @ y) C_path = encode x C_path @ encode y C_path"
  by (simp add: encode_def encode_append)

lemma encode_path_slash: "encode (CHR ''/'' # y) C_path = CHR ''/'' # encode y C_path"
  by (simp add: encode_def encode_Cons encode_slash del: should_encode.simps)

lemma encode_empty: "encode x C_path = [] \<longleftrightarrow> x = []"
  by (cases x) (simp_all add: encode_def encode_Cons encode_char_def)

lemma segs_encode: "segs (encode p C_path) = map (\<lambda>s. encode s C_path) (segs p)"
proof (induction "length p" arbitrary: p rule: less_induct)
  case less
  show ?case
  proof (cases "CHR ''/'' \<in> set p")
    case False
    then show ?thesis by (simp add: segs_plain encode_no_slash encode_empty)
  next
    case True
    then obtain x y where xy: "p = x @ CHR ''/'' # y" "CHR ''/'' \<notin> set x" using slash_split by blast
    then have "segs (encode y C_path) = map (\<lambda>s. encode s C_path) (segs y)" by (intro less) simp
    with xy show ?thesis
      by (simp add: segs_slash encode_path_append encode_path_slash encode_no_slash encode_empty)
  qed
qed

lemma appendPath_segs:
  "splitPath (appendPath p enc u)
     = splitPath u @ map (\<lambda>s. if enc then encode s C_path else s) (segs p)"
proof -
  let ?p = "if enc then encode p C_path else p" and ?t = "m_path u"
  have segs_p: "segs ?p = map (\<lambda>s. if enc then encode s C_path else s) (segs p)"
    by (simp add: segs_encode)
  have slash_p: "\<exists>q. ?p = CHR ''/'' # q" if "p \<noteq> []" "hd p = CHR ''/''"
    using that by (cases p) (auto simp: encode_path_slash)
  have slash_t: "\<exists>q. ?t = q @ ''/''" if "?t \<noteq> []" "last ?t = CHR ''/''"
    using that by (metis append_butlast_last_id)
  consider "p = [] \<or> p = ''/''" | "p \<noteq> []" "p \<noteq> ''/''" "?t = [] \<or> ?t = ''/''"
    | "p \<noteq> []" "p \<noteq> ''/''" "?t \<noteq> []" "?t \<noteq> ''/''" by blast
  then show ?thesis
  proof cases
    case 1
    then show ?thesis by (auto simp: appendPath_def splitPath_segs)
  next
    case 2
    have "segs ?t = []" using 2(3) by auto
    with 2 segs_p show ?thesis by (auto simp: appendPath_def Let_def splitPath_segs)
  next
    case 3
    show ?thesis
    proof (cases "last ?t = CHR ''/''")
      case True
      then obtain q where q: "?t = q @ ''/''" using slash_t 3(3) by blast
      show ?thesis
      proof (cases "hd p = CHR ''/''")
        case True
        then obtain r where "?p = CHR ''/'' # r" using slash_p 3(1) by blast
        moreover from this have "segs r = segs ?p" by (metis segs_Cons_slash)
        ultimately show ?thesis
          using True 3 q segs_p by (simp add: appendPath_def Let_def splitPath_segs segs_append)
      next
        case False
        then show ?thesis
          using 3 q segs_p by (auto simp: appendPath_def Let_def splitPath_segs segs_append)
      qed
    next
      case last: False
      show ?thesis
      proof (cases "hd p = CHR ''/''")
        case True
        then obtain r where "?p = CHR ''/'' # r" using slash_p 3(1) by blast
        moreover from this have "segs r = segs ?p" by (metis segs_Cons_slash)
        ultimately show ?thesis
          using True last 3 segs_p by (simp add: appendPath_def Let_def splitPath_segs segs_append)
      next
        case False
        then show ?thesis
          using last 3 segs_p by (auto simp: appendPath_def Let_def splitPath_segs segs_append)
      qed
    qed
  qed
qed

text \<open>Appending a path appends its segments, encoded when asked, however the two paths
  begin and end with slashes: no segment is lost, merged or empty.\<close>

lemma appendPath_segments:
  "splitPath (appendPath p enc u)
     = splitPath u @ map (\<lambda>s. if enc then encode s C_path else s) (segs p)"
  by (rule appendPath_segs)

lemma segs_chars: "s \<in> set (segs p) \<Longrightarrow> set s \<subseteq> set p"
proof (induction "length p" arbitrary: p rule: less_induct)
  case less
  show ?case
  proof (cases "CHR ''/'' \<in> set p")
    case False
    with less.prems show ?thesis by (auto simp: segs_plain split: if_splits)
  next
    case True
    then obtain x y where xy: "p = x @ CHR ''/'' # y" "CHR ''/'' \<notin> set x" using slash_split by blast
    with less.prems have "s = x \<or> s \<in> set (segs y)" by (auto simp: segs_slash split: if_splits)
    with xy less.hyps [of y] show ?thesis by auto
  qed
qed

subsection \<open>Comparing and resolving\<close>

lemma differ_or_refl: "differ_or a a k = (if escapes_ok a then k else Inl (projl (decode a)))"
proof (cases "decode a")
  case (Inl e)
  then have "\<not> escapes_ok a" by (metis decode_total_iff sum.distinct(1))
  with Inl show ?thesis by (simp add: differ_or_def)
next
  case (Inr x)
  then have "escapes_ok a" using decode_total_iff by blast
  with Inr show ?thesis by (simp add: differ_or_def)
qed

lemma differ_or_refl_Inr: "differ_or a a k = Inr r \<longleftrightarrow> escapes_ok a \<and> k = Inr r"
  by (simp only: differ_or_refl split: if_split) blast

lemma differ_or_sym:
  "differ_or a b k = Inr r \<Longrightarrow> (k = Inr r \<Longrightarrow> k' = Inr r) \<Longrightarrow> differ_or b a k' = Inr r"
  by (auto simp: differ_or_def split: sum.splits if_splits)

lemma map_sum_Not_Inr: "map_sum id Not x = Inr b \<longleftrightarrow> x = Inr (\<not> b)"
  by (cases x) auto

lemma uri_equal_sym:
  assumes "uri_equal u v = Inr b"
  shows "uri_equal v u = Inr b"
proof (cases "isEmpty u \<or> isEmpty v \<or> m_scheme u \<noteq> m_scheme v")
  case True
  with assms show ?thesis by (auto simp: uri_equal_def split: if_splits)
next
  case False
  show ?thesis
  proof (cases "m_port u = m_port v")
    case True
    with assms False show ?thesis
      by (simp add: uri_equal_def map_sum_Not_Inr) ((rule differ_or_sym, assumption)+, assumption)
  next
    case False
    with assms \<open>\<not> (isEmpty u \<or> isEmpty v \<or> m_scheme u \<noteq> m_scheme v)\<close> show ?thesis
      by (simp add: uri_equal_def map_sum_Not_Inr) ((rule differ_or_sym, assumption)+, assumption)
  qed
qed

lemma uri_equal_refl:
  "uri_equal u u = Inr True \<longleftrightarrow> isEmpty u \<or> escapes_ok (m_user_info u) \<and> escapes_ok (m_host u)
     \<and> escapes_ok (m_path u) \<and> escapes_ok (m_query u) \<and> escapes_ok (m_fragment u)"
proof (cases "isEmpty u")
  case False
  have "uri_equal u u = map_sum id Not
      (differ_or (m_user_info u) (m_user_info u) (differ_or (m_host u) (m_host u)
        (differ_or (m_path u) (m_path u) (differ_or (m_query u) (m_query u)
          (differ_or (m_fragment u) (m_fragment u) (Inr False))))))"
    by (subst uri_equal_def, use False in simp)
  then have "uri_equal u u = Inr True \<longleftrightarrow> escapes_ok (m_user_info u) \<and> escapes_ok (m_host u)
     \<and> escapes_ok (m_path u) \<and> escapes_ok (m_query u) \<and> escapes_ok (m_fragment u)"
    by (simp only: map_sum_Not_Inr differ_or_refl_Inr not_True_eq_False simp_thms)
  with False show ?thesis by blast
qed (simp add: uri_equal_def)

text \<open>Comparison is symmetric on every result it returns, and a URI equals itself exactly when it
  has no host or all its percent escapes are complete; otherwise comparing it with
  itself throws.\<close>

lemma uri_equal_refl_sym:
  "(uri_equal u v = Inr b \<longleftrightarrow> uri_equal v u = Inr b)
   \<and> (uri_equal u u = Inr True \<longleftrightarrow> isEmpty u \<or>
        list_all escapes_ok [m_user_info u, m_host u, m_path u, m_query u, m_fragment u])"
proof
  show "uri_equal u v = Inr b \<longleftrightarrow> uri_equal v u = Inr b"
    by (blast intro: uri_equal_sym)
  show "uri_equal u u = Inr True \<longleftrightarrow> isEmpty u \<or>
        list_all escapes_ok [m_user_info u, m_host u, m_path u, m_query u, m_fragment u]"
    using uri_equal_refl [of u] by (simp only: list.pred_inject simp_thms)
qed

lemma encode_dot_free: "CHR ''.'' \<notin> set p \<Longrightarrow> CHR ''.'' \<notin> set (encode p C_path)"
proof -
  have "hex_digit n \<noteq> CHR ''.''" if "n < 16" for n
    using hex_digit_cases(2) [OF that] by (auto simp: char_classes)
  then show "CHR ''.'' \<notin> set p \<Longrightarrow> CHR ''.'' \<notin> set (encode p C_path)"
    by (induction p) (auto simp: encode_def encode_Cons encode_char_def code_less
        div_less_iff_less_mult dest!: sym [of "CHR ''.''"] simp del: should_encode.simps)
qed

text \<open>A reference that starts with one slash is resolved against the root with its path
  percent-encoded a second time and with the base's fragment in front of its own, which
  RFC 3986 does not allow (the target's fragment is the reference's).\<close>

lemma resolve_root_reencodes:
  assumes "hd r = CHR ''/''" "r \<noteq> []" "length r < 2 \<or> r ! 1 \<noteq> CHR ''/''" "newUri r = Inr rel"
    "CHR ''.'' \<notin> set (m_path rel)"
  shows "\<exists>v. resolveUri u r = Inr v \<and> m_scheme v = m_scheme u \<and> m_host v = m_host u \<and> m_port v = m_port u
     \<and> splitPath v = map (\<lambda>s. encode s C_path) (splitPath rel)
     \<and> m_fragment v = encode (m_fragment u @ m_fragment rel) C_query"
proof -
  let ?w = "setFragment (m_fragment u @ m_fragment rel) True
      (appendQuery (m_query rel) True (appendPath (m_path rel) True (authority u)))"
  have path: "m_path ?w = m_path (appendPath (m_path rel) True (authority u))"
    by (simp add: setFragment_def appendQuery_def Let_def)
  have "CHR ''.'' \<notin> set (m_path (appendPath (m_path rel) True (authority u)))"
    using assms(5) encode_dot_free by (auto simp: appendPath_def authority_def Let_def)
  then have same: "removeDotSegments ?w = ?w" by (simp add: removeDotSegments_def path)
  have "splitPath ?w = map (\<lambda>s. encode s C_path) (splitPath rel)"
    using appendPath_segs [of "m_path rel" True "authority u"]
    by (simp add: splitPath_segs path) (simp add: authority_def)
  moreover have "m_scheme ?w = m_scheme u" "m_host ?w = m_host u" "m_port ?w = m_port u"
    "m_fragment ?w = encode (m_fragment u @ m_fragment rel) C_query"
    by (simp_all add: setFragment_def appendQuery_def appendPath_def authority_def Let_def)
  moreover have "resolveUri u r = Inr ?w"
    using assms same by (auto simp: resolveUri_def)
  ultimately show ?thesis by blast
qed

lemma resolve_root_reencodes_witness:
  "\<exists>v. resolveUri (sample_uri\<lparr>m_fragment := ''x''\<rparr>) ''/a%20b#y'' = Inr v
     \<and> splitPath v = [''a%2520b''] \<and> m_fragment v = ''xy''"
proof -
  have new: "newUri ''/a%20b#y'' = Inr (defaultUri\<lparr>m_path := ''/a%20b'', m_fragment := ''y''\<rparr>)"
    by code_simp
  have "map (\<lambda>s. encode s C_path) (splitPath (defaultUri\<lparr>m_path := ''/a%20b'', m_fragment := ''y''\<rparr>)) = [''a%2520b'']"
    "encode (m_fragment (sample_uri\<lparr>m_fragment := ''x''\<rparr>)
       @ m_fragment (defaultUri\<lparr>m_path := ''/a%20b'', m_fragment := ''y''\<rparr>)) C_query = ''xy''"
    by code_simp+
  with resolve_root_reencodes [OF _ _ _ new, of "sample_uri\<lparr>m_fragment := ''x''\<rparr>"] show ?thesis
    by (auto simp: defaultUri_def)
qed

end
