(* ===== verification/DotSegments.thy ===== *)
theory DotSegments
  imports Uri
begin

text \<open>
  Dot segments (\<^verbatim>\<open>removeDotSegments\<close> in \<^verbatim>\<open>src/uri/Uri.cpp\<close>) against two
  references. \<open>surviving\<close> says which segments of a path are not undone: it reads them from the
  right and counts the \<^verbatim>\<open>..\<close> that still have a segment to undo. \<open>remove_dot_segments\<close> is the
  routine of RFC 3986, section 5.2.4, which the comment in the code names: it works on the text
  of the path, with an input and an output buffer. The RFC keeps empty segments and undoes them
  with \<^verbatim>\<open>..\<close>, the code has dropped them before.
\<close>

fun surviving :: "nat \<Rightarrow> string list \<Rightarrow> string list" where
  "surviving ups [] = []"
| "surviving ups (segment # left) =
     (if segment = ''.'' then surviving ups left
      else if segment = ''..'' then surviving (ups + 1) left
      else if 0 < ups then surviving (ups - 1) left
      else surviving 0 left @ [segment])"

text \<open>The rules A to E of the RFC.\<close>

definition without_last_segment :: "string \<Rightarrow> string" where
  "without_last_segment output = rev (tl (dropWhile (\<lambda>c. c \<noteq> CHR ''/'') (rev output)))"

definition rfc_rule :: "string \<Rightarrow> string \<Rightarrow> string \<times> string" where
  "rfc_rule input output =
     (if take 3 input = ''../'' then (drop 3 input, output)
      else if take 2 input = ''./'' then (drop 2 input, output)
      else if take 3 input = ''/./'' then (drop 2 input, output)
      else if input = ''/.'' then (''/'', output)
      else if take 4 input = ''/../'' then (drop 3 input, without_last_segment output)
      else if input = ''/..'' then (''/'', without_last_segment output)
      else if input = ''.'' \<or> input = ''..'' then ([], output)
      else (dropWhile (\<lambda>c. c \<noteq> CHR ''/'') (tl input),
            output @ hd input # takeWhile (\<lambda>c. c \<noteq> CHR ''/'') (tl input)))"

lemma rfc_rule_shorter: "input \<noteq> [] \<Longrightarrow> length (fst (rfc_rule input output)) < length input"
proof -
  assume "input \<noteq> []"
  moreover have "length (dropWhile P xs) \<le> length xs" for P and xs :: string by (rule length_dropWhile_le)
  ultimately show ?thesis by (cases input) (auto simp: rfc_rule_def less_Suc_eq_le)
qed

function rfc_loop :: "string \<Rightarrow> string \<Rightarrow> string" where
  "rfc_loop input output =
     (if input = [] then output else rfc_loop (fst (rfc_rule input output)) (snd (rfc_rule input output)))"
  by pat_completeness auto

termination by (relation "measure (length \<circ> fst)") (simp_all add: rfc_rule_shorter)

declare rfc_loop.simps [simp del]

definition remove_dot_segments :: "string \<Rightarrow> string" where
  "remove_dot_segments path = rfc_loop path []"

text \<open>The examples of the RFC.\<close>

lemma rfc_examples:
  "remove_dot_segments ''/a/b/c/./../../g'' = ''/a/g''"
  "remove_dot_segments ''mid/content=5/../6'' = ''mid/6''"
  by code_simp+

subsection \<open>Which segments are undone\<close>

lemma dot_stack_append: "dot_stack (ss @ ts) r = dot_stack ts (dot_stack ss r)"
  by (induction ss arbitrary: r) simp_all

lemma surviving_stack: "surviving ups (rev ss) = take (length (dot_stack ss []) - ups) (dot_stack ss [])"
proof (induction ss arbitrary: ups rule: rev_induct)
  case (snoc s ss)
  let ?D = "dot_stack ss []"
  show ?case
  proof (cases "s = ''.'' \<or> s = ''..''")
    case True
    have "take (length ?D - Suc ups) ?D = take (length ?D - Suc ups) (butlast ?D)" by (simp add: butlast_conv_take min_def)
    with True show ?thesis using snoc [of ups] snoc [of "Suc ups"] by (auto simp: dot_stack_append)
  next
    case False
    show ?thesis
    proof (cases ups)
      case 0
      with False show ?thesis using snoc [of 0] by (simp add: dot_stack_append)
    next
      case (Suc n)
      with False show ?thesis using snoc [of n] by (simp add: dot_stack_append)
    qed
  qed
qed simp

lemma dot_stack_elems: "set (dot_stack ss r) \<subseteq> set r \<union> (set ss - {''.'', ''..''})"
proof (induction ss arbitrary: r)
  case (Cons a ss)
  from Cons [of r] Cons [of "r @ [a]"] Cons [of "butlast r"] show ?case
    by (auto dest: in_set_butlastD)
qed simp

lemma encode_dot: "encode s C_path = x \<longleftrightarrow> s = x" if "x = ''.'' \<or> x = ''..''"
proof -
  have "encode ''.'' C_path = ''.''" "encode ''..'' C_path = ''..''" by code_simp+
  then have "encode x C_path = x" using that by auto
  then show ?thesis
    by (metis path_codec.encode_injective encode_def)
qed


subsection \<open>The routine of the RFC on absolute paths\<close>

text \<open>A path without empty segments: its segments, each after a slash, and maybe a slash at the
  end.\<close>

fun double_slash :: "string \<Rightarrow> bool" where
  "double_slash (a # b # cs) = (a = CHR ''/'' \<and> b = CHR ''/'' \<or> double_slash (b # cs))"
| "double_slash _ = False"

definition slashed :: "string list \<Rightarrow> string" where
  "slashed ss = concat (map ((#) (CHR ''/'')) ss)"

definition clean :: "string \<Rightarrow> bool" where
  "clean s \<longleftrightarrow> s \<noteq> [] \<and> CHR ''/'' \<notin> set s"

definition end_slash :: "bool \<Rightarrow> string" where
  "end_slash b = (if b then ''/'' else [])"

lemma slashed_simps [simp]:
  "slashed [] = []" "slashed (s # ss) = CHR ''/'' # s @ slashed ss" "slashed (ss @ ts) = slashed ss @ slashed ts"
  by (simp_all add: slashed_def)

lemma double_slash_append: "double_slash y \<Longrightarrow> double_slash (x @ y)"
  by (induction x rule: double_slash.induct) (cases y; simp)+

lemma segs_slashed:
  "p \<noteq> [] \<Longrightarrow> hd p = CHR ''/'' \<Longrightarrow> \<not> double_slash p \<Longrightarrow> p = slashed (segs p) @ end_slash (last p = CHR ''/'')"
proof (induction "length p" arbitrary: p rule: less_induct)
  case less
  then obtain q where p: "p = CHR ''/'' # q" by (cases p) auto
  show ?case
  proof (cases "CHR ''/'' \<in> set q")
    case False
    then have "q \<noteq> [] \<Longrightarrow> last q \<noteq> CHR ''/''" by (metis last_in_set)
    with False p show ?thesis by (auto simp: segs_plain end_slash_def)
  next
    case True
    then obtain x y where q: "q = x @ CHR ''/'' # y" "CHR ''/'' \<notin> set x" using slash_split by blast
    with p less.prems(3) have "x \<noteq> []" "\<not> double_slash (CHR ''/'' # y)"
      using double_slash_append [of "CHR ''/'' # y" "CHR ''/'' # x"] by auto
    have "CHR ''/'' # y = slashed (segs (CHR ''/'' # y)) @ end_slash (last (CHR ''/'' # y) = CHR ''/'')"
      by (rule less.hyps) (use p q \<open>\<not> double_slash (CHR ''/'' # y)\<close> in simp_all)
    note y = this [unfolded segs_Cons_slash]
    have "last p = last (CHR ''/'' # y)" "segs p = x # segs y" using p q \<open>x \<noteq> []\<close> by (simp_all add: segs_slash)
    moreover have "p = (CHR ''/'' # x) @ CHR ''/'' # y" using p q by simp
    ultimately show ?thesis using y by (metis slashed_simps(2) append_Cons append_assoc)
  qed
qed

lemma segs_clean: "list_all clean (segs p)"
  by (auto simp: list_all_iff clean_def dest: segs_elems)

text \<open>One rule for each segment.\<close>

lemma without_last_segment_slashed:
  assumes "list_all clean r"
  shows "without_last_segment (slashed r) = slashed (butlast r)"
proof (cases r rule: rev_cases)
  case (snoc r' s)
  with assms have "list_all (\<lambda>c. c \<noteq> CHR ''/'') (rev s)" by (auto simp: clean_def no_slash_all)
  from dropWhile_stop [OF this, of "CHR ''/'' # rev (slashed r')"] snoc show ?thesis
    by (simp add: without_last_segment_def)
qed (simp add: without_last_segment_def)

lemma takeWhile_dropWhile_seg:
  assumes "clean s" "rest = [] \<or> hd rest = CHR ''/''"
  shows "takeWhile (\<lambda>c. c \<noteq> CHR ''/'') (s @ rest) = s" "dropWhile (\<lambda>c. c \<noteq> CHR ''/'') (s @ rest) = rest"
proof -
  have "\<forall>c\<in>set s. c \<noteq> CHR ''/''" using assms(1) by (auto simp: clean_def)
  then show "takeWhile (\<lambda>c. c \<noteq> CHR ''/'') (s @ rest) = s" "dropWhile (\<lambda>c. c \<noteq> CHR ''/'') (s @ rest) = rest"
    using assms(2) by (cases rest; simp add: takeWhile_append2 dropWhile_append2)+
qed

lemma rfc_rule_segment:
  assumes "clean s" "rest = [] \<or> hd rest = CHR ''/''"
  shows "rfc_rule (CHR ''/'' # s @ rest) output =
     (if s = ''.'' then (if rest = [] then ''/'' else rest, output)
      else if s = ''..'' then (if rest = [] then ''/'' else rest, without_last_segment output)
      else (rest, output @ CHR ''/'' # s))"
proof -
  have E: "(dropWhile (\<lambda>c. c \<noteq> CHR ''/'') (tl (CHR ''/'' # s @ rest)), output @ hd (CHR ''/'' # s @ rest)
      # takeWhile (\<lambda>c. c \<noteq> CHR ''/'') (tl (CHR ''/'' # s @ rest))) = (rest, output @ CHR ''/'' # s)"
    using takeWhile_dropWhile_seg [OF assms] by simp
  obtain c s' where s: "s = c # s'" "c \<noteq> CHR ''/''" using assms(1) by (cases s) (auto simp: clean_def)
  show ?thesis
  proof (cases s')
    case Nil
    then show ?thesis using s assms(2) E by (cases rest) (auto simp: rfc_rule_def)
  next
    case (Cons d s'')
    have "d \<noteq> CHR ''/''" "CHR ''/'' \<notin> set s''" using assms(1) s Cons by (auto simp: clean_def)
    then show ?thesis using s Cons assms(2) E by (cases s''; cases rest) (auto simp: rfc_rule_def)
  qed
qed

text \<open>The loop of the RFC does to the text what the stack does to the segments.\<close>

definition is_dots :: "string \<Rightarrow> bool" where
  "is_dots s \<longleftrightarrow> s = ''.'' \<or> s = ''..''"

lemma rfc_loop_slash: "rfc_loop ''/'' output = output @ ''/''" "rfc_loop [] output = output"
  by (simp_all add: rfc_loop.simps rfc_rule_def)

lemma rfc_loop_segments:
  "list_all clean ss \<Longrightarrow> list_all clean r \<Longrightarrow>
     rfc_loop (slashed ss @ end_slash e) (slashed r)
       = slashed (dot_stack ss r) @ end_slash (e \<or> ss \<noteq> [] \<and> is_dots (last ss))"
proof (induction ss arbitrary: r)
  case Nil
  then show ?case by (simp add: end_slash_def rfc_loop_slash)
next
  case (Cons s ss)
  let ?rest = "slashed ss @ end_slash e"
  have clean: "clean s" "list_all clean ss" using Cons.prems(1) by simp_all
  have "?rest = [] \<or> hd ?rest = CHR ''/''" by (cases ss) (simp_all add: end_slash_def)
  note rule = rfc_rule_segment [OF clean(1) this, of "slashed r"]
  have step: "rfc_loop (slashed (s # ss) @ end_slash e) (slashed r)
      = rfc_loop (fst (rfc_rule (CHR ''/'' # s @ ?rest) (slashed r))) (snd (rfc_rule (CHR ''/'' # s @ ?rest) (slashed r)))"
    by (subst rfc_loop.simps) simp
  have empty: "?rest = [] \<longleftrightarrow> ss = [] \<and> \<not> e" by (cases ss) (simp_all add: end_slash_def)
  have r: "list_all clean (butlast r)" "clean s \<Longrightarrow> list_all clean (r @ [s])"
    using Cons.prems(2) by (auto simp: list_all_iff dest: in_set_butlastD)
  show ?case
  proof (cases "is_dots s \<and> ?rest = []")
    case True
    with empty show ?thesis unfolding step rule
      using without_last_segment_slashed [OF Cons.prems(2)]
      by (auto simp: is_dots_def rfc_loop_slash end_slash_def)
  next
    case False
    then show ?thesis unfolding step rule
      using without_last_segment_slashed [OF Cons.prems(2)] Cons.IH [OF clean(2) Cons.prems(2)]
        Cons.IH [OF clean(2) r(1)] Cons.IH [OF clean(2) r(2) [OF clean(1)]] empty
      by (auto simp: is_dots_def)
  qed
qed

lemma remove_dot_segments_slashed:
  assumes "p \<noteq> []" "hd p = CHR ''/''" "\<not> double_slash p"
  shows "remove_dot_segments p =
     slashed (dot_stack (segs p) []) @ end_slash (last p = CHR ''/'' \<or> segs p \<noteq> [] \<and> is_dots (last (segs p)))"
  using rfc_loop_segments [OF segs_clean, of "[]" p "last p = CHR ''/''"] segs_slashed [OF assms]
  by (simp add: remove_dot_segments_def)

subsection \<open>The code\<close>

lemma join_path_slashed: "r \<noteq> [] \<Longrightarrow> CHR ''/'' # join_path r = slashed r"
  by (induction r rule: join_path.induct) simp_all

lemma join_path_hd:
  assumes "list_all clean r" "r \<noteq> []"
  shows "join_path r \<noteq> []" "hd (join_path r) \<noteq> CHR ''/''"
proof -
  obtain c s t where "r = (c # s) # t" "c \<noteq> CHR ''/''"
    using assms by (cases r; cases "hd r") (auto simp: clean_def)
  then show "join_path r \<noteq> []" "hd (join_path r) \<noteq> CHR ''/''" by (cases t; simp)+
qed

lemma dot_stack_Nil: "dot_stack ss r = [] \<Longrightarrow> ss \<noteq> [] \<Longrightarrow> is_dots (last ss)"
  by (cases ss rule: rev_cases) (auto simp: dot_stack_append is_dots_def split: if_splits)

lemma dot_stack_clean: "list_all clean (dot_stack (segs p) [])"
  using dot_stack_elems [of "segs p" "[]"] segs_clean [of p] by (auto simp: list_all_iff)

lemma segs_dot: "CHR ''.'' \<in> set p \<Longrightarrow> segs p \<noteq> []"
proof (induction "length p" arbitrary: p rule: less_induct)
  case less
  show ?case
  proof (cases "CHR ''/'' \<in> set p")
    case False
    with less.prems show ?thesis by (auto simp: segs_plain)
  next
    case True
    then obtain x y where xy: "p = x @ CHR ''/'' # y" "CHR ''/'' \<notin> set x" using slash_split by blast
    with less.prems less.hyps [of y] show ?thesis by (auto simp: segs_slash)
  qed
qed

lemma dot_free_stack:
  assumes "''.'' \<notin> set ss" "''..'' \<notin> set ss"
  shows "dot_stack ss r = r @ ss"
  using assms by (induction ss arbitrary: r) auto

text \<open>On an absolute path without empty segments the code does what the RFC says, and encodes
  the result once more if the path has a dot.\<close>

lemma removeDotSegments_path:
  assumes "m_path u \<noteq> []" "hd (m_path u) = CHR ''/''" "\<not> double_slash (m_path u)"
  shows "m_path (removeDotSegments u) =
     (if CHR ''.'' \<in> set (m_path u) then encode (remove_dot_segments (m_path u)) C_path
      else remove_dot_segments (m_path u))"
proof (cases "CHR ''.'' \<in> set (m_path u)")
  case False
  then have "''.'' \<notin> set (segs (m_path u))" "''..'' \<notin> set (segs (m_path u))" by (auto dest: segs_chars)
  then have plain: "dot_stack (segs (m_path u)) [] = segs (m_path u)"
    "segs (m_path u) \<noteq> [] \<and> is_dots (last (segs (m_path u))) \<longleftrightarrow> False"
    using last_in_set by (fastforce simp: is_dots_def dot_free_stack)+
  have "remove_dot_segments (m_path u) = m_path u"
    using remove_dot_segments_slashed [OF assms] unfolding plain simp_thms segs_slashed [OF assms, symmetric] .
  with False show ?thesis by (simp add: removeDotSegments_def)
next
  case True
  let ?ss = "segs (m_path u)" and ?r = "dot_stack (segs (m_path u)) []"
  let ?e = "last (m_path u) = CHR ''/'' \<or> is_dots (last ?ss)"
  have ss: "?ss \<noteq> []" using True by (rule segs_dot)
  note rfc = remove_dot_segments_slashed [OF assms]
  show ?thesis
  proof (cases "?r = []")
    case True
    with rfc ss dot_stack_Nil [OF True ss] \<open>CHR ''.'' \<in> _\<close> show ?thesis
      using encode_path_slash [of "[]"] encode_empty [of "[]"]
      by (simp add: removeDotSegments_def splitPath_segs setPath_def end_slash_def)
  next
    case False
    have "m_path (removeDotSegments u) = CHR ''/'' # encode (join_path ?r @ end_slash ?e) C_path"
      using False \<open>CHR ''.'' \<in> _\<close> join_path_hd [OF dot_stack_clean False]
      by (auto simp: removeDotSegments_def splitPath_segs setPath_def Let_def is_dots_def end_slash_def)
    also have "\<dots> = encode (slashed ?r @ end_slash ?e) C_path"
      using join_path_slashed [OF False] encode_path_slash by (metis append_Cons)
    finally show ?thesis using rfc ss True by simp
  qed
qed

lemma removeDotSegments_stack:
  "splitPath (removeDotSegments u) =
     (if CHR ''.'' \<in> set (m_path u)
      then map (\<lambda>s. encode s C_path) (dot_stack (splitPath u) []) else splitPath u)"
proof (cases "CHR ''.'' \<in> set (m_path u)")
  case True
  have "\<forall>s \<in> set (dot_stack (splitPath u) []). s \<noteq> [] \<and> CHR ''/'' \<notin> set s"
    using dot_stack_clean by (auto simp: splitPath_segs list_all_iff clean_def)
  note join = segs_join [OF this]
  have "splitPath (setPath p True u) = map (\<lambda>s. encode s C_path) (segs p)" for p
    by (simp add: setPath_def Let_def splitPath_segs segs_encode)
  with True join show ?thesis by (auto simp: removeDotSegments_def Let_def)
qed (simp add: removeDotSegments_def)

text \<open>C33. The segments after the removal of dot segments are, encoded once more if the path has
  a dot, those that are not dots and that no \<^verbatim>\<open>..\<close> undoes. None is a dot segment. On an absolute
  path without empty segments the whole path is the one that the routine of RFC 3986, section
  5.2.4, gives, encoded once more if it has a dot.\<close>

theorem removeDotSegments_segments:
  "splitPath (removeDotSegments u) =
     (if CHR ''.'' \<in> set (m_path u)
      then map (\<lambda>s. encode s C_path) (surviving 0 (rev (splitPath u))) else splitPath u)
   \<and> ''.'' \<notin> set (splitPath (removeDotSegments u)) \<and> ''..'' \<notin> set (splitPath (removeDotSegments u))
   \<and> (m_path u \<noteq> [] \<and> hd (m_path u) = CHR ''/'' \<and> \<not> double_slash (m_path u) \<longrightarrow>
        m_path (removeDotSegments u) =
          (if CHR ''.'' \<in> set (m_path u) then encode (remove_dot_segments (m_path u)) C_path
           else remove_dot_segments (m_path u)))"
proof -
  have "surviving 0 (rev (splitPath u)) = dot_stack (splitPath u) []" by (simp add: surviving_stack)
  moreover have "x \<notin> set (splitPath (removeDotSegments u))" if x: "x = ''.'' \<or> x = ''..''" for x
  proof (cases "CHR ''.'' \<in> set (m_path u)")
    case True
    have "x \<notin> set (dot_stack (splitPath u) [])" using dot_stack_elems [of "splitPath u" "[]"] x by auto
    then have "\<forall>s \<in> set (dot_stack (splitPath u) []). encode s C_path \<noteq> x" using encode_dot [OF x] by metis
    then show ?thesis using True by (auto simp: removeDotSegments_stack)
  next
    case False
    then have "x \<notin> set (splitPath u)" using x segs_chars [of x "m_path u"] by (auto simp: splitPath_segs)
    with False show ?thesis by (simp add: removeDotSegments_stack)
  qed
  ultimately show ?thesis using removeDotSegments_stack removeDotSegments_path by simp
qed

lemma removeDotSegments_segments_witness:
  "m_path (removeDotSegments (defaultUri\<lparr>m_path := ''/a/b/c/./../../g''\<rparr>)) = ''/a/g''"
proof -
  have "\<not> double_slash ''/a/b/c/./../../g''" "remove_dot_segments ''/a/b/c/./../../g'' = ''/a/g''"
    "encode ''/a/g'' C_path = ''/a/g''"
    by code_simp+
  then show ?thesis
    using removeDotSegments_segments [of "defaultUri\<lparr>m_path := ''/a/b/c/./../../g''\<rparr>"] by simp
qed

text \<open>Empty segments: the RFC undoes the empty one, the code the one before it.\<close>

lemma empty_segments_differ:
  "remove_dot_segments ''/a//../b'' = ''/a/b''"
  "m_path (removeDotSegments (defaultUri\<lparr>m_path := ''/a//../b''\<rparr>)) = ''/b''"
  by code_simp+

end
