(* ===== verification/ByteArrayIO.thy ===== *)
theory ByteArrayIO
  imports ByteArray
begin

text \<open>
  The typed operations of \<^verbatim>\<open>src/ByteArray.cpp\<close>. A \<^verbatim>\<open>uintN_t\<close> or
  \<^verbatim>\<open>intN_t\<close> is an \<open>N\<close>-bit word; \<^verbatim>\<open>float\<close> and \<^verbatim>\<open>double\<close> are
  their IEEE bit patterns. The byte order of the host is an argument: integers go through
  \<^verbatim>\<open>htobe\<close>/\<^verbatim>\<open>betoh\<close>, floating-point values are copied as they lie in memory.
\<close>

unbundle bit_operations_syntax

subsection \<open>Byte order\<close>

datatype endian = LittleEndian | BigEndian

primrec be_bytes :: "nat \<Rightarrow> 'a::len word \<Rightarrow> byte list" where
  "be_bytes 0 w = []"
| "be_bytes (Suc n) w = be_bytes n (drop_bit 8 w) @ [ucast w]"

definition be_word :: "byte list \<Rightarrow> 'a::len word" where
  "be_word bs = foldl (\<lambda>a b. push_bit 8 a OR ucast b) 0 bs"

text \<open>The bytes of an \<open>n\<close>-byte value in the memory of the host, and back.\<close>

definition host_bytes :: "endian \<Rightarrow> nat \<Rightarrow> 'a::len word \<Rightarrow> byte list" where
  "host_bytes e n w = (case e of BigEndian \<Rightarrow> be_bytes n w | LittleEndian \<Rightarrow> rev (be_bytes n w))"

definition host_word :: "endian \<Rightarrow> byte list \<Rightarrow> 'a::len word" where
  "host_word e bs = (case e of BigEndian \<Rightarrow> be_word bs | LittleEndian \<Rightarrow> be_word (rev bs))"

text \<open>\<^verbatim>\<open>htobe16\<close>, \<^verbatim>\<open>htobe32\<close>, \<^verbatim>\<open>htobe64\<close> and their inverses: a byte swap on a little-endian host.\<close>

definition htobe :: "endian \<Rightarrow> nat \<Rightarrow> 'a::len word \<Rightarrow> 'a word" where
  "htobe e n w = (case e of BigEndian \<Rightarrow> w | LittleEndian \<Rightarrow> be_word (rev (be_bytes n w)))"

definition betoh :: "endian \<Rightarrow> nat \<Rightarrow> 'a::len word \<Rightarrow> 'a word" where
  "betoh e n w = htobe e n w"

lemma length_be_bytes [simp]: "length (be_bytes n w) = n"
  by (induction n arbitrary: w) simp_all

lemma length_host_bytes [simp]: "length (host_bytes e n w) = n"
  by (simp add: host_bytes_def split: endian.splits)

lemma be_word_Nil [simp]: "be_word [] = 0"
  by (simp add: be_word_def)

lemma be_word_snoc [simp]: "be_word (bs @ [b]) = push_bit 8 (be_word bs) OR ucast b"
  by (simp add: be_word_def)

lemma be_word_bytes: "be_word (be_bytes n w) = take_bit (8 * n) w"
proof (induction n arbitrary: w)
  case 0
  then show ?case by simp
next
  case (Suc n)
  show ?case
    by (simp add: Suc, rule bit_word_eqI) (auto simp: bit_simps)
qed

lemma be_word_full [simp]: "8 * n = LENGTH('a) \<Longrightarrow> be_word (be_bytes n w) = (w :: 'a::len word)"
  by (simp add: be_word_bytes)

lemma bit_be_word: "bit (be_word bs :: 'a::len word) i \<Longrightarrow> i < 8 * length bs"
proof (induction bs arbitrary: i rule: rev_induct)
  case Nil
  then show ?case by simp
next
  case (snoc b bs)
  then have "bit (be_word bs :: 'a word) (i - 8) \<and> 8 \<le> i \<or> i < 8"
    by (auto simp: bit_simps dest: bit_imp_le_length)
  with snoc.IH show ?case by fastforce
qed

lemma be_bytes_word:
  assumes "8 * length bs \<le> LENGTH('a)"
  shows "be_bytes (length bs) (be_word bs :: 'a::len word) = bs"
  using assms
proof (induction bs rule: rev_induct)
  case Nil
  then show ?case by simp
next
  case (snoc b bs)
  have below: "bit (be_word bs :: 'a word) i \<Longrightarrow> i + 8 < LENGTH('a)" for i
    using bit_be_word [of bs i, where 'a = 'a] snoc.prems by simp
  have small: "\<not> bit b (i + 8)" for i using bit_imp_le_length [of b "i + 8"] by auto
  have "drop_bit 8 (push_bit 8 (be_word bs) OR ucast b :: 'a word) = be_word bs"
    using below small by (intro bit_word_eqI) (auto simp: bit_simps add.commute)
  moreover have "ucast (push_bit 8 (be_word bs) OR ucast b :: 'a word) = b"
    using snoc.prems by (intro bit_word_eqI) (auto simp: bit_simps)
  ultimately show ?case using snoc by simp
qed

lemma host_bytes_htobe:
  assumes "8 * n = LENGTH('a)"
  shows "host_bytes e n (htobe e n w) = be_bytes n (w :: 'a::len word)"
  using assms be_bytes_word [of "rev (be_bytes n w)", where 'a = 'a]
  by (auto simp: host_bytes_def htobe_def split: endian.splits)

lemma betoh_host_word:
  assumes "8 * length bs = LENGTH('a)"
  shows "betoh e (length bs) (host_word e bs :: 'a::len word) = be_word bs"
  using assms be_bytes_word [of "rev bs", where 'a = 'a]
  by (auto simp: host_word_def betoh_def htobe_def split: endian.splits)

lemma host_word_bytes:
  "8 * n = LENGTH('a) \<Longrightarrow> host_word e (host_bytes e n w) = (w :: 'a::len word)"
  by (auto simp: host_word_def host_bytes_def split: endian.splits)

subsection \<open>Typed writes\<close>

definition writeInt8 :: "endian \<Rightarrow> 8 word \<Rightarrow> bytes \<Rightarrow> bytes option" where
  "writeInt8 host value b = writeRaw (host_bytes host 1 value) b"

definition writeUInt8 :: "endian \<Rightarrow> 8 word \<Rightarrow> bytes \<Rightarrow> bytes option" where
  "writeUInt8 host value b = writeRaw (host_bytes host 1 value) b"

definition writeInt16 :: "endian \<Rightarrow> 16 word \<Rightarrow> bytes \<Rightarrow> bytes option" where
  "writeInt16 host value b = (let v = htobe host 2 value in writeRaw (host_bytes host 2 v) b)"

definition writeUInt16 :: "endian \<Rightarrow> 16 word \<Rightarrow> bytes \<Rightarrow> bytes option" where
  "writeUInt16 host value b = (let v = htobe host 2 value in writeRaw (host_bytes host 2 v) b)"

definition writeInt32 :: "endian \<Rightarrow> 32 word \<Rightarrow> bytes \<Rightarrow> bytes option" where
  "writeInt32 host value b = (let v = htobe host 4 value in writeRaw (host_bytes host 4 v) b)"

definition writeUInt32 :: "endian \<Rightarrow> 32 word \<Rightarrow> bytes \<Rightarrow> bytes option" where
  "writeUInt32 host value b = (let v = htobe host 4 value in writeRaw (host_bytes host 4 v) b)"

definition writeInt64 :: "endian \<Rightarrow> 64 word \<Rightarrow> bytes \<Rightarrow> bytes option" where
  "writeInt64 host value b = (let v = htobe host 8 value in writeRaw (host_bytes host 8 v) b)"

definition writeUInt64 :: "endian \<Rightarrow> 64 word \<Rightarrow> bytes \<Rightarrow> bytes option" where
  "writeUInt64 host value b = (let v = htobe host 8 value in writeRaw (host_bytes host 8 v) b)"

definition writeFloat :: "endian \<Rightarrow> 32 word \<Rightarrow> bytes \<Rightarrow> bytes option" where
  "writeFloat host value b = writeRaw (host_bytes host 4 value) b"

definition writeDouble :: "endian \<Rightarrow> 64 word \<Rightarrow> bytes \<Rightarrow> bytes option" where
  "writeDouble host value b = writeRaw (host_bytes host 8 value) b"

definition writeString :: "byte list \<Rightarrow> bytes \<Rightarrow> bytes option" where
  "writeString value b = writeRaw value b"

subsection \<open>Typed reads\<close>

text \<open>
  Each read fetches the bytes of the value with \<^verbatim>\<open>retrieveRaw\<close> and is the zero of
  the type when it did not get all of them.
\<close>

definition retrieveInt8 :: "endian \<Rightarrow> bytes \<Rightarrow> (8 word \<times> bytes) option" where
  "retrieveInt8 host b = do {
     (out, b) \<leftarrow> retrieveRaw 1 b;
     Some (if length out \<noteq> 1 then 0 else host_word host out, b)
   }"

definition retrieveUInt8 :: "endian \<Rightarrow> bytes \<Rightarrow> (8 word \<times> bytes) option" where
  "retrieveUInt8 host b = do {
     (out, b) \<leftarrow> retrieveRaw 1 b;
     Some (if length out \<noteq> 1 then 0 else host_word host out, b)
   }"

definition retrieveInt16 :: "endian \<Rightarrow> bytes \<Rightarrow> (16 word \<times> bytes) option" where
  "retrieveInt16 host b = do {
     (out, b) \<leftarrow> retrieveRaw 2 b;
     Some (if length out \<noteq> 2 then 0 else betoh host 2 (host_word host out), b)
   }"

definition retrieveUInt16 :: "endian \<Rightarrow> bytes \<Rightarrow> (16 word \<times> bytes) option" where
  "retrieveUInt16 host b = do {
     (out, b) \<leftarrow> retrieveRaw 2 b;
     Some (if length out \<noteq> 2 then 0 else betoh host 2 (host_word host out), b)
   }"

definition retrieveInt32 :: "endian \<Rightarrow> bytes \<Rightarrow> (32 word \<times> bytes) option" where
  "retrieveInt32 host b = do {
     (out, b) \<leftarrow> retrieveRaw 4 b;
     Some (if length out \<noteq> 4 then 0 else betoh host 4 (host_word host out), b)
   }"

definition retrieveUInt32 :: "endian \<Rightarrow> bytes \<Rightarrow> (32 word \<times> bytes) option" where
  "retrieveUInt32 host b = do {
     (out, b) \<leftarrow> retrieveRaw 4 b;
     Some (if length out \<noteq> 4 then 0 else betoh host 4 (host_word host out), b)
   }"

definition retrieveInt64 :: "endian \<Rightarrow> bytes \<Rightarrow> (64 word \<times> bytes) option" where
  "retrieveInt64 host b = do {
     (out, b) \<leftarrow> retrieveRaw 8 b;
     Some (if length out \<noteq> 8 then 0 else betoh host 8 (host_word host out), b)
   }"

definition retrieveUInt64 :: "endian \<Rightarrow> bytes \<Rightarrow> (64 word \<times> bytes) option" where
  "retrieveUInt64 host b = do {
     (out, b) \<leftarrow> retrieveRaw 8 b;
     Some (if length out \<noteq> 8 then 0 else betoh host 8 (host_word host out), b)
   }"

definition retrieveFloat :: "endian \<Rightarrow> bytes \<Rightarrow> (32 word \<times> bytes) option" where
  "retrieveFloat host b = do {
     (out, b) \<leftarrow> retrieveRaw 4 b;
     Some (if length out \<noteq> 4 then 0 else host_word host out, b)
   }"

definition retrieveDouble :: "endian \<Rightarrow> bytes \<Rightarrow> (64 word \<times> bytes) option" where
  "retrieveDouble host b = do {
     (out, b) \<leftarrow> retrieveRaw 8 b;
     Some (if length out \<noteq> 8 then 0 else host_word host out, b)
   }"

text \<open>The buffer has \<open>len\<close> bytes and all of them are written when any is.\<close>

definition retrieveString :: "nat \<Rightarrow> bytes \<Rightarrow> (byte list \<times> bytes) option" where
  "retrieveString len b = do {
     (out, b) \<leftarrow> retrieveRaw len b;
     Some (if length out \<noteq> 0 then out @ replicate (len - length out) 0 else [], b)
   }"

definition readableBytes :: "bytes \<Rightarrow> nat" where
  "readableBytes b = m_availableSizeToRead b"

definition writeableBytes :: "bytes \<Rightarrow> nat" where
  "writeableBytes b = m_availableSizeToWrite b"

subsection \<open>Round trips\<close>

interpretation be16: typed_queue newByteArray writeRaw retrieveRaw contents ba_inv
    "be_bytes 2 :: 16 word \<Rightarrow> byte list" be_word 2
  by unfold_locales simp_all

interpretation be32: typed_queue newByteArray writeRaw retrieveRaw contents ba_inv
    "be_bytes 4 :: 32 word \<Rightarrow> byte list" be_word 4
  by unfold_locales simp_all

interpretation be64: typed_queue newByteArray writeRaw retrieveRaw contents ba_inv
    "be_bytes 8 :: 64 word \<Rightarrow> byte list" be_word 8
  by unfold_locales simp_all

interpretation host8: typed_queue newByteArray writeRaw retrieveRaw contents ba_inv
    "host_bytes host 1 :: 8 word \<Rightarrow> byte list" "host_word host" 1 for host
  by unfold_locales (simp_all add: host_word_bytes)

interpretation host32: typed_queue newByteArray writeRaw retrieveRaw contents ba_inv
    "host_bytes host 4 :: 32 word \<Rightarrow> byte list" "host_word host" 4 for host
  by unfold_locales (simp_all add: host_word_bytes)

interpretation host64: typed_queue newByteArray writeRaw retrieveRaw contents ba_inv
    "host_bytes host 8 :: 64 word \<Rightarrow> byte list" "host_word host" 8 for host
  by unfold_locales (simp_all add: host_word_bytes)

text \<open>Every typed operation is the queue operation on the bytes of the value.\<close>

lemma write_integers:
  "writeInt16 h v16 b = writeRaw (be_bytes 2 v16) b" "writeUInt16 h v16 b = writeRaw (be_bytes 2 v16) b"
  "writeInt32 h v32 b = writeRaw (be_bytes 4 v32) b" "writeUInt32 h v32 b = writeRaw (be_bytes 4 v32) b"
  "writeInt64 h v64 b = writeRaw (be_bytes 8 v64) b" "writeUInt64 h v64 b = writeRaw (be_bytes 8 v64) b"
  by (simp_all add: writeInt16_def writeUInt16_def writeInt32_def writeUInt32_def
      writeInt64_def writeUInt64_def host_bytes_htobe)

lemma read_value:
  assumes "8 * n = LENGTH('a)"
  shows "do { (out, b) \<leftarrow> retrieveRaw n b;
              Some (if length out \<noteq> n then 0 else betoh h n (host_word h out :: 'a::len word), b) }
       = map_option (\<lambda>(out, q'). (if length out \<noteq> n then 0 else be_word out, q')) (retrieveRaw n b)"
  using assms betoh_host_word [where 'a = 'a and e = h]
  by (cases "retrieveRaw n b") auto

lemma read_integers:
  "retrieveInt16 h b = be16.pop_value 0 b" "retrieveUInt16 h b = be16.pop_value 0 b"
  "retrieveInt32 h b = be32.pop_value 0 b" "retrieveUInt32 h b = be32.pop_value 0 b"
  "retrieveInt64 h b = be64.pop_value 0 b" "retrieveUInt64 h b = be64.pop_value 0 b"
  unfolding retrieveInt16_def retrieveUInt16_def retrieveInt32_def retrieveUInt32_def
    retrieveInt64_def retrieveUInt64_def be16.pop_value_def be32.pop_value_def be64.pop_value_def
  by (rule read_value, simp)+

lemma read_host_value:
  "do { (out, b) \<leftarrow> retrieveRaw n b;
        Some (if length out \<noteq> n then 0 else host_word h out, b) }
   = map_option (\<lambda>(out, q'). (if length out \<noteq> n then 0 else host_word h out, q')) (retrieveRaw n b)"
  by (cases "retrieveRaw n b") auto

lemma read_host_values:
  "retrieveInt8 h b = host8.pop_value h 0 b" "retrieveUInt8 h b = host8.pop_value h 0 b"
  "retrieveFloat h b = host32.pop_value h 0 b" "retrieveDouble h b = host64.pop_value h 0 b"
  unfolding retrieveInt8_def retrieveUInt8_def retrieveFloat_def retrieveDouble_def
    host8.pop_value_def host32.pop_value_def host64.pop_value_def
  by (rule read_host_value)+

lemmas write_host_values =
  writeInt8_def writeUInt8_def writeFloat_def writeDouble_def

lemmas typed_io = write_integers read_integers write_host_values read_host_values

text \<open>The bytes of a value, the most significant first.\<close>

lemma be_bytes_map: "be_bytes n w = map (\<lambda>k. ucast (drop_bit (8 * k) w)) (rev [0..<n])"
proof (induction n arbitrary: w)
  case (Suc n)
  have "[0..<Suc n] = 0 # map Suc [0..<n]" by (simp add: upt_conv_Cons map_Suc_upt del: upt_Suc)
  then have "rev [0..<Suc n] = map Suc (rev [0..<n]) @ [0]" by (simp add: rev_map del: upt_Suc)
  then show ?case by (simp add: Suc drop_bit_drop_bit add.commute del: upt_Suc)
qed simp

lemma be_bytes_explicit:
  "be_bytes 2 w = map (\<lambda>k. ucast (drop_bit (8 * k) w)) [1, 0]"
  "be_bytes 4 w = map (\<lambda>k. ucast (drop_bit (8 * k) w)) [3, 2, 1, 0]"
  "be_bytes 8 w = map (\<lambda>k. ucast (drop_bit (8 * k) w)) [7, 6, 5, 4, 3, 2, 1, 0]"
  unfolding be_bytes_map by (simp_all add: upt_conv_Cons)

text \<open>C6. An integer of two, four or eight bytes written on a host of either byte order is
  queued behind what is already there as its bytes, the most significant first, and a host of
  either byte order reads the same integer back once it has drained what came before.\<close>

theorem integer_roundtrip:
  assumes "ba_inv b"
  shows "(\<exists>b1 b2 b3. writeInt16 h1 v16 b = Some b1
            \<and> contents b1 = contents b @ map (\<lambda>k. ucast (drop_bit (8 * k) v16)) [1, 0]
            \<and> retrieveRaw (length (contents b)) b1 = Some (contents b, b2)
            \<and> retrieveInt16 h2 b2 = Some (v16, b3) \<and> ba_inv b3 \<and> contents b3 = [])
       \<and> (\<exists>b1 b2 b3. writeInt32 h1 v32 b = Some b1
            \<and> contents b1 = contents b @ map (\<lambda>k. ucast (drop_bit (8 * k) v32)) [3, 2, 1, 0]
            \<and> retrieveRaw (length (contents b)) b1 = Some (contents b, b2)
            \<and> retrieveInt32 h2 b2 = Some (v32, b3) \<and> ba_inv b3 \<and> contents b3 = [])
       \<and> (\<exists>b1 b2 b3. writeInt64 h1 v64 b = Some b1
            \<and> contents b1 = contents b @ map (\<lambda>k. ucast (drop_bit (8 * k) v64)) [7, 6, 5, 4, 3, 2, 1, 0]
            \<and> retrieveRaw (length (contents b)) b1 = Some (contents b, b2)
            \<and> retrieveInt64 h2 b2 = Some (v64, b3) \<and> ba_inv b3 \<and> contents b3 = [])"
  unfolding typed_io be_bytes_explicit [symmetric] using assms
  by (intro conjI be16.typed_fifo be32.typed_fifo be64.typed_fifo)

theorem integer_roundtrip_witness:
  "\<exists>b1 b2 b3. writeInt16 LittleEndian 258 newByteArray = Some b1 \<and> contents b1 = [1, 2]
     \<and> retrieveRaw 0 b1 = Some ([], b2) \<and> retrieveInt16 BigEndian b2 = Some (258, b3)"
proof -
  have "map (\<lambda>k. ucast (drop_bit (8 * k) (258 :: 16 word))) [1, 0] = ([1, 2] :: byte list)" by code_simp
  then show ?thesis using integer_roundtrip [OF ba_inv_new, of LittleEndian 258 BigEndian 0 0]
    by (simp only: contents_new append_Nil list.size) blast
qed

text \<open>The same for one-byte integers and, on hosts of the same byte order, for
  floating-point values, whose bytes are not reordered.\<close>

lemma host_value_roundtrip:
  assumes "ba_inv b"
  shows "(\<exists>b1 b2 b3. writeInt8 h v8 b = Some b1 \<and> contents b1 = contents b @ host_bytes h 1 v8
            \<and> retrieveRaw (length (contents b)) b1 = Some (contents b, b2)
            \<and> retrieveInt8 h b2 = Some (v8, b3) \<and> ba_inv b3 \<and> contents b3 = [])
       \<and> (\<exists>b1 b2 b3. writeFloat h v32 b = Some b1 \<and> contents b1 = contents b @ host_bytes h 4 v32
            \<and> retrieveRaw (length (contents b)) b1 = Some (contents b, b2)
            \<and> retrieveFloat h b2 = Some (v32, b3) \<and> ba_inv b3 \<and> contents b3 = [])
       \<and> (\<exists>b1 b2 b3. writeDouble h v64 b = Some b1 \<and> contents b1 = contents b @ host_bytes h 8 v64
            \<and> retrieveRaw (length (contents b)) b1 = Some (contents b, b2)
            \<and> retrieveDouble h b2 = Some (v64, b3) \<and> ba_inv b3 \<and> contents b3 = [])"
  unfolding typed_io using assms
  by (intro conjI host8.typed_fifo host32.typed_fifo host64.typed_fifo)

theorem host_value_roundtrip_witness:
  "\<exists>b1 b2 b3. writeFloat LittleEndian 1065353216 newByteArray = Some b1
     \<and> retrieveRaw 0 b1 = Some ([], b2) \<and> retrieveFloat LittleEndian b2 = Some (1065353216, b3)"
  using host_value_roundtrip [OF ba_inv_new, of LittleEndian 0 1065353216 0] by auto

end
