(* ===== verification/Errors.thy ===== *)
theory Errors
  imports Prelude
begin

text \<open>
  Error values: \<^verbatim>\<open>errno\<close>, the two exception classes of
  \<^verbatim>\<open>include/error/Exception.h\<close>, and the enumeration
  \<^verbatim>\<open>SocketError\<close> with its conversions (\<^verbatim>\<open>src/error/SocketError.cpp\<close>),
  which the table \<^verbatim>\<open>include/error/SocketError.def\<close> generates.
  \<^verbatim>\<open>strerror\<close> belongs to the C library and is a parameter.
\<close>

text \<open>The codes that some wrapper or comment treats in a way of its own; \<^verbatim>\<open>EOther\<close> are
  all others, for which every \<^verbatim>\<open>switch\<close> only breaks.\<close>

datatype (plugins only: code size) errno =
    EPERM | EINTR | EBADF | EAGAIN | ENOMEM | EACCES | ENODEV | ENFILE | EMFILE | ENOSPC | EPIPE
  | ENOTSOCK | EDESTADDRREQ | EMSGSIZE | EOPNOTSUPP | EAFNOSUPPORT | EADDRINUSE | EADDRNOTAVAIL
  | ENETUNREACH | ECONNABORTED | ECONNRESET | ENOBUFS | EISCONN | ENOTCONN | ETIMEDOUT
  | ECONNREFUSED | EINPROGRESS | EOther nat

datatype netpp_exception = ResourceLimitException errno | SocketException errno

text \<open>A call that throws an exception or returns a value.\<close>

type_synonym 'a result = "netpp_exception + 'a"

datatype SocketError =
    E_CONNABORTED | E_ADDRINUSE | E_ADDRNOTAVAIL | E_CONNREFUSED | E_INPROGRESS | E_NETUNREACH
  | E_TIMEDOUT | E_NOERROR | E_POLLERR | E_UNKOWN | E_BADF

fun getError :: "errno \<Rightarrow> SocketError" where
  "getError ECONNABORTED = E_CONNABORTED"
| "getError EADDRINUSE = E_ADDRINUSE"
| "getError EADDRNOTAVAIL = E_ADDRNOTAVAIL"
| "getError ECONNREFUSED = E_CONNREFUSED"
| "getError EINPROGRESS = E_INPROGRESS"
| "getError ENETUNREACH = E_NETUNREACH"
| "getError ETIMEDOUT = E_TIMEDOUT"
| "getError EBADF = E_BADF"
| "getError _ = E_UNKOWN"

text \<open>The local \<^verbatim>\<open>err\<close> of \<^verbatim>\<open>errorAsString\<close>: \<^term>\<open>None\<close> is the initial
  value -1, which the codes without an \<^verbatim>\<open>errno\<close> keep.\<close>

fun error_errno :: "SocketError \<Rightarrow> errno option" where
  "error_errno E_CONNABORTED = Some ECONNABORTED"
| "error_errno E_ADDRINUSE = Some EADDRINUSE"
| "error_errno E_ADDRNOTAVAIL = Some EADDRNOTAVAIL"
| "error_errno E_CONNREFUSED = Some ECONNREFUSED"
| "error_errno E_INPROGRESS = Some EINPROGRESS"
| "error_errno E_NETUNREACH = Some ENETUNREACH"
| "error_errno E_TIMEDOUT = Some ETIMEDOUT"
| "error_errno E_NOERROR = None"
| "error_errno E_POLLERR = None"
| "error_errno E_UNKOWN = None"
| "error_errno E_BADF = Some EBADF"

definition errorAsString :: "(errno option \<Rightarrow> string) \<Rightarrow> SocketError \<Rightarrow> string" where
  "errorAsString strerror code = strerror (error_errno code)"

fun exception_errno :: "netpp_exception \<Rightarrow> errno" where
  "exception_errno (ResourceLimitException e) = e"
| "exception_errno (SocketException e) = e"

definition exception_what :: "(errno option \<Rightarrow> string) \<Rightarrow> netpp_exception \<Rightarrow> string" where
  "exception_what strerror x = strerror (Some (exception_errno x))"

definition getErrorCode :: "netpp_exception \<Rightarrow> SocketError" where
  "getErrorCode x = getError (exception_errno x)"

lemma error_errno_getError: "error_errno s = Some e \<longleftrightarrow> getError e = s \<and> s \<noteq> E_UNKOWN"
  by (cases s; cases e) simp_all

text \<open>An exception's enumerated code and its \<^verbatim>\<open>errno\<close> describe the same error: either
  the code is \<^verbatim>\<open>E_UNKOWN\<close>, or turning it into a string gives the exception's own text.\<close>

lemma error_string_roundtrip:
  "errorAsString strerror (getErrorCode x) =
     (if getErrorCode x = E_UNKOWN then strerror None else exception_what strerror x)"
  using error_errno_getError [of "getErrorCode x" "exception_errno x"]
  by (auto simp: errorAsString_def exception_what_def getErrorCode_def)

end
