(* ===== verification/Stub.thy ===== *)
theory Stub
  imports Errors
begin

text \<open>
  The system-call wrappers (\<^verbatim>\<open>src/internal/stub/\<close>): they call the kernel, restart
  some calls on \<^verbatim>\<open>EINTR\<close> and turn some errors into exceptions. The kernel is a
  parameter: the results of the successive calls, a function from the call's number.
  \<^verbatim>\<open>xxx_switch\<close> is the \<^verbatim>\<open>switch\<close> of the wrapper; a case that only breaks, and
  a code the switch does not name, is \<^term>\<open>None\<close>.
\<close>

datatype sysret = SysOk int | SysErr errno

text \<open>\<^verbatim>\<open>goto restart\<close> while the call was interrupted.\<close>

partial_function (option) restart :: "(nat \<Rightarrow> sysret) \<Rightarrow> nat \<Rightarrow> sysret option" where
  "restart calls k =
     (case calls k of
        SysOk n \<Rightarrow> Some (SysOk n)
      | SysErr e \<Rightarrow> if e = EINTR then restart calls (k + 1) else Some (SysErr e))"

text \<open>The wrapper's result: the value of the call, -1 or an exception.\<close>

fun finish :: "(errno \<Rightarrow> netpp_exception option) \<Rightarrow> sysret \<Rightarrow> int result" where
  "finish switch (SysOk n) = Inr n"
| "finish switch (SysErr e) = (case switch e of Some x \<Rightarrow> Inl x | None \<Rightarrow> Inr (- 1))"

definition quiet :: "errno \<Rightarrow> netpp_exception option" where
  "quiet e = None"

subsection \<open>\<^verbatim>\<open>IO.cpp\<close>\<close>

definition stub_close :: "sysret \<Rightarrow> int" where
  "stub_close r = (case r of SysOk n \<Rightarrow> n | SysErr _ \<Rightarrow> - 1)"

definition stub_write :: "(nat \<Rightarrow> sysret) \<Rightarrow> int option" where
  "stub_write calls = map_option (\<lambda>r. case r of SysOk n \<Rightarrow> n | SysErr _ \<Rightarrow> - 1) (restart calls 0)"

definition stub_read :: "(nat \<Rightarrow> sysret) \<Rightarrow> int option" where
  "stub_read calls = map_option (\<lambda>r. case r of SysOk n \<Rightarrow> n | SysErr _ \<Rightarrow> - 1) (restart calls 0)"

definition pipe2_switch :: "errno \<Rightarrow> netpp_exception option" where
  "pipe2_switch e = (if e \<in> {EMFILE, ENFILE} then Some (ResourceLimitException e) else None)"

definition stub_pipe2 :: "sysret \<Rightarrow> int result" where
  "stub_pipe2 r = finish pipe2_switch r"

definition sendmsg_switch :: "errno \<Rightarrow> netpp_exception option" where
  "sendmsg_switch e =
     (if e \<in> {ECONNRESET, ENOTCONN, EPIPE} then Some (SocketException e)
      else if e = ENOMEM then Some (ResourceLimitException e) else None)"

definition stub_sendmsg :: "(nat \<Rightarrow> sysret) \<Rightarrow> int result option" where
  "stub_sendmsg calls = map_option (finish sendmsg_switch) (restart calls 0)"

definition recvmsg_switch :: "errno \<Rightarrow> netpp_exception option" where
  "recvmsg_switch e =
     (if e = ENOMEM then Some (ResourceLimitException e)
      else if e \<in> {ECONNREFUSED, ENOTCONN} then Some (SocketException e) else None)"

definition stub_recvmsg :: "(nat \<Rightarrow> sysret) \<Rightarrow> int result option" where
  "stub_recvmsg calls = map_option (finish recvmsg_switch) (restart calls 0)"

definition eventfd_switch :: "errno \<Rightarrow> netpp_exception option" where
  "eventfd_switch e =
     (if e \<in> {EMFILE, ENFILE, ENODEV, ENOMEM} then Some (ResourceLimitException e) else None)"

definition stub_eventfd :: "sysret \<Rightarrow> int result" where
  "stub_eventfd r = finish eventfd_switch r"

definition stub_eventfd_read :: "sysret \<Rightarrow> int" where
  "stub_eventfd_read r = (case r of SysOk n \<Rightarrow> n | SysErr _ \<Rightarrow> - 1)"

definition stub_eventfd_write :: "sysret \<Rightarrow> int" where
  "stub_eventfd_write r = (case r of SysOk n \<Rightarrow> n | SysErr _ \<Rightarrow> - 1)"

subsection \<open>\<^verbatim>\<open>Socket.cpp\<close>\<close>

definition socket_switch :: "errno \<Rightarrow> netpp_exception option" where
  "socket_switch e =
     (if e \<in> {EACCES, EAFNOSUPPORT} then Some (SocketException e)
      else if e \<in> {EMFILE, ENFILE, ENOBUFS, ENOMEM} then Some (ResourceLimitException e) else None)"

definition stub_socket :: "sysret \<Rightarrow> int result" where
  "stub_socket r = finish socket_switch r"

definition bind_switch :: "errno \<Rightarrow> netpp_exception option" where
  "bind_switch e =
     (if e = EADDRINUSE then Some (SocketException e)
      else if e = ENOMEM then Some (ResourceLimitException e) else None)"

definition stub_bind :: "sysret \<Rightarrow> int result" where
  "stub_bind r = finish bind_switch r"

definition listen_switch :: "errno \<Rightarrow> netpp_exception option" where
  "listen_switch e =
     (if e \<in> {EBADF, EDESTADDRREQ, ENOTSOCK, EOPNOTSUPP, EACCES} then Some (SocketException e)
      else if e = ENOBUFS then Some (ResourceLimitException e) else None)"

definition stub_listen :: "sysret \<Rightarrow> int result" where
  "stub_listen r = finish listen_switch r"

definition accept4_switch :: "errno \<Rightarrow> netpp_exception option" where
  "accept4_switch e =
     (if e = ECONNABORTED then Some (SocketException e)
      else if e \<in> {EMFILE, ENFILE, ENOBUFS, ENOMEM, EPERM} then Some (ResourceLimitException e)
      else None)"

definition stub_accept4 :: "sysret \<Rightarrow> int result" where
  "stub_accept4 r = finish accept4_switch r"

definition connect_switch :: "errno \<Rightarrow> netpp_exception option" where
  "connect_switch e =
     (if e \<in> {EADDRINUSE, EADDRNOTAVAIL, ECONNREFUSED, EINPROGRESS, ENETUNREACH, ETIMEDOUT}
      then Some (SocketException e) else None)"

definition stub_connect :: "sysret \<Rightarrow> int result" where
  "stub_connect r = finish connect_switch r"

definition stub_shutdown :: "sysret \<Rightarrow> int" where
  "stub_shutdown r = (case r of SysOk n \<Rightarrow> n | SysErr _ \<Rightarrow> - 1)"

definition stub_getsockopt :: "sysret \<Rightarrow> int" where
  "stub_getsockopt r = (case r of SysOk n \<Rightarrow> n | SysErr _ \<Rightarrow> - 1)"

subsection \<open>\<^verbatim>\<open>Epoll.cpp\<close>\<close>

definition epoll_create1_switch :: "errno \<Rightarrow> netpp_exception option" where
  "epoll_create1_switch e =
     (if e \<in> {EMFILE, ENFILE, ENOMEM} then Some (ResourceLimitException e) else None)"

definition stub_epoll_create1 :: "sysret \<Rightarrow> int result" where
  "stub_epoll_create1 r = finish epoll_create1_switch r"

definition epoll_ctl_switch :: "errno \<Rightarrow> netpp_exception option" where
  "epoll_ctl_switch e = (if e \<in> {ENOMEM, ENOSPC} then Some (ResourceLimitException e) else None)"

definition stub_epoll_ctl :: "sysret \<Rightarrow> int result" where
  "stub_epoll_ctl r = finish epoll_ctl_switch r"

definition stub_epoll_wait :: "(nat \<Rightarrow> sysret) \<Rightarrow> int option" where
  "stub_epoll_wait calls = map_option (\<lambda>r. case r of SysOk n \<Rightarrow> n | SysErr _ \<Rightarrow> - 1) (restart calls 0)"

subsection \<open>The documented exceptions\<close>

text \<open>The wrappers that may throw, and the codes their comments name.\<close>

datatype stub_fn = F_pipe2 | F_sendmsg | F_recvmsg | F_eventfd | F_socket | F_bind | F_listen
  | F_accept4 | F_connect | F_epoll_create1 | F_epoll_ctl

fun switch_of :: "stub_fn \<Rightarrow> errno \<Rightarrow> netpp_exception option" where
  "switch_of F_pipe2 = pipe2_switch"
| "switch_of F_sendmsg = sendmsg_switch"
| "switch_of F_recvmsg = recvmsg_switch"
| "switch_of F_eventfd = eventfd_switch"
| "switch_of F_socket = socket_switch"
| "switch_of F_bind = bind_switch"
| "switch_of F_listen = listen_switch"
| "switch_of F_accept4 = accept4_switch"
| "switch_of F_connect = connect_switch"
| "switch_of F_epoll_create1 = epoll_create1_switch"
| "switch_of F_epoll_ctl = epoll_ctl_switch"

fun doc_socket :: "stub_fn \<Rightarrow> errno list" where
  "doc_socket F_sendmsg = [ECONNRESET, EDESTADDRREQ, EISCONN, EMSGSIZE, ENOTCONN, EPIPE]"
| "doc_socket F_recvmsg = [ECONNREFUSED, ENOTCONN]"
| "doc_socket F_socket = [EACCES, EAFNOSUPPORT]"
| "doc_socket F_bind = [EADDRINUSE]"
| "doc_socket F_listen = [EADDRINUSE]"
| "doc_socket F_accept4 = [ECONNABORTED]"
| "doc_socket F_connect =
     [EADDRINUSE, EADDRNOTAVAIL, ECONNREFUSED, EINPROGRESS, ENETUNREACH, ETIMEDOUT]"
| "doc_socket _ = []"

fun doc_resource :: "stub_fn \<Rightarrow> errno list" where
  "doc_resource F_pipe2 = [EMFILE, ENFILE]"
| "doc_resource F_sendmsg = [ENOMEM]"
| "doc_resource F_recvmsg = [ENOMEM]"
| "doc_resource F_eventfd = [EMFILE, ENFILE, ENODEV, ENOMEM]"
| "doc_resource F_socket = [EMFILE, ENFILE, ENOBUFS, ENOMEM]"
| "doc_resource F_bind = [ENOMEM]"
| "doc_resource F_accept4 = [EMFILE, ENFILE, ENOBUFS, ENOMEM, EPERM]"
| "doc_resource F_epoll_create1 = [EMFILE, ENFILE, ENOMEM]"
| "doc_resource F_epoll_ctl = [ENOMEM, ENOSPC]"
| "doc_resource _ = []"

definition documented :: "stub_fn \<Rightarrow> errno \<Rightarrow> netpp_exception option" where
  "documented f e =
     (if e \<in> set (doc_socket f) then Some (SocketException e)
      else if e \<in> set (doc_resource f) then Some (ResourceLimitException e) else None)"

lemmas switch_defs = pipe2_switch_def sendmsg_switch_def recvmsg_switch_def eventfd_switch_def
  socket_switch_def bind_switch_def listen_switch_def accept4_switch_def connect_switch_def
  epoll_create1_switch_def epoll_ctl_switch_def

text \<open>Every wrapper that may throw throws exactly on the codes its comment documents,
  as the documented class, except \<^verbatim>\<open>sendmsg\<close> on three codes that it lets pass and
  \<^verbatim>\<open>listen\<close> on seven codes.\<close>

lemma stub_exceptions_documented:
  "switch_of f e = documented f e \<longleftrightarrow>
     \<not> (f = F_sendmsg \<and> e \<in> {EDESTADDRREQ, EISCONN, EMSGSIZE}
      \<or> f = F_listen \<and> e \<in> {EADDRINUSE, EBADF, EDESTADDRREQ, ENOTSOCK, EOPNOTSUPP, EACCES, ENOBUFS})"
  by (cases f) (auto simp: documented_def switch_defs)

subsection \<open>Restarted calls\<close>

lemma restart_skips:
  "(\<forall>j<n. calls (k + j) = SysErr EINTR) \<Longrightarrow> restart calls k = restart calls (k + n)"
proof (induction n arbitrary: k)
  case (Suc n)
  from Suc.prems have "calls k = SysErr EINTR" by (metis add.right_neutral zero_less_Suc)
  then have "restart calls k = restart calls (Suc k)" by (subst restart.simps) simp
  also have "\<dots> = restart calls (Suc k + n)"
    using Suc.prems by (intro Suc.IH) auto
  finally show ?case by simp
qed simp

lemma restart_stops: "calls k \<noteq> SysErr EINTR \<Longrightarrow> restart calls k = Some (calls k)"
  by (subst restart.simps) (auto split: sysret.splits)

lemma restart_first:
  assumes "\<forall>j<n. calls j = SysErr EINTR" "calls n \<noteq> SysErr EINTR"
  shows "restart calls 0 = Some (calls n)"
  using restart_skips [of n calls 0] restart_stops [of calls n] assms by simp

lemma restart_result: "restart calls k = Some r \<Longrightarrow> \<exists>n \<ge> k. r = calls n \<and> r \<noteq> SysErr EINTR"
proof (rule restart.raw_induct [of "\<lambda>calls k r. \<exists>n \<ge> k. r = calls n \<and> r \<noteq> SysErr EINTR", rotated])
  fix f :: "(nat \<Rightarrow> sysret) \<Rightarrow> nat \<Rightarrow> sysret option" and calls k r
  assume IH: "\<And>calls k r. f calls k = Some r \<Longrightarrow> \<exists>n \<ge> k. r = calls n \<and> r \<noteq> SysErr EINTR"
    and "(case calls k of SysOk n \<Rightarrow> Some (SysOk n)
      | SysErr e \<Rightarrow> if e = EINTR then f calls (k + 1) else Some (SysErr e)) = Some r"
  then show "\<exists>n \<ge> k. r = calls n \<and> r \<noteq> SysErr EINTR"
    by (cases "calls k") (auto split: if_splits dest!: IH intro: exI Suc_leD)
qed

lemma restart_total: "restart calls 0 \<noteq> None \<longleftrightarrow> (\<exists>n. calls n \<noteq> SysErr EINTR)"
proof
  assume "\<exists>n. calls n \<noteq> SysErr EINTR"
  then have last: "calls (LEAST n. calls n \<noteq> SysErr EINTR) \<noteq> SysErr EINTR"
    by (rule LeastI_ex)
  have "\<forall>j<(LEAST n. calls n \<noteq> SysErr EINTR). calls j = SysErr EINTR"
    by (blast dest: not_less_Least)
  from restart_first [OF this last] show "restart calls 0 \<noteq> None" by simp
next
  assume "restart calls 0 \<noteq> None"
  then show "\<exists>n. calls n \<noteq> SysErr EINTR" using restart_result by blast
qed

text \<open>\<^verbatim>\<open>sendmsg\<close> and \<^verbatim>\<open>recvmsg\<close> return (or throw) if and only if some call is
  not interrupted, and then with the outcome of the first such call.\<close>

theorem restarted_calls_return:
  "(stub_sendmsg calls \<noteq> None \<longleftrightarrow> (\<exists>n. calls n \<noteq> SysErr EINTR))
   \<and> (\<forall>n. (\<forall>j<n. calls j = SysErr EINTR) \<and> calls n \<noteq> SysErr EINTR \<longrightarrow>
        stub_sendmsg calls = Some (finish sendmsg_switch (calls n))
      \<and> stub_recvmsg calls = Some (finish recvmsg_switch (calls n)))"
proof (intro conjI allI impI)
  show "(stub_sendmsg calls \<noteq> None) = (\<exists>n. calls n \<noteq> SysErr EINTR)"
    using restart_total [of calls] by (simp add: stub_sendmsg_def)
next
  fix n
  assume "(\<forall>j<n. calls j = SysErr EINTR) \<and> calls n \<noteq> SysErr EINTR"
  then have "restart calls 0 = Some (calls n)" by (blast intro: restart_first)
  then show "stub_sendmsg calls = Some (finish sendmsg_switch (calls n))"
    "stub_recvmsg calls = Some (finish recvmsg_switch (calls n))"
    by (simp_all add: stub_sendmsg_def stub_recvmsg_def)
qed

lemma restarted_calls_return_witness:
  "stub_sendmsg (\<lambda>k. if k < 2 then SysErr EINTR else SysOk 7) = Some (Inr 7)"
  using restarted_calls_return [of "\<lambda>k. if k < 2 then SysErr EINTR else SysOk 7",
    THEN conjunct2, THEN spec, of 2] by simp

end
