(* ===== verification/Socket.thy ===== *)
theory Socket
  imports Stub
begin

text \<open>
  \<^verbatim>\<open>Socket\<close> (\<^verbatim>\<open>src/internal/socket/Socket.cpp\<close>): a descriptor and an address.
  The address type belongs to the operating system and is a type parameter; each kernel
  call's result is an argument.
\<close>

record 'addr Socket =
  m_socketFd :: int
  m_addr :: 'addr

definition newSocket :: "'addr \<Rightarrow> sysret \<Rightarrow> 'addr Socket result" where
  "newSocket addr socket_call =
     (case stub_socket socket_call of
        Inl x \<Rightarrow> Inl x
      | Inr fd \<Rightarrow> Inr \<lparr>m_socketFd = fd, m_addr = addr\<rparr>)"

definition socketOfFd :: "int \<Rightarrow> 'addr \<Rightarrow> 'addr Socket result" where
  "socketOfFd fd addr =
     (if fd = - 1 then Inl (SocketException EBADF)
      else Inr \<lparr>m_socketFd = fd, m_addr = addr\<rparr>)"

definition socket_listen :: "sysret \<Rightarrow> sysret \<Rightarrow> unit result" where
  "socket_listen bind_call listen_call =
     (case stub_bind bind_call of
        Inl x \<Rightarrow> Inl x
      | Inr _ \<Rightarrow> (case stub_listen listen_call of Inl x \<Rightarrow> Inl x | Inr _ \<Rightarrow> Inr ()))"

definition socket_accept :: "sysret \<Rightarrow> 'addr \<Rightarrow> 'addr Socket result" where
  "socket_accept accept_call peer =
     (case stub_accept4 accept_call of Inl x \<Rightarrow> Inl x | Inr fd \<Rightarrow> socketOfFd fd peer)"

definition socket_connect :: "sysret \<Rightarrow> unit result" where
  "socket_connect connect_call =
     (case stub_connect connect_call of Inl x \<Rightarrow> Inl x | Inr _ \<Rightarrow> Inr ())"

text \<open>\<^verbatim>\<open>getError\<close>: \<open>optval\<close> is the value the kernel stores, \<^term>\<open>None\<close> for 0.\<close>

definition socket_getError :: "sysret \<Rightarrow> errno option \<Rightarrow> SocketError" where
  "socket_getError getsockopt_call optval =
     (if stub_getsockopt getsockopt_call = 0
      then (case optval of None \<Rightarrow> E_NOERROR | Some e \<Rightarrow> getError e)
      else E_NOERROR)"

lemmas socket_ops = newSocket_def socketOfFd_def socket_listen_def socket_accept_def
  socket_connect_def stub_socket_def stub_bind_def stub_listen_def stub_accept4_def stub_connect_def

text \<open>\<^verbatim>\<open>accept\<close> never builds a socket on an invalid descriptor: every failed call,
  \<^verbatim>\<open>EAGAIN\<close> included, ends in an exception, with the kernel's code when the wrapper
  knows it and \<^verbatim>\<open>EBADF\<close> otherwise.\<close>

lemma accept_valid_or_throws:
  "socket_accept call peer =
     (case call of
        SysOk fd \<Rightarrow> if fd = - 1 then Inl (SocketException EBADF)
                   else Inr \<lparr>m_socketFd = fd, m_addr = peer\<rparr>
      | SysErr e \<Rightarrow> Inl (if e = ECONNABORTED then SocketException e
                      else if e \<in> {EMFILE, ENFILE, ENOBUFS, ENOMEM, EPERM} then ResourceLimitException e
                      else SocketException EBADF))"
  by (cases call) (auto simp: socket_ops accept4_switch_def)

text \<open>\<^verbatim>\<open>listen\<close> goes on after a failed \<^verbatim>\<open>bind\<close> unless the failure is
  \<^verbatim>\<open>EADDRINUSE\<close> or \<^verbatim>\<open>ENOMEM\<close>: with any other \<^verbatim>\<open>bind\<close> error its
  outcome is that of the kernel's \<^verbatim>\<open>listen\<close> alone.\<close>

lemma listen_ignores_bind_errors:
  "socket_listen (SysErr e) call =
     (if e = EADDRINUSE then Inl (SocketException e)
      else if e = ENOMEM then Inl (ResourceLimitException e)
      else socket_listen (SysOk 0) call)"
  by (cases call) (auto simp: socket_ops bind_switch_def)

end
