(* ===== verification/SocketIO.thy ===== *)
theory SocketIO
  imports ByteArray Socket
begin

text \<open>
  Scatter/gather access to byte arrays (\<^verbatim>\<open>src/internal/socket/SocketIO.cpp\<close>): the
  three classes that describe an array as a list of memory blocks for \<^verbatim>\<open>sendmsg\<close> and
  \<^verbatim>\<open>recvmsg\<close> and adjust it after the call, and \<^verbatim>\<open>SocketIO::read\<close>,
  \<^verbatim>\<open>SocketIO::write\<close>, which use them. The kernel's results are arguments.

  A memory block is given by the array, the node, the offset in the node and a length.
\<close>

record iovec =
  iov_array :: nat
  iov_node :: nat
  iov_off :: nat
  iov_len :: nat

subsection \<open>\<^verbatim>\<open>ByteArrayReaderWithLock\<close>\<close>

function reader_loop :: "nat \<Rightarrow> bytes \<Rightarrow> nat \<Rightarrow> nat \<Rightarrow> iovec list option" where
  "reader_loop a b it endOfRead =
     (if it < endOfRead then do {
        node \<leftarrow> nth_opt (m_nodes b) it;
        vs \<leftarrow> reader_loop a b (it + 1) endOfRead;
        Some (if sub64 (node_end node) (node_start node) \<noteq> 0
              then \<lparr>iov_array = a, iov_node = it, iov_off = node_start node,
                    iov_len = sub64 (node_end node) (node_start node)\<rparr> # vs
              else vs)
      } else Some [])"
  by pat_completeness auto
termination
  by (relation "measure (\<lambda>(a, b, it, e). e - it)") auto

declare reader_loop.simps [simp del]

definition reader_vec :: "bytes \<Rightarrow> iovec list option" where
  "reader_vec b = do {
     endOfRead \<leftarrow> endOfReadNode b;
     vs \<leftarrow> reader_loop 0 b (m_readNode b) endOfRead;
     if length vs \<le> sub64 endOfRead (m_readNode b) then Some vs else None
   }"

text \<open>\<^verbatim>\<open>adjustByteArray\<close>: both branches end in \<^verbatim>\<open>unlockedMoveBufferHead\<close>.\<close>

definition adjust_all :: "bytes \<Rightarrow> bytes option" where
  "adjust_all b = do {
     node \<leftarrow> nth_opt (m_nodes b) (m_writeNode b);
     unlockedMoveBufferHead (b\<lparr>m_readNode := m_writeNode b, m_availableSizeToRead := 0,
       m_nodes := (m_nodes b)[m_writeNode b := node\<lparr>node_start := node_end node\<rparr>]\<rparr>)
   }"

definition adjust_part :: "nat \<Rightarrow> bytes \<Rightarrow> bytes option" where
  "adjust_part sz b = do {
     let forward = sz div BufferNodeSize;
     let left = sz mod BufferNodeSize;
     let forward = forward + (if forward \<noteq> 0 \<and> left \<noteq> 0 then 1 else 0);
     let r = m_readNode b + forward;
     node \<leftarrow> nth_opt (m_nodes b) r;
     unlockedMoveBufferHead (b\<lparr>m_readNode := r,
       m_availableSizeToRead := sub64 (m_availableSizeToRead b) sz,
       m_nodes := (m_nodes b)[r := node\<lparr>node_start := node_start node + left\<rparr>]\<rparr>)
   }"

definition reader_adjust :: "nat \<Rightarrow> bytes \<Rightarrow> bytes option" where
  "reader_adjust sz b =
     (if m_availableSizeToRead b \<le> sz then adjust_all b else adjust_part sz b)"

definition reader_available :: "bytes \<Rightarrow> nat" where
  "reader_available b = m_availableSizeToRead b"

subsection \<open>\<^verbatim>\<open>ByteArrayWriterWithLock\<close>\<close>

definition writer_blocks :: "bytes \<Rightarrow> nat" where
  "writer_blocks b = m_availableSizeToWrite b div BufferNodeSize
     + (if m_availableSizeToWrite b mod BufferNodeSize \<noteq> 0 then 1 else 0)"

text \<open>The constructor: the loop fills the array of \<^verbatim>\<open>m_vecLen\<close> blocks without
  looking at its length.\<close>

definition writer_vec :: "bytes \<Rightarrow> iovec list option" where
  "writer_vec b =
     (if 0 < writer_blocks b then
        (let idle = [m_writeNode b..<length (m_nodes b)] in
         if length idle \<le> writer_blocks b
         then Some (map (\<lambda>i. \<lparr>iov_array = 0, iov_node = i, iov_off = node_end (m_nodes b ! i),
                iov_len = sub64 BufferNodeSize (node_end (m_nodes b ! i))\<rparr>) idle)
         else None)
      else Some [])"

function writer_adjust_loop :: "nat \<Rightarrow> nat \<Rightarrow> bytes \<Rightarrow> bytes" where
  "writer_adjust_loop it sz b =
     (if it < length (m_nodes b) then
        let node = m_nodes b ! it;
            e = (if BufferNodeSize \<le> add64 (node_end node) sz then BufferNodeSize
                 else add64 (node_end node) sz);
            b' = b\<lparr>m_nodes := (m_nodes b)[it := node\<lparr>node_end := e\<rparr>]\<rparr>;
            b'' = (if m_writeNode b' + 1 < length (m_nodes b')
                   then b'\<lparr>m_writeNode := m_writeNode b' + 1\<rparr> else b')
        in writer_adjust_loop (it + 1) (sub64 sz (BufferNodeSize - e)) b''
      else b)"
  by pat_completeness auto
termination
  by (relation "measure (\<lambda>(it, sz, b). length (m_nodes b) - it)") (auto simp: Let_def)

declare writer_adjust_loop.simps [simp del]

definition writer_adjust :: "nat \<Rightarrow> bytes \<Rightarrow> bytes option" where
  "writer_adjust sz b = do {
     b \<leftarrow> (if m_availableSizeToWrite b \<le> sz then unlockedAllocIfNotEnough sz b else Some b);
     let b = b\<lparr>m_availableSizeToWrite := sub64 (m_availableSizeToWrite b) sz,
              m_availableSizeToRead := m_availableSizeToRead b + sz\<rparr>;
     Some (writer_adjust_loop (m_writeNode b) sz b)
   }"

definition writer_available :: "bytes \<Rightarrow> nat" where
  "writer_available b = m_availableSizeToWrite b"

subsection \<open>\<^verbatim>\<open>SequentialByteArrayReaderWithLock\<close>\<close>

fun seq_loop :: "nat \<Rightarrow> bytes list \<Rightarrow> iovec list option" where
  "seq_loop a [] = Some []"
| "seq_loop a (b # bs) = do {
     endOfRead \<leftarrow> endOfReadNode b;
     vs \<leftarrow> reader_loop a b (m_readNode b) endOfRead;
     vs' \<leftarrow> seq_loop (a + 1) bs;
     Some (vs @ vs')
   }"

definition seq_vec :: "bytes list \<Rightarrow> iovec list option" where
  "seq_vec bs =
     (let nodeCount = sum_list (map (\<lambda>b. length (m_nodes b)) bs) in
      if nodeCount \<noteq> 0 then do {
        vs \<leftarrow> seq_loop 0 bs;
        if length vs \<le> nodeCount then Some vs else None
      } else Some [])"

fun seq_adjust :: "nat \<Rightarrow> bytes list \<Rightarrow> bytes list option" where
  "seq_adjust sz [] = Some []"
| "seq_adjust sz (b # bs) =
     (let rest = (if m_availableSizeToRead b \<le> sz then sz - m_availableSizeToRead b else 0) in do {
        b' \<leftarrow> (if m_availableSizeToRead b \<le> sz then adjust_all b else adjust_part sz b);
        bs' \<leftarrow> (if rest \<le> 0 then Some bs else seq_adjust rest bs);
        Some (b' # bs')
      })"

definition seq_available :: "bytes list \<Rightarrow> nat" where
  "seq_available bs = sum_list (map m_availableSizeToRead bs)"

subsection \<open>\<^verbatim>\<open>SocketIO::read\<close> and \<^verbatim>\<open>SocketIO::write\<close>\<close>

text \<open>
  Both are written over the interface \<^verbatim>\<open>ByteArray2IOVec\<close>: \<open>adjust\<close> and
  \<open>available\<close> are its operations on the object behind it. The result of
  \<^verbatim>\<open>recvmsg\<close> is \<open>n\<close> after the kernel has stored \<open>n\<close> bytes in the blocks.
\<close>

definition SocketIO_read :: "(nat \<Rightarrow> 'b \<Rightarrow> 'b option) \<Rightarrow> (nat \<Rightarrow> sysret) \<Rightarrow> 'b \<Rightarrow> 'b result option" where
  "SocketIO_read adjust calls b = do {
     num \<leftarrow> stub_recvmsg calls;
     case num of
       Inl x \<Rightarrow> Some (Inl x)
     | Inr n \<Rightarrow> if n \<noteq> - 1 then map_option Inr (adjust (nat n) b) else Some (Inr b)
   }"

definition SocketIO_write :: "(nat \<Rightarrow> 'b \<Rightarrow> 'b option) \<Rightarrow> ('b \<Rightarrow> nat) \<Rightarrow> (nat \<Rightarrow> sysret) \<Rightarrow> 'b
    \<Rightarrow> (bool \<times> 'b) result option" where
  "SocketIO_write adjust available calls b = do {
     let expectWriteSize = available b;
     actualSend \<leftarrow> stub_sendmsg calls;
     case actualSend of
       Inl x \<Rightarrow> Some (Inl x)
     | Inr n \<Rightarrow>
         if n \<noteq> - 1 then
           map_option (\<lambda>b. Inr (nat n \<le> expectWriteSize, b)) (adjust (nat n) b)
         else Some (Inr (False, b))
   }"

subsection \<open>The blocks describe the contents\<close>

text \<open>The bytes that a list of blocks refers to: what \<^verbatim>\<open>sendmsg\<close> sends.\<close>

fun gather :: "bytes list \<Rightarrow> iovec list \<Rightarrow> byte list option" where
  "gather bs [] = Some []"
| "gather bs (v # vs) = do {
     b \<leftarrow> nth_opt bs (iov_array v);
     node \<leftarrow> nth_opt (m_nodes b) (iov_node v);
     d \<leftarrow> memcpy_out (node_buffer node) (iov_off v) (iov_len v);
     ds \<leftarrow> gather bs vs;
     Some (d @ ds)
   }"

lemma gather_append:
  "gather bs (us @ vs) = do { d \<leftarrow> gather bs us; ds \<leftarrow> gather bs vs; Some (d @ ds) }"
proof (induction us)
  case Nil
  then show ?case by (cases "gather bs vs") auto
next
  case (Cons u us)
  then show ?case by (auto split: bind_splits)
qed

definition node_iov :: "nat \<Rightarrow> bytes \<Rightarrow> nat \<Rightarrow> iovec list" where
  "node_iov a b i = (let n = m_nodes b ! i in
     if node_start n \<noteq> node_end n
     then [\<lparr>iov_array = a, iov_node = i, iov_off = node_start n, iov_len = node_end n - node_start n\<rparr>]
     else [])"

lemma reader_loop_eq:
  assumes "e \<le> length (m_nodes b)" "\<And>i. it \<le> i \<Longrightarrow> i < e \<Longrightarrow> node_ok (m_nodes b ! i)"
  shows "reader_loop a b it e = Some (concat (map (node_iov a b) [it..<e]))"
  using assms
proof (induction "e - it" arbitrary: it)
  case 0
  then show ?case by (subst reader_loop.simps) simp
next
  case (Suc k)
  then have it: "it < e" "it < length (m_nodes b)" "node_ok (m_nodes b ! it)" by auto
  moreover have "reader_loop a b (it + 1) e = Some (concat (map (node_iov a b) [it + 1..<e]))"
    using Suc by (intro Suc.hyps) auto
  ultimately show ?case
    by (subst reader_loop.simps) (auto simp: upt_rec [of it] node_iov_def Let_def node_ok_def)
qed

lemma gather_node_iov:
  assumes "a < length bs" "i < length (m_nodes (bs ! a))" "node_ok (m_nodes (bs ! a) ! i)"
  shows "gather bs (node_iov a (bs ! a) i) = Some (node_data (m_nodes (bs ! a) ! i))"
  using assms node_out [OF assms(3) order_refl] length_node_data [OF assms(3)]
  by (auto simp: node_iov_def Let_def node_data_empty)

lemma gather_nodes:
  assumes "a < length bs" "\<And>i. i \<in> set is \<Longrightarrow> i < length (m_nodes (bs ! a)) \<and> node_ok (m_nodes (bs ! a) ! i)"
  shows "gather bs (concat (map (node_iov a (bs ! a)) is))
       = Some (concat (map (\<lambda>i. node_data (m_nodes (bs ! a) ! i)) is))"
  using assms(2) by (induction "is") (simp_all add: gather_append gather_node_iov assms(1))

lemma drop_eq_map_nth: "r \<le> length xs \<Longrightarrow> drop r xs = map ((!) xs) [r..<length xs]"
  by (rule nth_equalityI) auto

lemma contents_upto:
  assumes "ba_shape b"
    and "e = m_writeNode b + 1 \<or> e = m_writeNode b \<and> node_end (m_nodes b ! m_writeNode b) = 0"
  shows "contents b = concat (map (\<lambda>i. node_data (m_nodes b ! i)) [m_readNode b..<e])"
proof -
  note D = ba_shapeD [OF assms(1)]
  have e: "m_readNode b \<le> e" "e \<le> length (m_nodes b)" using assms(2) D by auto
  have "[m_readNode b..<length (m_nodes b)] = [m_readNode b..<e] @ [e..<length (m_nodes b)]"
    using e by (metis le_Suc_ex upt_add_eq_append)
  then have "contents b = concat (map (\<lambda>i. node_data (m_nodes b ! i)) [m_readNode b..<e])
      @ concat (map (\<lambda>i. node_data (m_nodes b ! i)) [e..<length (m_nodes b)])"
    using D(3) by (simp add: contents_def drop_eq_map_nth comp_def)
  moreover have "node_data (m_nodes b ! i) = []" if "e \<le> i" "i < length (m_nodes b)" for i
    using that assms(2) D(7) [of i] by (cases "i = m_writeNode b") (auto intro!: node_data_empty)
  ultimately show ?thesis by simp
qed

lemma reader_loop_contents:
  assumes "ba_shape b" "a < length bs" "bs ! a = b"
  shows "\<exists>e vs. endOfReadNode b = Some e \<and> reader_loop a b (m_readNode b) e = Some vs
     \<and> gather bs vs = Some (contents b) \<and> length vs \<le> e - m_readNode b
     \<and> m_readNode b \<le> e \<and> e \<le> length (m_nodes b)"
proof -
  note D = ba_shapeD [OF assms(1)]
  obtain e where e: "endOfReadNode b = Some e"
    "e = m_writeNode b + 1 \<or> e = m_writeNode b \<and> node_end (m_nodes b ! m_writeNode b) = 0"
    using endOfReadNode_shape [OF assms(1)] by blast
  let ?vs = "concat (map (node_iov a b) [m_readNode b..<e])"
  have le: "m_readNode b \<le> e" "e \<le> length (m_nodes b)" using e(2) D by auto
  have "reader_loop a b (m_readNode b) e = Some ?vs"
    using le D by (intro reader_loop_eq) auto
  moreover have "gather bs ?vs = Some (contents b)"
    using gather_nodes [of a bs "[m_readNode b..<e]"] assms le D(4)
    by (simp add: contents_upto [OF assms(1) e(2)])
  moreover have "length (concat (map (node_iov a b) xs)) \<le> length xs" for xs
    by (induction xs) (auto simp: node_iov_def Let_def)
  then have "length ?vs \<le> e - m_readNode b" by (metis length_upt)
  ultimately show ?thesis using e(1) le by blast
qed

lemma reader_vec_contents:
  assumes "ba_inv b"
  shows "\<exists>vs. reader_vec b = Some vs \<and> gather [b] vs = Some (contents b)"
  using reader_loop_contents [of b 0 "[b]"] assms by (auto simp: reader_vec_def ba_inv_def)

lemma seq_loop_contents:
  assumes "\<forall>b \<in> set bs. ba_inv b" "bs' = as @ bs" "a = length as"
  shows "\<exists>vs. seq_loop a bs = Some vs \<and> gather bs' vs = Some (concat (map contents bs))
     \<and> length vs \<le> sum_list (map (\<lambda>b. length (m_nodes b)) bs)"
  using assms
proof (induction bs arbitrary: a as)
  case Nil
  then show ?case by simp
next
  case (Cons b bs)
  have "ba_shape b" "a < length bs'" "bs' ! a = b"
    using Cons.prems by (auto simp: ba_inv_def)
  then obtain e vs where vs: "endOfReadNode b = Some e" "reader_loop a b (m_readNode b) e = Some vs"
      "gather bs' vs = Some (contents b)" "length vs \<le> length (m_nodes b)"
    using reader_loop_contents [of b a bs'] by force
  obtain ws where ws: "seq_loop (a + 1) bs = Some ws" "gather bs' ws = Some (concat (map contents bs))"
      "length ws \<le> sum_list (map (\<lambda>b. length (m_nodes b)) bs)"
    using Cons.IH [of "as @ [b]" "a + 1"] Cons.prems by auto
  with vs show ?case by (auto simp: gather_append)
qed

text \<open>C22. The blocks handed to \<^verbatim>\<open>sendmsg\<close> for a sequence of well-formed arrays lie
  inside their buffers and refer, in order, to exactly the readable bytes of the arrays.\<close>

theorem seq_vec_describes_contents:
  assumes "\<forall>b \<in> set bs. ba_inv b"
  shows "\<exists>vs. seq_vec bs = Some vs \<and> gather bs vs = Some (concat (map contents bs))
     \<and> seq_available bs = length (concat (map contents bs))"
proof -
  have "seq_available bs = length (concat (map contents bs))"
    using assms by (induction bs) (simp_all add: seq_available_def ba_inv_def)
  moreover have "concat (map contents bs) = []" if "sum_list (map (\<lambda>b. length (m_nodes b)) bs) = 0"
    using that by (auto simp: contents_def)
  ultimately show ?thesis
    using seq_loop_contents [OF assms, of bs "[]" 0] by (auto simp: seq_vec_def Let_def)
qed

subsection \<open>Adjusting a reader\<close>

lemma moveBufferHead_ok:
  assumes "ba_shape b" "m_availableSizeToRead b = length (contents b)" "m_availableSizeToWrite b = room b"
  shows "\<exists>b'. unlockedMoveBufferHead b = Some b' \<and> ba_inv b' \<and> contents b' = contents b"
  using moveBufferHead_inv [OF assms(1)] assms(2,3) by (auto simp: ba_inv_def)

lemma contents_no_start:
  assumes "m_readNode b < length (m_nodes b)"
  shows "contents b = node_data (m_nodes b ! m_readNode b)
           @ concat (map node_data (drop (Suc (m_readNode b)) (m_nodes b)))"
  using assms by (simp add: contents_def Cons_nth_drop_Suc [symmetric])

lemma adjust_all_ok:
  assumes "ba_inv b"
  shows "\<exists>b'. adjust_all b = Some b' \<and> ba_inv b' \<and> contents b' = []"
proof -
  have shape: "ba_shape b" and wr: "m_availableSizeToWrite b = room b"
    using assms by (auto simp: ba_inv_def)
  note D = ba_shapeD [OF shape]
  let ?w = "m_writeNode b" and ?N = "m_nodes b"
  let ?n = "(?N ! ?w)\<lparr>node_start := node_end (?N ! ?w)\<rparr>"
  let ?b = "b\<lparr>m_readNode := ?w, m_availableSizeToRead := 0, m_nodes := ?N[?w := ?n]\<rparr>"
  have ok: "node_ok ?n" using D(2,4) by (simp add: node_ok_def)
  have "node_ok n" if "n \<in> set (?N[?w := ?n])" for n
    by (rule list_update_all [OF that]) (simp_all only: D(4) ok)
  then have "ba_shape ?b"
    using D by (auto simp: ba_shape_def nth_list_update)
  moreover have "contents ?b = []"
    using D tail_no_data [OF shape] by (subst contents_no_start) (simp_all add: node_data_empty)
  moreover have "room ?b = room b"
    using D by (simp add: room_def)
  ultimately show ?thesis
    using moveBufferHead_ok [of ?b] D wr by (simp add: adjust_all_def)
qed

lemma consume_in_place:
  fixes sz :: nat
  assumes "ba_shape b" "k \<le> length (node_data (m_nodes b ! m_readNode b))"
  defines "n \<equiv> m_nodes b ! m_readNode b"
  defines "b' \<equiv> b\<lparr>m_availableSizeToRead := sz,
    m_nodes := (m_nodes b)[m_readNode b := n\<lparr>node_start := node_start n + k\<rparr>]\<rparr>"
  shows "ba_shape b'" "contents b' = drop k (contents b)" "room b' = room b"
proof -
  note D = ba_shapeD [OF assms(1)]
  have ok: "node_ok n" using D by (simp add: n_def)
  then have k: "k \<le> node_end n - node_start n" using assms(2) by (simp add: n_def)
  have "node_ok m" if "m \<in> set (m_nodes b')" for m
    using that unfolding b'_def
    by simp (rule list_update_all, assumption, auto intro: D(4) node_ok_consume ok k)
  then show "ba_shape b'"
    using D by (auto simp: ba_shape_def b'_def n_def nth_list_update)
  show "contents b' = drop k (contents b)"
    using D assms(2) node_data_consume [OF k]
    by (subst (1 2) contents_no_start) (simp_all add: b'_def n_def)
  show "room b' = room b"
    using D by (simp add: room_def b'_def n_def nth_list_update)
qed

lemma skip_full_nodes:
  assumes "ba_shape b" "m_readNode b + q \<le> m_writeNode b" "0 < q"
  shows "ba_shape (b\<lparr>m_readNode := m_readNode b + q\<rparr>)"
    and "contents (b\<lparr>m_readNode := m_readNode b + q\<rparr>)
       = drop (q * BufferNodeSize - node_start (m_nodes b ! m_readNode b)) (contents b)"
proof -
  note D = ba_shapeD [OF assms(1)]
  let ?r = "m_readNode b" and ?N = "m_nodes b"
  show "ba_shape (b\<lparr>m_readNode := ?r + q\<rparr>)"
    using assms(2) D assms(1) by (auto simp: ba_shape_def)
  have len: "length (node_data (?N ! i)) = (if i = ?r then BufferNodeSize - node_start (?N ! i) else BufferNodeSize)"
    if "?r \<le> i" "i < ?r + q" for i
    using that assms(2) D(4) [of i] D(2) D(5) [of i] D(6) [of i] by auto
  have "?r + q \<le> length ?N" using assms(2) D by auto
  then obtain k where k: "length ?N = ?r + q + k" by (metis le_Suc_ex)
  then have "[?r..<length ?N] = [?r..<?r + q] @ [?r + q..<length ?N]"
    by (metis le_add1 upt_add_eq_append)
  then have "[?r..<length ?N] = ?r # [Suc ?r..<?r + q] @ [?r + q..<length ?N]"
    using assms(3) by (simp add: upt_rec [of ?r "?r + q"])
  then have "contents b = concat (map (\<lambda>i. node_data (?N ! i)) (?r # [Suc ?r..<?r + q]))
      @ contents (b\<lparr>m_readNode := ?r + q\<rparr>)"
    using D \<open>?r + q \<le> length ?N\<close> by (simp add: contents_def drop_eq_map_nth comp_def)
  moreover have "length (concat (map (\<lambda>i. node_data (?N ! i)) (?r # [Suc ?r..<?r + q])))
      = q * BufferNodeSize - node_start (?N ! ?r)"
  proof -
    have "node_start (?N ! ?r) \<le> BufferNodeSize"
      using D(4) [OF D(3)] by (auto simp: node_ok_def)
    moreover have "map (\<lambda>i. length (node_data (?N ! i))) [Suc ?r..<?r + q]
        = map (\<lambda>_. BufferNodeSize) [Suc ?r..<?r + q]"
      using len by (intro map_cong) auto
    moreover have "length (node_data (?N ! ?r)) = BufferNodeSize - node_start (?N ! ?r)"
      using len [of ?r] assms(3) by simp
    ultimately show ?thesis
      using assms(3) by (cases q) (simp_all del: upt_Suc add: length_concat comp_def map_replicate_const sum_list_replicate_mult)
  qed
  ultimately show "contents (b\<lparr>m_readNode := ?r + q\<rparr>)
       = drop (q * BufferNodeSize - node_start (?N ! ?r)) (contents b)"
    by simp
qed

text \<open>The sizes that \<^verbatim>\<open>adjustByteArray\<close> handles: everything, a part of the first
  node, or whole nodes when the first is unread.\<close>

definition adjustable :: "nat \<Rightarrow> bytes \<Rightarrow> bool" where
  "adjustable sz b \<longleftrightarrow> (let head = m_nodes b ! m_readNode b in
     m_availableSizeToRead b \<le> sz
   \<or> sz < BufferNodeSize \<and> sz \<le> node_end head - node_start head
   \<or> node_start head = 0 \<and> BufferNodeSize dvd sz)"

lemma adjust_part_head:
  assumes "ba_inv b" "sz < BufferNodeSize"
    "sz \<le> node_end (m_nodes b ! m_readNode b) - node_start (m_nodes b ! m_readNode b)"
  shows "\<exists>b'. adjust_part sz b = Some b' \<and> ba_inv b' \<and> contents b' = drop sz (contents b)"
proof -
  have shape: "ba_shape b" and avail: "m_availableSizeToRead b = length (contents b)"
    "m_availableSizeToWrite b = room b"
    using assms(1) by (auto simp: ba_inv_def)
  note D = ba_shapeD [OF shape]
  have data: "sz \<le> length (node_data (m_nodes b ! m_readNode b))" using D assms(3) by simp
  let ?b = "b\<lparr>m_availableSizeToRead := m_availableSizeToRead b - sz,
    m_nodes := (m_nodes b)[m_readNode b := (m_nodes b ! m_readNode b)\<lparr>node_start :=
      node_start (m_nodes b ! m_readNode b) + sz\<rparr>]\<rparr>"
  have "sz \<le> length (contents b)"
    using data by (simp add: contents_read_split [OF shape])
  then have "adjust_part sz b = unlockedMoveBufferHead ?b"
    using assms(2) D by (simp add: adjust_part_def Let_def avail)
  then show ?thesis
    using moveBufferHead_ok [of ?b] consume_in_place [OF shape data] avail by simp
qed

lemma adjust_part_whole:
  assumes "ba_inv b" "node_start (m_nodes b ! m_readNode b) = 0" "sz = q * BufferNodeSize" "0 < q"
    "sz < m_availableSizeToRead b"
  shows "\<exists>b'. adjust_part sz b = Some b' \<and> ba_inv b' \<and> contents b' = drop sz (contents b)"
proof -
  have shape: "ba_shape b" and avail: "m_availableSizeToRead b = length (contents b)"
    "m_availableSizeToWrite b = room b"
    using assms(1) by (auto simp: ba_inv_def)
  note D = ba_shapeD [OF shape]
  let ?r = "m_readNode b" and ?w = "m_writeNode b" and ?N = "m_nodes b"
  have q: "?r + q \<le> ?w"
  proof (cases "?r < ?w")
    case True
    have "contents (b\<lparr>m_readNode := ?r + (?w - ?r)\<rparr>) = drop ((?w - ?r) * BufferNodeSize) (contents b)"
      using skip_full_nodes(2) [OF shape, of "?w - ?r"] True assms(2) by simp
    moreover have "length (contents (b\<lparr>m_readNode := ?w\<rparr>)) < BufferNodeSize"
      using skip_full_nodes(1) [OF shape, of "?w - ?r"] True D
      by (subst contents_write_split) simp_all
    ultimately have "length (contents b) < Suc (?w - ?r) * BufferNodeSize"
      using True by simp
    then have "q * BufferNodeSize < Suc (?w - ?r) * BufferNodeSize"
      using assms(3,5) avail by linarith
    then have "q < Suc (?w - ?r)" by (rule mult_right_less_imp_less) simp
    then show ?thesis using True by linarith
  next
    case False
    then have "length (contents b) < BufferNodeSize"
      using D by (simp add: contents_write_split [OF shape])
    then show ?thesis using assms(3,4,5) avail by (cases q) auto
  qed
  let ?b = "b\<lparr>m_readNode := ?r + q, m_availableSizeToRead := m_availableSizeToRead b - sz\<rparr>"
  note skip = skip_full_nodes [OF shape q assms(4)]
  have "adjust_part sz b = unlockedMoveBufferHead (b\<lparr>m_readNode := ?r + q,
      m_availableSizeToRead := m_availableSizeToRead b - sz, m_nodes := ?N[?r + q := ?N ! (?r + q)]\<rparr>)"
    using assms(3,5) q D by (simp add: adjust_part_def Let_def BufferNodeSize_def)
  also have "\<dots> = unlockedMoveBufferHead ?b" by simp
  finally show ?thesis
    using moveBufferHead_ok [of ?b] skip avail assms(2,3)
    by (simp add: ba_shape_def contents_def room_def)
qed

lemma reader_adjust_drop:
  assumes "ba_inv b" "adjustable sz b"
  shows "\<exists>b'. reader_adjust sz b = Some b' \<and> ba_inv b' \<and> contents b' = drop sz (contents b)"
proof (cases "m_availableSizeToRead b \<le> sz")
  case True
  then show ?thesis
    using adjust_all_ok [OF assms(1)] assms(1) by (simp add: reader_adjust_def ba_inv_def)
next
  case False
  show ?thesis
  proof (cases "sz < BufferNodeSize \<and> sz \<le> node_end (m_nodes b ! m_readNode b) - node_start (m_nodes b ! m_readNode b)")
    case True
    with False show ?thesis using adjust_part_head [OF assms(1)] by (simp add: reader_adjust_def)
  next
    case other: False
    with False assms(2) obtain q where q: "sz = q * BufferNodeSize" "node_start (m_nodes b ! m_readNode b) = 0"
      by (auto simp: adjustable_def Let_def dvd_def mult.commute)
    moreover have "0 < q" using q other by (cases q) (auto simp: BufferNodeSize_def)
    ultimately show ?thesis
      using adjust_part_whole [OF assms(1)] False by (simp add: reader_adjust_def)
  qed
qed

text \<open>After a send of an adjustable size, \<^verbatim>\<open>adjustByteArray\<close> leaves a well-formed
  array from which exactly the bytes that were sent have been removed.\<close>

lemma reader_adjust_removes_sent:
  assumes "ba_inv b" "adjustable sz b"
  shows "\<exists>b'. reader_adjust sz b = Some b' \<and> ba_inv b' \<and> contents b' = drop sz (contents b)
     \<and> reader_available b' = reader_available b - sz"
  using reader_adjust_drop [OF assms] assms(1) by (auto simp: reader_available_def ba_inv_def)

lemma reader_adjust_removes_sent_witness:
  "\<exists>b'. reader_adjust 5 newByteArray = Some b' \<and> contents b' = []"
proof -
  have "adjustable 5 newByteArray" by (simp add: adjustable_def Let_def newByteArray_def)
  from reader_adjust_removes_sent [OF ba_inv_new this] show ?thesis by auto
qed

text \<open>
  Other sizes can be mishandled: the node index moves forward by one node too many when the
  size is larger than a node and not a whole number of nodes.
\<close>

lemma moveBufferHead_contents:
  assumes "unlockedMoveBufferHead b = Some b'"
  shows "contents b' = contents b \<and> m_availableSizeToRead b' = m_availableSizeToRead b"
  using assms
  by (auto simp: unlockedMoveBufferHead_def node_moveToTail_def contents_def split: if_splits)

lemma sum_list_consumed:
  "i < length ns \<Longrightarrow> node_ok (ns ! i) \<Longrightarrow>
   length (node_data ((ns ! i)\<lparr>node_start := k + node_start (ns ! i)\<rparr>)) \<le> length (node_data (ns ! i))"
  by (auto simp: node_data_def node_ok_def min_def)

text \<open>C23. When nothing has been read of the first readable node (its data begins at 0), a send of
  more bytes than a node holds, fewer than are readable and not a whole number of nodes, makes
  \<^verbatim>\<open>adjustByteArray\<close> either index past the last node or leave fewer bytes than
  \<^verbatim>\<open>readableBytes\<close> says: a whole node too many is skipped, with bytes that were not sent.
  (When the data of the first node begins later the index moves by the same number of nodes,
  and the array may also keep more bytes than the count says.)\<close>

theorem reader_adjust_loses_bytes:
  assumes "ba_inv b" "node_start (m_nodes b ! m_readNode b) = 0"
    and "BufferNodeSize < sz" "sz < m_availableSizeToRead b" "\<not> BufferNodeSize dvd sz"
  shows "reader_adjust sz b = None \<or>
    (\<exists>b'. reader_adjust sz b = Some b' \<and> length (contents b') < m_availableSizeToRead b')"
proof (cases "reader_adjust sz b")
  case (Some b')
  let ?r = "m_readNode b" and ?N = "m_nodes b" and ?w = "m_writeNode b"
  let ?q = "sz div BufferNodeSize + 1" and ?l = "sz mod BufferNodeSize"
  have shape: "ba_shape b" and avail: "m_availableSizeToRead b = length (contents b)"
    using assms(1) by (auto simp: ba_inv_def)
  note D = ba_shapeD [OF shape]
  have "0 < sz div BufferNodeSize" "0 < ?l"
    using assms(3,5) by (auto simp: BufferNodeSize_def div_greater_zero_iff dvd_eq_mod_eq_0)
  then have "adjust_part sz b = do {
     node \<leftarrow> nth_opt ?N (?r + ?q);
     unlockedMoveBufferHead (b\<lparr>m_readNode := ?r + ?q, m_availableSizeToRead := m_availableSizeToRead b - sz,
       m_nodes := ?N[?r + ?q := node\<lparr>node_start := node_start node + ?l\<rparr>]\<rparr>)}"
    using assms(4) by (simp add: adjust_part_def Let_def)
  then have r': "?r + ?q < length ?N"
    and move: "unlockedMoveBufferHead (b\<lparr>m_readNode := ?r + ?q, m_availableSizeToRead := m_availableSizeToRead b - sz,
       m_nodes := ?N[?r + ?q := (?N ! (?r + ?q))\<lparr>node_start := ?l + node_start (?N ! (?r + ?q))\<rparr>]\<rparr>) = Some b'"
    using Some assms(4) by (auto simp: reader_adjust_def nth_opt_def add.commute split: if_splits)
  have "length (contents b') \<le> length (contents (b\<lparr>m_readNode := ?r + ?q\<rparr>))"
    using moveBufferHead_contents [OF move] r' D(4) [OF r'] sum_list_consumed [of "?r + ?q" ?N ?l]
    by (simp add: contents_no_start)
  also have "\<dots> < m_availableSizeToRead b - sz"
  proof (cases "?r + ?q \<le> ?w")
    case True
    have "sz < ?q * BufferNodeSize" using div_mult_mod_eq [of sz BufferNodeSize] by (simp add: BufferNodeSize_def)
    then show ?thesis
      using skip_full_nodes(2) [OF shape True] assms(2,4) avail by simp
  next
    case False
    have "concat (map node_data (drop (?r + ?q) ?N)) = []"
      by (intro contents_no_data node_data_empty) (use False D(7) in simp)
    then have "contents (b\<lparr>m_readNode := ?r + ?q\<rparr>) = []" by (simp add: contents_def)
    then show ?thesis using assms(4) by simp
  qed
  finally have "length (contents b') < m_availableSizeToRead b - sz" .
  then show ?thesis using moveBufferHead_contents [OF move] Some by simp
qed simp

definition three_nodes :: bytes where
  "three_nodes = \<lparr>m_availableSizeToRead = 2058, m_availableSizeToWrite = 1014, m_readNode = 0,
     m_writeNode = 2,
     m_nodes = map (\<lambda>e. \<lparr>node_start = 0, node_end = e, node_buffer = replicate BufferNodeSize 0\<rparr>) [1024, 1024, 10]\<rparr>"

lemma three_nodes_inv: "ba_inv three_nodes"
  by (auto simp: ba_inv_def ba_shape_def three_nodes_def contents_def room_def node_ok_def
      node_data_def BufferNodeSize_def nth_Cons' numeral_2_eq_2 less_Suc_eq)

lemma seq_vec_describes_contents_witness:
  "\<exists>vs. seq_vec [three_nodes, newByteArray, three_nodes] = Some vs
     \<and> gather [three_nodes, newByteArray, three_nodes] vs = Some (contents three_nodes @ contents three_nodes)
     \<and> seq_available [three_nodes, newByteArray, three_nodes] = 4116"
proof -
  have "length (contents three_nodes) = 2058" using three_nodes_inv by (simp add: ba_inv_def three_nodes_def)
  then show ?thesis
    using seq_vec_describes_contents [of "[three_nodes, newByteArray, three_nodes]"] three_nodes_inv ba_inv_new by simp
qed

lemma reader_adjust_loses_bytes_witness:
  "reader_adjust 1500 three_nodes = None \<or>
    (\<exists>b'. reader_adjust 1500 three_nodes = Some b' \<and> length (contents b') < m_availableSizeToRead b')"
  by (rule reader_adjust_loses_bytes [OF three_nodes_inv])
     (simp_all add: three_nodes_def BufferNodeSize_def)

text \<open>The other side of this: the first node holds the bytes from 500 on, the second is full, and
  600 bytes have been sent, so that the send ends inside the second node. The index does not
  move, nothing of the second node is consumed, and the array holds more than it counts.\<close>

lemma reader_adjust_keeps_sent:
  "\<exists>b'. reader_adjust 600 \<lparr>m_availableSizeToRead = 1548, m_availableSizeToWrite = 1024, m_readNode = 0, m_writeNode = 2,
        m_nodes = [\<lparr>node_start = 500, node_end = 1024, node_buffer = replicate BufferNodeSize 0\<rparr>,
          \<lparr>node_start = 0, node_end = 1024, node_buffer = replicate BufferNodeSize 0\<rparr>, newBufferNode]\<rparr> = Some b'
     \<and> m_availableSizeToRead b' = 948 \<and> length (contents b') = 1024"
  by (simp add: reader_adjust_def adjust_part_def nth_opt_def unlockedMoveBufferHead_def BufferNodeSize_def contents_def
      node_data_def newBufferNode_def Let_def)

subsection \<open>Sending through the interface\<close>

text \<open>
  What \<^verbatim>\<open>SocketIO::write\<close> relies on: an object whose blocks describe its content
  and whose \<open>adjust\<close> removes a sent prefix, for the sizes it supports.
\<close>

locale block_source =
  fixes blocks :: "'b \<Rightarrow> iovec list option"
    and bytes_at :: "'b \<Rightarrow> iovec list \<Rightarrow> byte list option"
    and adjust :: "nat \<Rightarrow> 'b \<Rightarrow> 'b option"
    and available :: "'b \<Rightarrow> nat"
    and content :: "'b \<Rightarrow> byte list"
    and invar :: "'b \<Rightarrow> bool"
    and supported :: "nat \<Rightarrow> 'b \<Rightarrow> bool"
  assumes blocks_content: "invar b \<Longrightarrow> \<exists>vs. blocks b = Some vs \<and> bytes_at b vs = Some (content b)"
    and available_content: "invar b \<Longrightarrow> available b = length (content b)"
    and adjust_drop: "invar b \<Longrightarrow> supported n b \<Longrightarrow>
      \<exists>b'. adjust n b = Some b' \<and> invar b' \<and> content b' = drop n (content b)"
    and supported_all: "invar b \<Longrightarrow> supported (length (content b)) b"
begin

lemma write_sends_prefix:
  assumes "invar b" "n \<le> length (content b)" "supported n b"
  shows "\<exists>b'. SocketIO_write adjust available (\<lambda>_. SysOk (int n)) b = Some (Inr (True, b')) \<and> invar b'
     \<and> content b' = drop n (content b)"
proof -
  have "stub_sendmsg (\<lambda>_. SysOk (int n)) = Some (Inr (int n))"
    by (simp add: stub_sendmsg_def restart_stops)
  then show ?thesis
    using adjust_drop [OF assms(1,3)] assms(2) available_content [OF assms(1)]
    by (auto simp: SocketIO_write_def Let_def)
qed

lemma write_empties:
  assumes "invar b"
  shows "\<exists>b'. SocketIO_write adjust available (\<lambda>_. SysOk (int (length (content b)))) b = Some (Inr (True, b'))
     \<and> invar b' \<and> content b' = []"
  using write_sends_prefix [OF assms order_refl supported_all [OF assms]] by simp

end

interpretation reader: block_source reader_vec "\<lambda>b. gather [b]" reader_adjust reader_available
  contents ba_inv adjustable
proof unfold_locales
  show "ba_inv b \<Longrightarrow> \<exists>vs. reader_vec b = Some vs \<and> gather [b] vs = Some (contents b)" for b
    by (rule reader_vec_contents)
  show "ba_inv b \<Longrightarrow> reader_available b = length (contents b)" for b
    by (simp add: reader_available_def ba_inv_def)
  show "ba_inv b \<Longrightarrow> adjustable n b \<Longrightarrow>
      \<exists>b'. reader_adjust n b = Some b' \<and> ba_inv b' \<and> contents b' = drop n (contents b)" for b n
    by (rule reader_adjust_drop)
  show "ba_inv b \<Longrightarrow> adjustable (length (contents b)) b" for b
    by (simp add: adjustable_def Let_def ba_inv_def)
qed

fun seq_adjustable :: "nat \<Rightarrow> bytes list \<Rightarrow> bool" where
  "seq_adjustable sz [] = True"
| "seq_adjustable sz (b # bs) =
     (if m_availableSizeToRead b < sz then seq_adjustable (sz - m_availableSizeToRead b) bs
      else adjustable sz b)"

lemma seq_adjust_drop:
  assumes "\<forall>b \<in> set bs. ba_inv b" "seq_adjustable sz bs"
  shows "\<exists>bs'. seq_adjust sz bs = Some bs' \<and> (\<forall>b \<in> set bs'. ba_inv b)
     \<and> concat (map contents bs') = drop sz (concat (map contents bs))"
  using assms
proof (induction sz bs rule: seq_adjust.induct)
  case (1 sz)
  then show ?case by simp
next
  case (2 sz b bs)
  have inv: "ba_inv b" "m_availableSizeToRead b = length (contents b)"
    using "2.prems"(1) by (auto simp: ba_inv_def)
  obtain b0 where b0: "adjust_all b = Some b0" "ba_inv b0" "contents b0 = []"
    using adjust_all_ok [OF inv(1)] by blast
  consider "m_availableSizeToRead b < sz" | "m_availableSizeToRead b = sz" | "sz < m_availableSizeToRead b"
    by linarith
  then show ?case
  proof cases
    case 1
    then obtain bs' where "seq_adjust (sz - m_availableSizeToRead b) bs = Some bs'"
        "\<forall>b \<in> set bs'. ba_inv b"
        "concat (map contents bs') = drop (sz - m_availableSizeToRead b) (concat (map contents bs))"
      using "2.IH" [OF refl, of b0] "2.prems" b0(1) by auto
    with 1 b0 inv show ?thesis by simp
  next
    case 2
    with b0 inv "2.prems"(1) show ?thesis by simp
  next
    case 3
    with "2.prems"(2) have "adjustable sz b" by simp
    from reader_adjust_drop [OF inv(1) this] 3 obtain b' where
      "adjust_part sz b = Some b'" "ba_inv b'" "contents b' = drop sz (contents b)"
      by (auto simp: reader_adjust_def)
    with 3 inv "2.prems"(1) show ?thesis by simp
  qed
qed

lemma seq_adjustable_all:
  "\<forall>b \<in> set bs. ba_inv b \<Longrightarrow> seq_adjustable (length (concat (map contents bs))) bs"
  by (induction bs) (auto simp: ba_inv_def adjustable_def Let_def)

interpretation seq_reader: block_source seq_vec gather seq_adjust seq_available
  "\<lambda>bs. concat (map contents bs)" "\<lambda>bs. \<forall>b \<in> set bs. ba_inv b" seq_adjustable
proof unfold_locales
  fix bs :: "bytes list" and n :: nat
  assume inv: "\<forall>b \<in> set bs. ba_inv b"
  show "\<exists>vs. seq_vec bs = Some vs \<and> gather bs vs = Some (concat (map contents bs))"
    using seq_loop_contents [OF inv, of bs "[]" 0] inv
    by (cases "bs = []") (auto simp: seq_vec_def Let_def dest!: ba_shapeD(2) simp: ba_inv_def)
  show "seq_available bs = length (concat (map contents bs))"
    using inv by (induction bs) (simp_all add: seq_available_def ba_inv_def)
  show "seq_adjustable n bs \<Longrightarrow> \<exists>bs'. seq_adjust n bs = Some bs' \<and> (\<forall>b \<in> set bs'. ba_inv b)
      \<and> concat (map contents bs') = drop n (concat (map contents bs))"
    using inv by (rule seq_adjust_drop)
  show "seq_adjustable (length (concat (map contents bs))) bs"
    using inv by (rule seq_adjustable_all)
qed

text \<open>C21. \<^verbatim>\<open>SocketIO::write\<close> on a sequence of well-formed arrays: when the kernel takes
  everything, the arrays end empty; when it takes a supported part, exactly that prefix
  is removed. In both cases the result is \<^term>\<open>True\<close>.\<close>

theorem write_sends_in_order:
  assumes "\<forall>b \<in> set bs. ba_inv b" "n \<le> length (concat (map contents bs))" "seq_adjustable n bs"
  shows "\<exists>bs'. SocketIO_write seq_adjust seq_available (\<lambda>_. SysOk (int n)) bs = Some (Inr (True, bs'))
     \<and> (\<forall>b \<in> set bs'. ba_inv b) \<and> concat (map contents bs') = drop n (concat (map contents bs))"
  using assms by (rule seq_reader.write_sends_prefix)

lemma write_sends_in_order_witness:
  "\<exists>bs'. SocketIO_write seq_adjust seq_available (\<lambda>_. SysOk (int 0)) [newByteArray] = Some (Inr (True, bs'))
     \<and> (\<forall>b \<in> set bs'. ba_inv b) \<and> concat (map contents bs') = drop 0 (concat (map contents [newByteArray]))"
  by (rule write_sends_in_order) (simp_all add: adjustable_def BufferNodeSize_def)

text \<open>\<^verbatim>\<open>SocketIO::write\<close> reports a partial send like a complete one: the result is
  \<^term>\<open>True\<close> for every number of bytes the kernel can take, and \<^term>\<open>False\<close>
  exactly when \<^verbatim>\<open>sendmsg\<close> fails with a code that is not an exception.\<close>

lemma partial_send_reported_complete:
  assumes "calls 0 \<noteq> SysErr EINTR" "\<And>n. calls 0 = SysOk n \<Longrightarrow> 0 \<le> n \<and> nat n \<le> available b"
  shows "SocketIO_write adjust available calls b =
     (case calls 0 of
        SysOk n \<Rightarrow> map_option (\<lambda>b'. Inr (True, b')) (adjust (nat n) b)
      | SysErr e \<Rightarrow> Some (case sendmsg_switch e of Some x \<Rightarrow> Inl x | None \<Rightarrow> Inr (False, b)))"
proof -
  have "stub_sendmsg calls = Some (finish sendmsg_switch (calls 0))"
    by (simp add: stub_sendmsg_def restart_stops [of calls 0, OF assms(1)])
  then show ?thesis
    using assms(2) by (auto simp: SocketIO_write_def Let_def split: sysret.splits option.splits)
qed

lemma partial_send_reported_complete_witness:
  "SocketIO_write (\<lambda>n b. Some (b - n)) id (\<lambda>_. SysOk 3) 10 = Some (Inr (True, 7::nat))"
  by (subst partial_send_reported_complete) auto

subsection \<open>Receiving into an array\<close>

text \<open>The kernel stores the received bytes in the blocks, in order.\<close>

fun scatter :: "iovec list \<Rightarrow> byte list \<Rightarrow> bytes \<Rightarrow> bytes option" where
  "scatter vs [] b = Some b"
| "scatter [] d b = None"
| "scatter (v # vs) d b = do {
     node \<leftarrow> nth_opt (m_nodes b) (iov_node v);
     buf \<leftarrow> memcpy_in (node_buffer node) (iov_off v) (take (iov_len v) d);
     scatter vs (drop (iov_len v) d) (b\<lparr>m_nodes := (m_nodes b)[iov_node v := node\<lparr>node_buffer := buf\<rparr>]\<rparr>)
   }"

lemma writer_blocks_room:
  assumes "ba_inv b"
  shows "writer_blocks b = length (m_nodes b) - m_writeNode b"
proof -
  have shape: "ba_shape b" and wr: "m_availableSizeToWrite b = room b"
    using assms by (auto simp: ba_inv_def)
  note D = ba_shapeD [OF shape]
  obtain k where k: "length (m_nodes b) = Suc (m_writeNode b) + k"
    using D(2) by (metis Suc_leI le_Suc_ex)
  obtain e where e: "node_end (m_nodes b ! m_writeNode b) = e" "e < 1024"
    using D(8) by (simp add: BufferNodeSize_def)
  have avail: "m_availableSizeToWrite b = (1024 - e) + k * 1024"
    using k e by (simp add: wr room_def BufferNodeSize_def)
  have "(1024 - e + k * 1024) div 1024 = k + (1024 - e) div 1024"
    "(1024 - e + k * 1024) mod 1024 = (1024 - e) mod 1024"
    by simp_all
  with avail k e show ?thesis
    by (cases "e = 0") (simp_all add: writer_blocks_def BufferNodeSize_def)
qed

text \<open>For a well-formed array the writer's constructor fills its block array exactly
  (no write past \<^verbatim>\<open>m_vecLen\<close>), each block is the unused end of one node, and together
  they have room for exactly the writable bytes, which is at least one.\<close>

lemma writer_vec_fits:
  assumes "ba_inv b"
  shows "\<exists>vs. writer_vec b = Some vs \<and> length vs = writer_blocks b
     \<and> sum_list (map iov_len vs) = writer_available b \<and> 0 < writer_available b
     \<and> (\<forall>v \<in> set vs. iov_off v + iov_len v = BufferNodeSize)"
proof -
  have shape: "ba_shape b" and wr: "m_availableSizeToWrite b = room b"
    using assms by (auto simp: ba_inv_def)
  note D = ba_shapeD [OF shape] and blocks = writer_blocks_room [OF assms]
  let ?idle = "[m_writeNode b..<length (m_nodes b)]"
  let ?iov = "\<lambda>i. \<lparr>iov_array = 0, iov_node = i, iov_off = node_end (m_nodes b ! i),
                iov_len = sub64 BufferNodeSize (node_end (m_nodes b ! i))\<rparr>"
  have vec: "writer_vec b = Some (map ?iov ?idle)"
    using D(2) by (simp add: writer_vec_def blocks)
  have "?idle = m_writeNode b # [Suc (m_writeNode b)..<length (m_nodes b)]"
    using D(2) by (simp add: upt_rec [of "m_writeNode b"])
  moreover have "map (\<lambda>i. sub64 BufferNodeSize (node_end (m_nodes b ! i))) [Suc (m_writeNode b)..<length (m_nodes b)]
      = map (\<lambda>i. BufferNodeSize) [Suc (m_writeNode b)..<length (m_nodes b)]"
    using D(7) by (intro map_cong) auto
  ultimately have "sum_list (map iov_len (map ?iov ?idle)) = room b"
    using D(8) by (simp add: comp_def map_replicate_const sum_list_replicate_mult room_def del: upt_Suc)
  moreover have "node_end (m_nodes b ! i) \<le> BufferNodeSize" if "i < length (m_nodes b)" for i
    using D(4) [OF that] by (simp add: node_ok_def)
  ultimately show ?thesis
    using vec room_pos [OF shape] by (auto simp: wr writer_available_def blocks)
qed

lemma writer_vec_fits_witness: "\<exists>vs. writer_vec newByteArray = Some vs \<and> length vs = 1"
  using writer_vec_fits [OF ba_inv_new]
  by (auto simp: writer_blocks_def newByteArray_def BufferNodeSize_def)

lemma writer_adjust_loop_end [simp]:
  "length (m_nodes b) \<le> it \<Longrightarrow> writer_adjust_loop it sz b = b"
  by (subst writer_adjust_loop.simps) simp

text \<open>Receiving fewer bytes than fit into the last node appends them, and the adjusted
  array is well-formed.\<close>

lemma receive_into_last_node:
  assumes "ba_inv b" "m_writeNode b + 1 = length (m_nodes b)" "length d < writer_available b"
  shows "\<exists>vs b1 b2. writer_vec b = Some vs \<and> scatter vs d b = Some b1
     \<and> writer_adjust (length d) b1 = Some b2 \<and> ba_inv b2 \<and> contents b2 = contents b @ d"
proof (cases "d = []")
  case True
  let ?w = "m_writeNode b"
  obtain vs where vs: "writer_vec b = Some vs" using writer_vec_fits [OF assms(1)] by blast
  have "ba_shape b" using assms(1) by (simp add: ba_inv_def)
  then have "node_end (m_nodes b ! ?w) < BufferNodeSize" by (rule ba_shapeD(8))
  then have "writer_adjust_loop ?w 0 b = b"
    using assms(2) by (subst writer_adjust_loop.simps) (simp add: Let_def BufferNodeSize_def)
  then show ?thesis
    using True vs assms by (auto simp: writer_adjust_def writer_available_def)
next
  case False
  have shape: "ba_shape b" and avail: "m_availableSizeToWrite b = room b"
      "m_availableSizeToRead b = length (contents b)"
    using assms(1) by (auto simp: ba_inv_def)
  note D = ba_shapeD [OF shape]
  let ?w = "m_writeNode b" and ?n = "m_nodes b ! m_writeNode b"
  have fits: "node_end ?n + length d < BufferNodeSize"
    using assms(2,3) avail by (simp add: writer_available_def room_def)
  obtain buf where buf: "memcpy_in (node_buffer ?n) (node_end ?n) d = Some buf"
    and app: "?n\<lparr>node_buffer := buf, node_end := node_end ?n + length d\<rparr> = node_append ?n d"
    using node_in [of ?n d] D(4) [OF D(2)] fits by (auto simp: map_option_case split: option.splits)
  have idle: "[?w..<length (m_nodes b)] = [?w]"
    using assms(2) by (simp flip: assms(2))
  have vec: "writer_vec b = Some [\<lparr>iov_array = 0, iov_node = ?w, iov_off = node_end ?n,
      iov_len = BufferNodeSize - node_end ?n\<rparr>]"
    using assms(2) D(8) writer_blocks_room [OF assms(1)] by (simp add: writer_vec_def idle)
  let ?b1 = "b\<lparr>m_nodes := (m_nodes b)[?w := ?n\<lparr>node_buffer := buf\<rparr>]\<rparr>"
  have scat: "scatter [\<lparr>iov_array = 0, iov_node = ?w, iov_off = node_end ?n,
      iov_len = BufferNodeSize - node_end ?n\<rparr>] d b = Some ?b1"
    using False fits D(2) buf by (cases d) simp_all
  let ?b2 = "(append_at_write d b)\<lparr>m_availableSizeToWrite := m_availableSizeToWrite b - length d,
      m_availableSizeToRead := m_availableSizeToRead b + length d\<rparr>"
  have "writer_adjust (length d) ?b1 = Some ?b2"
    using assms(2,3) fits D(2) avail app
    by (simp add: writer_adjust_def writer_available_def)
       (subst writer_adjust_loop.simps, simp add: Let_def append_at_write_def BufferNodeSize_def)
  moreover have "ba_inv ?b2" "contents ?b2 = contents b @ d"
    using append_at_write_shape [OF shape, of d] append_at_write_contents [OF shape, of d]
      append_at_write_room [OF shape, of d] fits assms(3) avail
    by (auto simp: ba_inv_def writer_available_def)
  ultimately show ?thesis using vec scat by blast
qed

lemma receive_into_last_node_witness:
  "\<exists>vs b1 b2. writer_vec newByteArray = Some vs \<and> scatter vs [7, 8] newByteArray = Some b1
     \<and> writer_adjust (length [7, 8 :: byte]) b1 = Some b2 \<and> ba_inv b2 \<and> contents b2 = contents newByteArray @ [7, 8]"
  by (rule receive_into_last_node [OF ba_inv_new]) (simp_all add: newByteArray_def writer_available_def BufferNodeSize_def)

lemma writer_adjust_loop_frame:
  assumes "it \<le> length (m_nodes b)" "m_writeNode b < length (m_nodes b)"
  shows "length (m_nodes (writer_adjust_loop it sz b)) = length (m_nodes b)
     \<and> m_writeNode (writer_adjust_loop it sz b) = min (m_writeNode b + (length (m_nodes b) - it)) (length (m_nodes b) - 1)
     \<and> m_readNode (writer_adjust_loop it sz b) = m_readNode b
     \<and> (\<forall>i<it. m_nodes (writer_adjust_loop it sz b) ! i = m_nodes b ! i)"
  using assms
proof (induction it sz b rule: writer_adjust_loop.induct)
  case (1 it sz b)
  show ?case
  proof (cases "it < length (m_nodes b)")
    case False
    with "1.prems" show ?thesis by auto
  next
    case True
    note IH = "1.IH" [OF True refl refl refl refl]
    show ?thesis
      by (subst (1 2 3 4) writer_adjust_loop.simps) (use IH True "1.prems" in \<open>auto simp: Let_def\<close>)
  qed
qed

text \<open>When an idle node follows, receiving a few bytes leaves a broken array: the write
  node index runs to the last node although the node it left still has room.\<close>

lemma receive_with_idle_nodes_breaks:
  assumes "ba_inv b" "m_writeNode b + 1 < length (m_nodes b)"
    and "node_end (m_nodes b ! m_writeNode b) + n < BufferNodeSize"
  shows "\<exists>b'. writer_adjust n b = Some b' \<and> m_writeNode b' = length (m_nodes b) - 1 \<and> \<not> ba_inv b'"
proof -
  have shape: "ba_shape b" and avail: "m_availableSizeToWrite b = room b"
    using assms(1) by (auto simp: ba_inv_def)
  note D = ba_shapeD [OF shape]
  let ?w = "m_writeNode b" and ?n = "m_nodes b ! m_writeNode b"
  let ?e = "node_end ?n + n"
  let ?b1 = "b\<lparr>m_availableSizeToWrite := room b - n, m_availableSizeToRead := m_availableSizeToRead b + n\<rparr>"
  let ?b2 = "?b1\<lparr>m_nodes := (m_nodes b)[?w := ?n\<lparr>node_end := ?e\<rparr>], m_writeNode := ?w + 1\<rparr>"
  define b' where "b' = writer_adjust_loop (?w + 1) (sub64 n (BufferNodeSize - ?e)) ?b2"
  have "n < room b" using assms(3) by (simp add: room_def)
  then have adj: "writer_adjust n b = Some (writer_adjust_loop ?w n ?b1)"
    by (simp add: writer_adjust_def avail)
  have "writer_adjust_loop ?w n ?b1 = b'"
    unfolding b'_def
    by (subst writer_adjust_loop.simps) (use assms D(2) in \<open>simp add: Let_def BufferNodeSize_def\<close>)
  moreover have fr: "length (m_nodes b') = length (m_nodes b)" "m_writeNode b' = length (m_nodes b) - 1"
      "m_readNode b' = m_readNode b" "node_end (m_nodes b' ! ?w) = ?e"
    using writer_adjust_loop_frame [of "?w + 1" ?b2 "sub64 n (BufferNodeSize - ?e)"] assms(2)
    by (auto simp: b'_def)
  moreover have "\<not> ba_inv b'"
  proof
    assume "ba_inv b'"
    then have "ba_shape b'" by (simp add: ba_inv_def)
    then have "node_end (m_nodes b' ! ?w) = BufferNodeSize"
      by (rule ba_shapeD(5)) (use fr D(1) assms(2) in auto)
    with fr(4) assms(3) show False by simp
  qed
  ultimately show ?thesis using adj by simp
qed

definition two_nodes :: bytes where
  "two_nodes = \<lparr>m_availableSizeToRead = 0, m_availableSizeToWrite = 2048, m_readNode = 0,
     m_writeNode = 0, m_nodes = [newBufferNode, newBufferNode]\<rparr>"

lemma receive_with_idle_nodes_breaks_witness:
  "\<exists>b'. writer_adjust 10 two_nodes = Some b' \<and> m_writeNode b' = length (m_nodes two_nodes) - 1 \<and> \<not> ba_inv b'"
proof (rule receive_with_idle_nodes_breaks)
  show "ba_inv two_nodes"
    by (auto simp: ba_inv_def ba_shape_def two_nodes_def contents_def room_def less_Suc_eq
        BufferNodeSize_def numeral_2_eq_2)
qed (simp_all add: two_nodes_def BufferNodeSize_def)

end
