(* ===== verification/Channel.thy ===== *)
theory Channel
  imports ByteArrayIO SocketIO
begin

text \<open>
  The buffers that a connection shares with the user (\<^verbatim>\<open>src/channel/TcpChannel.cpp\<close>)
  and the class that tells the connection which of them to send and which to fill
  (\<^verbatim>\<open>src/internal/buffer/ChannelBufferConversion.cpp\<close>).
\<close>

record TcpChannel =
  m_writeArray :: bytes
  m_readArray :: bytes

definition newTcpChannel :: TcpChannel where
  "newTcpChannel = \<lparr>m_writeArray = newByteArray, m_readArray = newByteArray\<rparr>"

subsection \<open>\<^verbatim>\<open>ChannelWriter\<close>\<close>

text \<open>A writer holds a buffer or a null pointer; writing through null does nothing.\<close>

definition on_buffer :: "(bytes \<Rightarrow> bytes option) \<Rightarrow> bytes option \<Rightarrow> bytes option option" where
  "on_buffer f w = (case w of Some b \<Rightarrow> map_option Some (f b) | None \<Rightarrow> Some None)"

definition cw_writeInt8 :: "endian \<Rightarrow> 8 word \<Rightarrow> bytes option \<Rightarrow> bytes option option" where
  "cw_writeInt8 host value = on_buffer (writeInt8 host value)"

definition cw_writeInt16 :: "endian \<Rightarrow> 16 word \<Rightarrow> bytes option \<Rightarrow> bytes option option" where
  "cw_writeInt16 host value = on_buffer (writeInt16 host value)"

definition cw_writeInt32 :: "endian \<Rightarrow> 32 word \<Rightarrow> bytes option \<Rightarrow> bytes option option" where
  "cw_writeInt32 host value = on_buffer (writeInt32 host value)"

definition cw_writeInt64 :: "endian \<Rightarrow> 64 word \<Rightarrow> bytes option \<Rightarrow> bytes option option" where
  "cw_writeInt64 host value = on_buffer (writeInt64 host value)"

definition cw_writeUInt8 :: "endian \<Rightarrow> 8 word \<Rightarrow> bytes option \<Rightarrow> bytes option option" where
  "cw_writeUInt8 host value = on_buffer (writeUInt8 host value)"

definition cw_writeUInt16 :: "endian \<Rightarrow> 16 word \<Rightarrow> bytes option \<Rightarrow> bytes option option" where
  "cw_writeUInt16 host value = on_buffer (writeUInt16 host value)"

definition cw_writeUInt32 :: "endian \<Rightarrow> 32 word \<Rightarrow> bytes option \<Rightarrow> bytes option option" where
  "cw_writeUInt32 host value = on_buffer (writeUInt32 host value)"

definition cw_writeUInt64 :: "endian \<Rightarrow> 64 word \<Rightarrow> bytes option \<Rightarrow> bytes option option" where
  "cw_writeUInt64 host value = on_buffer (writeUInt64 host value)"

definition cw_writeFloat :: "endian \<Rightarrow> 32 word \<Rightarrow> bytes option \<Rightarrow> bytes option option" where
  "cw_writeFloat host value = on_buffer (writeFloat host value)"

definition cw_writeDouble :: "endian \<Rightarrow> 64 word \<Rightarrow> bytes option \<Rightarrow> bytes option option" where
  "cw_writeDouble host value = on_buffer (writeDouble host value)"

definition cw_writeString :: "byte list \<Rightarrow> bytes option \<Rightarrow> bytes option option" where
  "cw_writeString value = on_buffer (writeString value)"

definition cw_writeRaw :: "byte list \<Rightarrow> bytes option \<Rightarrow> bytes option option" where
  "cw_writeRaw data = on_buffer (writeRaw data)"

subsection \<open>\<^verbatim>\<open>ChannelReader\<close>\<close>

text \<open>A read gives \<^verbatim>\<open>nullopt\<close> unless the buffer has enough bytes.\<close>

definition if_readable :: "nat \<Rightarrow> (bytes \<Rightarrow> ('v \<times> bytes) option) \<Rightarrow> bytes option
    \<Rightarrow> ('v option \<times> bytes option) option" where
  "if_readable n f r = (case r of
     Some b \<Rightarrow> if n \<le> readableBytes b then map_option (\<lambda>(v, b'). (Some v, Some b')) (f b)
               else Some (None, Some b)
   | None \<Rightarrow> Some (None, None))"

definition cr_retrieveInt8 :: "endian \<Rightarrow> bytes option \<Rightarrow> (8 word option \<times> bytes option) option" where
  "cr_retrieveInt8 host = if_readable 1 (retrieveInt8 host)"

definition cr_retrieveInt16 :: "endian \<Rightarrow> bytes option \<Rightarrow> (16 word option \<times> bytes option) option" where
  "cr_retrieveInt16 host = if_readable 2 (retrieveInt16 host)"

definition cr_retrieveInt32 :: "endian \<Rightarrow> bytes option \<Rightarrow> (32 word option \<times> bytes option) option" where
  "cr_retrieveInt32 host = if_readable 4 (retrieveInt32 host)"

definition cr_retrieveInt64 :: "endian \<Rightarrow> bytes option \<Rightarrow> (64 word option \<times> bytes option) option" where
  "cr_retrieveInt64 host = if_readable 8 (retrieveInt64 host)"

definition cr_retrieveUInt8 :: "endian \<Rightarrow> bytes option \<Rightarrow> (8 word option \<times> bytes option) option" where
  "cr_retrieveUInt8 host = if_readable 1 (retrieveUInt8 host)"

definition cr_retrieveUInt16 :: "endian \<Rightarrow> bytes option \<Rightarrow> (16 word option \<times> bytes option) option" where
  "cr_retrieveUInt16 host = if_readable 2 (retrieveUInt16 host)"

definition cr_retrieveUInt32 :: "endian \<Rightarrow> bytes option \<Rightarrow> (32 word option \<times> bytes option) option" where
  "cr_retrieveUInt32 host = if_readable 4 (retrieveUInt32 host)"

definition cr_retrieveUInt64 :: "endian \<Rightarrow> bytes option \<Rightarrow> (64 word option \<times> bytes option) option" where
  "cr_retrieveUInt64 host = if_readable 8 (retrieveUInt64 host)"

definition cr_retrieveFloat :: "endian \<Rightarrow> bytes option \<Rightarrow> (32 word option \<times> bytes option) option" where
  "cr_retrieveFloat host = if_readable 4 (retrieveFloat host)"

definition cr_retrieveDouble :: "endian \<Rightarrow> bytes option \<Rightarrow> (64 word option \<times> bytes option) option" where
  "cr_retrieveDouble host = if_readable 8 (retrieveDouble host)"

definition cr_retrieveString :: "nat \<Rightarrow> bytes option \<Rightarrow> (byte list option \<times> bytes option) option" where
  "cr_retrieveString len = if_readable len (retrieveString len)"

definition cr_retrieveRaw :: "nat \<Rightarrow> bytes option \<Rightarrow> (byte list option \<times> bytes option) option" where
  "cr_retrieveRaw len = if_readable len (retrieveRaw len)"

definition cr_readableBytes :: "bytes option \<Rightarrow> nat" where
  "cr_readableBytes r = (case r of Some b \<Rightarrow> readableBytes b | None \<Rightarrow> 0)"

text \<open>A read of \<open>n\<close> bytes that decodes them with \<open>dec\<close> and has a default.\<close>

definition reads :: "nat \<Rightarrow> 'v \<Rightarrow> (byte list \<Rightarrow> 'v) \<Rightarrow> (bytes \<Rightarrow> ('v \<times> bytes) option) \<Rightarrow> bool" where
  "reads n dflt dec f \<longleftrightarrow> (\<forall>b. f b = map_option (\<lambda>(out, b'). (if length out \<noteq> n then dflt else dec out, b'))
     (retrieveRaw n b))"

definition reads_exactly :: "nat \<Rightarrow> (byte list \<Rightarrow> 'v) \<Rightarrow> (bytes option \<Rightarrow> ('v option \<times> bytes option) option)
    \<Rightarrow> bytes \<Rightarrow> bool" where
  "reads_exactly n dec f b \<longleftrightarrow>
     (if n \<le> length (contents b)
      then \<exists>b'. f (Some b) = Some (Some (dec (take n (contents b))), Some b')
         \<and> ba_inv b' \<and> contents b' = drop n (contents b)
      else f (Some b) = Some (None, Some b))"

lemma reads_exactlyI:
  assumes "ba_inv b" "reads n dflt dec f"
  shows "reads_exactly n dec (if_readable n f) b"
proof -
  have avail: "readableBytes b = length (contents b)"
    using assms(1) by (simp add: readableBytes_def ba_inv_def)
  show ?thesis
  proof (cases "n \<le> length (contents b)")
    case True
    then obtain b' where "retrieveRaw n b = Some (take n (contents b), b')" "ba_inv b'"
        "contents b' = drop n (contents b)"
      using ba.pop_enough [OF assms(1)] by blast
    then show ?thesis using True assms(2) avail by (auto simp: if_readable_def reads_def reads_exactly_def)
  qed (simp add: if_readable_def avail reads_exactly_def)
qed

lemma reads_values:
  "reads 2 0 be_word (retrieveInt16 h)" "reads 2 0 be_word (retrieveUInt16 h)"
  "reads 4 0 be_word (retrieveInt32 h)" "reads 4 0 be_word (retrieveUInt32 h)"
  "reads 8 0 be_word (retrieveInt64 h)" "reads 8 0 be_word (retrieveUInt64 h)"
  "reads 1 0 (host_word h) (retrieveInt8 h)" "reads 1 0 (host_word h) (retrieveUInt8 h)"
  "reads 4 0 (host_word h) (retrieveFloat h)" "reads 8 0 (host_word h) (retrieveDouble h)"
  by (simp_all add: reads_def read_integers read_host_values be16.pop_value_def be32.pop_value_def
        be64.pop_value_def host8.pop_value_def host32.pop_value_def host64.pop_value_def
        del: One_nat_def)

text \<open>Unlike the byte array's own reads, whose 0 is ambiguous, a channel's read of a value
  says whether there was one: with enough bytes it is the value of the first ones
  (big-endian for integers wider than a byte), which are consumed; with fewer it is nothing
  and the buffer is unchanged.\<close>

lemma channel_reader_all_or_nothing:
  assumes "ba_inv b"
  shows "reads_exactly 1 (host_word h) (cr_retrieveInt8 h) b \<and> reads_exactly 1 (host_word h) (cr_retrieveUInt8 h) b
     \<and> reads_exactly 2 be_word (cr_retrieveInt16 h) b \<and> reads_exactly 2 be_word (cr_retrieveUInt16 h) b
     \<and> reads_exactly 4 be_word (cr_retrieveInt32 h) b \<and> reads_exactly 4 be_word (cr_retrieveUInt32 h) b
     \<and> reads_exactly 8 be_word (cr_retrieveInt64 h) b \<and> reads_exactly 8 be_word (cr_retrieveUInt64 h) b
     \<and> reads_exactly 4 (host_word h) (cr_retrieveFloat h) b \<and> reads_exactly 8 (host_word h) (cr_retrieveDouble h) b"
  unfolding cr_retrieveInt8_def cr_retrieveUInt8_def cr_retrieveInt16_def cr_retrieveUInt16_def
    cr_retrieveInt32_def cr_retrieveUInt32_def cr_retrieveInt64_def cr_retrieveUInt64_def
    cr_retrieveFloat_def cr_retrieveDouble_def
  by (intro conjI reads_values [THEN reads_exactlyI [OF assms]])

lemma channel_reader_all_or_nothing_witness:
  "cr_retrieveInt32 LittleEndian (Some newByteArray) = Some (None, Some newByteArray)"
  using channel_reader_all_or_nothing [OF ba_inv_new, of LittleEndian] by (simp add: reads_exactly_def)

subsection \<open>\<^verbatim>\<open>TcpChannelConversion\<close>\<close>

text \<open>
  \<^verbatim>\<open>readBufferConvert\<close> (what is sent) is a reader of \<^verbatim>\<open>m_readArray\<close>;
  \<^verbatim>\<open>writeBufferConvert\<close> (what is filled) is a reader, too, of
  \<^verbatim>\<open>m_writeArray\<close>. \<open>channel_transmit\<close> is
  \<^verbatim>\<open>SocketIO::write\<close> on the first, with the bytes that the kernel took;
  \<open>channel_receive\<close> is \<^verbatim>\<open>SocketIO::read\<close> on the second after the kernel has
  stored \<open>data\<close> in its blocks.
\<close>

definition channel_transmit :: "(nat \<Rightarrow> sysret) \<Rightarrow> TcpChannel \<Rightarrow> (bool \<times> TcpChannel) result option" where
  "channel_transmit calls c = do {
     vs \<leftarrow> reader_vec (m_readArray c);
     r \<leftarrow> SocketIO_write reader_adjust reader_available calls (m_readArray c);
     Some (case r of Inl x \<Rightarrow> Inl x | Inr (completed, b) \<Rightarrow> Inr (completed, c\<lparr>m_readArray := b\<rparr>))
   }"

definition channel_receive :: "(nat \<Rightarrow> sysret) \<Rightarrow> byte list \<Rightarrow> TcpChannel \<Rightarrow> TcpChannel result option" where
  "channel_receive calls data c = do {
     vs \<leftarrow> reader_vec (m_writeArray c);
     b \<leftarrow> scatter vs data (m_writeArray c);
     r \<leftarrow> SocketIO_read reader_adjust calls b;
     Some (case r of Inl x \<Rightarrow> Inl x | Inr b \<Rightarrow> Inr (c\<lparr>m_writeArray := b\<rparr>))
   }"

text \<open>The bytes that the kernel can take from the blocks given to \<^verbatim>\<open>sendmsg\<close>.\<close>

definition channel_offered :: "TcpChannel \<Rightarrow> byte list option" where
  "channel_offered c = do { vs \<leftarrow> reader_vec (m_readArray c); gather [m_readArray c] vs }"

definition channel_write :: "byte list \<Rightarrow> TcpChannel \<Rightarrow> TcpChannel option" where
  "channel_write d c = do {
     w \<leftarrow> cw_writeRaw d (Some (m_writeArray c));
     b \<leftarrow> w;
     Some (c\<lparr>m_writeArray := b\<rparr>)
   }"

definition channel_read :: "nat \<Rightarrow> TcpChannel \<Rightarrow> (byte list option \<times> TcpChannel) option" where
  "channel_read n c = do {
     (out, r) \<leftarrow> cr_retrieveRaw n (Some (m_readArray c));
     b \<leftarrow> r;
     Some (out, c\<lparr>m_readArray := b\<rparr>)
   }"

subsection \<open>Filling the blocks of a reader\<close>

text \<open>Arrays that differ only in the bytes of the given nodes.\<close>

definition same_frame :: "nat set \<Rightarrow> bytes \<Rightarrow> bytes \<Rightarrow> bool" where
  "same_frame A b b' \<longleftrightarrow> (\<exists>ns. b' = b\<lparr>m_nodes := ns\<rparr> \<and> length ns = length (m_nodes b)
     \<and> (\<forall>i < length ns. node_start (ns ! i) = node_start (m_nodes b ! i)
          \<and> node_end (ns ! i) = node_end (m_nodes b ! i)
          \<and> length (node_buffer (ns ! i)) = length (node_buffer (m_nodes b ! i))
          \<and> (i \<notin> A \<longrightarrow> ns ! i = m_nodes b ! i)))"

lemma same_frame_refl: "same_frame A b b"
  unfolding same_frame_def by (rule exI [of _ "m_nodes b"]) simp

lemma same_frame_trans:
  assumes "same_frame A b b'" "same_frame B b' b''"
  shows "same_frame (A \<union> B) b b''"
  using assms unfolding same_frame_def by (elim exE conjE) (rule_tac x = nsa in exI, simp)

lemma same_frame_inv:
  assumes "same_frame A b b'" "ba_inv b"
  shows "ba_shape b'" "length (contents b') = length (contents b)" "ba_inv b'"
proof -
  from assms(1) obtain ns where ns: "b' = b\<lparr>m_nodes := ns\<rparr>" "length ns = length (m_nodes b)"
    and same: "\<And>i. i < length ns \<Longrightarrow> node_start (ns ! i) = node_start (m_nodes b ! i)
       \<and> node_end (ns ! i) = node_end (m_nodes b ! i)
       \<and> length (node_buffer (ns ! i)) = length (node_buffer (m_nodes b ! i))"
    by (auto simp: same_frame_def)
  have shape: "ba_shape b" using assms(2) by (simp add: ba_inv_def)
  note D = ba_shapeD [OF shape]
  have ok: "node_ok (ns ! i)" if "i < length ns" for i
    using D(4) [of i] same [OF that] that ns(2) by (simp add: node_ok_def)
  then have "\<forall>n \<in> set ns. node_ok n" by (auto simp: in_set_conv_nth)
  with D same ns(2) show "ba_shape b'" unfolding ns(1) ba_shape_def by simp
  have "map length (map node_data (drop (m_readNode b) ns))
      = map length (map node_data (drop (m_readNode b) (m_nodes b)))"
    using same ns(2) ok D(4) by (intro nth_equalityI) simp_all
  then show len: "length (contents b') = length (contents b)"
    by (simp add: ns(1) contents_def length_concat)
  show "ba_inv b'"
    using \<open>ba_shape b'\<close> len assms(2) same [of "m_writeNode b"] D(2) ns by (simp add: ba_inv_def room_def)
qed

lemma same_frame_iov:
  "same_frame A b b' \<Longrightarrow> i < length (m_nodes b) \<Longrightarrow> node_iov a b' i = node_iov a b i"
  by (auto simp: same_frame_def node_iov_def Let_def)

text \<open>Overwriting the front of one node's data.\<close>

lemma overwrite_node:
  assumes "node_ok n" "length d \<le> node_end n - node_start n"
  shows "\<exists>buf. memcpy_in (node_buffer n) (node_start n) d = Some buf
     \<and> length buf = length (node_buffer n)
     \<and> node_data (n\<lparr>node_buffer := buf\<rparr>) = d @ drop (length d) (node_data n)"
proof -
  let ?s = "node_start n" and ?buf = "node_buffer n"
  have le: "?s + length d \<le> node_end n" "node_end n \<le> length ?buf"
    using assms by (auto simp: node_ok_def)
  then have "memcpy_in ?buf ?s d = Some (take ?s ?buf @ d @ drop (?s + length d) ?buf)"
    by (simp add: memcpy_in_def)
  moreover have "drop ?s (take ?s ?buf @ d @ drop (?s + length d) ?buf) = d @ drop (?s + length d) ?buf"
    using le by (simp add: min_def)
  then have "node_data (n\<lparr>node_buffer := take ?s ?buf @ d @ drop (?s + length d) ?buf\<rparr>)
      = take (node_end n - ?s) (d @ drop (?s + length d) ?buf)"
    by (simp add: node_data_def)
  moreover have "take (node_end n - ?s) (d @ drop (?s + length d) ?buf)
      = d @ drop (length d) (node_data n)"
    using le assms(2) by (simp add: node_data_def drop_take add.commute)
  ultimately show ?thesis using le by auto
qed

lemma scatter_nodes:
  assumes "distinct is" "\<And>i. i \<in> set is \<Longrightarrow> i < length (m_nodes b) \<and> node_ok (m_nodes b ! i)"
    and "length d \<le> length (concat (map (\<lambda>i. node_data (m_nodes b ! i)) is))"
  shows "\<exists>b'. scatter (concat (map (node_iov 0 b) is)) d b = Some b' \<and> same_frame (set is) b b'
    \<and> concat (map (\<lambda>i. node_data (m_nodes b' ! i)) is)
        = d @ drop (length d) (concat (map (\<lambda>i. node_data (m_nodes b ! i)) is))"
  using assms
proof (induction "is" arbitrary: d b)
  case Nil
  then show ?case by (simp add: same_frame_refl)
next
  case (Cons i "is")
  let ?n = "m_nodes b ! i"
  have i: "i < length (m_nodes b)" "node_ok ?n" "i \<notin> set is" "distinct is" using Cons.prems by auto
  consider "d = []" | "d \<noteq> []" "node_start ?n = node_end ?n" | "d \<noteq> []" "node_start ?n \<noteq> node_end ?n"
    by blast
  then show ?case
  proof cases
    case 1
    then show ?thesis by (simp add: same_frame_refl)
  next
    case 2
    then have none: "node_iov 0 b i = []" "node_data ?n = []"
      by (simp_all add: node_iov_def Let_def node_data_empty)
    obtain b' where b': "scatter (concat (map (node_iov 0 b) is)) d b = Some b'" "same_frame (set is) b b'"
        "concat (map (\<lambda>i. node_data (m_nodes b' ! i)) is)
          = d @ drop (length d) (concat (map (\<lambda>i. node_data (m_nodes b ! i)) is))"
      using Cons.IH [OF i(4), of b d] Cons.prems none(2) by auto
    have "m_nodes b' ! i = ?n" using b'(2) i(1,3) by (auto simp: same_frame_def)
    moreover have "same_frame (set (i # is)) b b'" using b'(2) by (auto simp: same_frame_def)
    ultimately show ?thesis using b' none by auto
  next
    case 3
    define len where "len = node_end ?n - node_start ?n"
    have len: "length (node_data ?n) = len" using i(2) by (simp add: len_def)
    obtain buf where buf: "memcpy_in (node_buffer ?n) (node_start ?n) (take len d) = Some buf"
        "length buf = length (node_buffer ?n)"
        "node_data (?n\<lparr>node_buffer := buf\<rparr>) = take len d @ drop (length (take len d)) (node_data ?n)"
      using overwrite_node [OF i(2), of "take len d"] by (auto simp: len_def)
    define b1 where "b1 = b\<lparr>m_nodes := (m_nodes b)[i := ?n\<lparr>node_buffer := buf\<rparr>]\<rparr>"
    have frame1: "same_frame {i} b b1"
      unfolding same_frame_def b1_def
      by (rule exI [of _ "(m_nodes b)[i := ?n\<lparr>node_buffer := buf\<rparr>]"]) (auto simp: buf(2) nth_list_update i(1))
    have other: "m_nodes b1 ! j = m_nodes b ! j" if "j \<in> set is" for j
      using that i(3) by (cases "i = j") (auto simp: b1_def)
    then have data1: "map (\<lambda>i. node_data (m_nodes b1 ! i)) is = map (\<lambda>i. node_data (m_nodes b ! i)) is"
      by simp
    have iov1: "map (node_iov 0 b1) is = map (node_iov 0 b) is"
      using same_frame_iov [OF frame1] Cons.prems(2) by simp
    have "length (drop len d) \<le> length (concat (map (\<lambda>i. node_data (m_nodes b1 ! i)) is))"
      using Cons.prems(3) len by (simp add: data1)
    moreover have "j < length (m_nodes b1) \<and> node_ok (m_nodes b1 ! j)" if "j \<in> set is" for j
      using Cons.prems(2) [of j] that other [OF that] by (simp add: b1_def)
    ultimately obtain b' where b': "scatter (concat (map (node_iov 0 b) is)) (drop len d) b1 = Some b'"
        "same_frame (set is) b1 b'"
        "concat (map (\<lambda>i. node_data (m_nodes b' ! i)) is)
          = drop len d @ drop (length d - len) (concat (map (\<lambda>i. node_data (m_nodes b ! i)) is))"
      using Cons.IH [OF i(4), of b1 "drop len d"] iov1 data1 by auto
    have "node_iov 0 b i = [\<lparr>iov_array = 0, iov_node = i, iov_off = node_start ?n, iov_len = len\<rparr>]"
      using 3 by (simp add: node_iov_def Let_def len_def)
    then have "scatter (concat (map (node_iov 0 b) (i # is))) d b = Some b'"
      using 3(1) i(1) buf(1) b'(1) by (cases d) (simp_all add: b1_def)
    moreover have "same_frame (set (i # is)) b b'"
      using same_frame_trans [OF frame1 b'(2)] by simp
    moreover have "m_nodes b' ! i = ?n\<lparr>node_buffer := buf\<rparr>"
      using b'(2) i(1,3) by (auto simp: same_frame_def b1_def)
    then have "concat (map (\<lambda>i. node_data (m_nodes b' ! i)) (i # is))
        = d @ drop (length d) (concat (map (\<lambda>i. node_data (m_nodes b ! i)) (i # is)))"
      using b'(3) buf(3) len by (cases "length d \<le> len") (simp_all add: min_def)
    ultimately show ?thesis by blast
  qed
qed

lemma scatter_reader:
  assumes "ba_inv b" "length d \<le> length (contents b)"
  shows "\<exists>vs b'. reader_vec b = Some vs \<and> scatter vs d b = Some b' \<and> ba_inv b'
    \<and> contents b' = d @ drop (length d) (contents b)
    \<and> (adjustable n b \<longrightarrow> adjustable n b')"
proof -
  have shape: "ba_shape b" using assms(1) by (simp add: ba_inv_def)
  note D = ba_shapeD [OF shape]
  obtain e where e: "endOfReadNode b = Some e"
    "e = m_writeNode b + 1 \<or> e = m_writeNode b \<and> node_end (m_nodes b ! m_writeNode b) = 0"
    using endOfReadNode_shape [OF shape] by blast
  let ?is = "[m_readNode b..<e]"
  have le: "m_readNode b \<le> e" "e \<le> length (m_nodes b)" using e(2) D by auto
  have loop: "reader_loop 0 b (m_readNode b) e = Some (concat (map (node_iov 0 b) ?is))"
    using le D by (intro reader_loop_eq) auto
  have data: "contents b = concat (map (\<lambda>i. node_data (m_nodes b ! i)) ?is)"
    by (rule contents_upto [OF shape e(2)])
  obtain b' where b': "scatter (concat (map (node_iov 0 b) ?is)) d b = Some b'" "same_frame (set ?is) b b'"
      "concat (map (\<lambda>i. node_data (m_nodes b' ! i)) ?is) = d @ drop (length d) (contents b)"
    using scatter_nodes [of ?is b d] le D(4) assms(2) unfolding data by auto
  note inv = same_frame_inv [OF b'(2) assms(1)]
  have same: "m_readNode b' = m_readNode b" "m_writeNode b' = m_writeNode b"
      "m_availableSizeToRead b' = m_availableSizeToRead b"
      "\<And>i. i < length (m_nodes b) \<Longrightarrow> node_end (m_nodes b' ! i) = node_end (m_nodes b ! i)
         \<and> node_start (m_nodes b' ! i) = node_start (m_nodes b ! i)"
    using b'(2) by (auto simp: same_frame_def)
  have "contents b' = concat (map (\<lambda>i. node_data (m_nodes b' ! i)) [m_readNode b'..<e])"
    using e(2) same(2,4) D(2) by (intro contents_upto [OF inv(1)]) auto
  then have "contents b' = d @ drop (length d) (contents b)" using b'(3) same(1) by simp
  moreover have "reader_vec b = Some (concat (map (node_iov 0 b) ?is))"
    using reader_vec_contents [OF assms(1)] loop e(1) by (auto simp: reader_vec_def split: if_splits)
  moreover have "adjustable n b \<longrightarrow> adjustable n b'"
    using same D(3) by (simp add: adjustable_def Let_def)
  ultimately show ?thesis using b'(1) inv(3) by blast
qed

text \<open>Reading the end of the stream.\<close>

lemma receive_eof:
  assumes "ba_inv (m_writeArray c)"
  shows "\<exists>c'. channel_receive (\<lambda>_. SysOk 0) [] c = Some (Inr c') \<and> m_readArray c' = m_readArray c
     \<and> ba_inv (m_writeArray c') \<and> contents (m_writeArray c') = contents (m_writeArray c)"
proof -
  obtain vs where vs: "reader_vec (m_writeArray c) = Some vs" using reader_vec_contents [OF assms] by blast
  have "adjustable 0 (m_writeArray c)" by (simp add: adjustable_def Let_def BufferNodeSize_def)
  then obtain b where "reader_adjust 0 (m_writeArray c) = Some b" "ba_inv b" "contents b = contents (m_writeArray c)"
    using reader_adjust_drop [OF assms, of 0] by auto
  then show ?thesis using vs
    by (simp add: channel_receive_def SocketIO_read_def stub_recvmsg_def restart_stops)
qed

lemma transmit_nothing:
  assumes "ba_inv (m_readArray c)" "contents (m_readArray c) = []"
  shows "\<exists>c'. channel_transmit (\<lambda>_. SysOk 0) c = Some (Inr (True, c')) \<and> m_writeArray c' = m_writeArray c
     \<and> ba_inv (m_readArray c') \<and> contents (m_readArray c') = []"
proof -
  obtain vs where vs: "reader_vec (m_readArray c) = Some vs" using reader_vec_contents [OF assms(1)] by blast
  have "adjustable 0 (m_readArray c)" by (simp add: adjustable_def Let_def BufferNodeSize_def)
  then obtain b where "reader_adjust 0 (m_readArray c) = Some b" "ba_inv b" "contents b = []"
    using reader_adjust_drop [OF assms(1), of 0] assms(2) by auto
  then show ?thesis using vs
    by (simp add: channel_transmit_def SocketIO_write_def Let_def stub_sendmsg_def restart_stops)
qed

text \<open>Received bytes overwrite what the user has written and not sent: when the kernel
  stores \<open>n\<close> bytes, at most as many as are waiting, the first \<open>n\<close> waiting bytes are
  gone, the received ones are nowhere and the user's read buffer is untouched.\<close>

lemma receive_destroys_unsent:
  assumes "ba_inv (m_writeArray c)" "length d \<le> length (contents (m_writeArray c))"
    and "adjustable (length d) (m_writeArray c)"
  shows "\<exists>c'. channel_receive (\<lambda>_. SysOk (int (length d))) d c = Some (Inr c')
     \<and> m_readArray c' = m_readArray c \<and> ba_inv (m_writeArray c')
     \<and> contents (m_writeArray c') = drop (length d) (contents (m_writeArray c))"
proof -
  obtain vs b where vs: "reader_vec (m_writeArray c) = Some vs" "scatter vs d (m_writeArray c) = Some b"
    "ba_inv b" "contents b = d @ drop (length d) (contents (m_writeArray c))" "adjustable (length d) b"
    using scatter_reader [OF assms(1,2)] assms(3) by blast
  obtain b' where "reader_adjust (length d) b = Some b'" "ba_inv b'" "contents b' = drop (length d) (contents b)"
    using reader_adjust_drop [OF vs(3,5)] by blast
  then show ?thesis
    using vs by (simp add: channel_receive_def SocketIO_read_def stub_recvmsg_def restart_stops)
qed

lemma receive_destroys_unsent_witness:
  "\<exists>w c'. writeRaw [1, 2] newByteArray = Some w
     \<and> channel_receive (\<lambda>_. SysOk 2) [7, 8] \<lparr>m_writeArray = w, m_readArray = newByteArray\<rparr> = Some (Inr c')
     \<and> m_readArray c' = newByteArray \<and> contents (m_writeArray c') = []"
proof -
  obtain w where w: "writeRaw [1, 2] newByteArray = Some w" "ba_inv w" "contents w = [1, 2]"
    using ba.push_ok [OF ba_inv_new, of "[1, 2]"] by auto
  then have "adjustable (length [7, 8 :: byte]) w" by (simp add: adjustable_def Let_def ba_inv_def)
  with receive_destroys_unsent [of "\<lparr>m_writeArray = w, m_readArray = newByteArray\<rparr>" "[7, 8]"] w
  show ?thesis by auto
qed

subsection \<open>Every use of a channel\<close>

datatype channel_op =
    UserWrite "byte list" | UserRead nat | Transmit "nat \<Rightarrow> sysret" | Receive "nat \<Rightarrow> sysret" "byte list"

text \<open>The state is the channel, the bytes the peer has been sent and those the user has read.\<close>

definition channel_step :: "(TcpChannel \<times> byte list \<times> byte list) option \<Rightarrow> channel_op
    \<Rightarrow> (TcpChannel \<times> byte list \<times> byte list) option" where
  "channel_step s oper = do {
     (c, sent, got) \<leftarrow> s;
     case oper of
       UserWrite d \<Rightarrow> map_option (\<lambda>c. (c, sent, got)) (channel_write d c)
     | UserRead n \<Rightarrow> map_option (\<lambda>(out, c). (c, sent, got @ (case out of Some d \<Rightarrow> d | None \<Rightarrow> [])))
         (channel_read n c)
     | Transmit calls \<Rightarrow> do {
         offered \<leftarrow> channel_offered c;
         r \<leftarrow> channel_transmit calls c;
         n \<leftarrow> stub_sendmsg calls;
         Some (case r of Inl _ \<Rightarrow> (c, sent, got)
               | Inr (_, c) \<Rightarrow> (c, sent @ take (case n of Inr k \<Rightarrow> nat k | Inl _ \<Rightarrow> 0) offered, got))
       }
     | Receive calls d \<Rightarrow> map_option (\<lambda>r. (case r of Inl _ \<Rightarrow> (c, sent, got) | Inr c \<Rightarrow> (c, sent, got)))
         (channel_receive calls d c)
   }"

definition channel_inv :: "(TcpChannel \<times> byte list \<times> byte list) option \<Rightarrow> bool" where
  "channel_inv s \<longleftrightarrow> (case s of None \<Rightarrow> True
     | Some (c, sent, got) \<Rightarrow> ba_inv (m_readArray c) \<and> contents (m_readArray c) = [] \<and> sent = [] \<and> got = [])"

lemma transmit_idle:
  assumes "ba_inv (m_readArray c)" "contents (m_readArray c) = []" "channel_transmit calls c = Some (Inr (ok, c'))"
  shows "ba_inv (m_readArray c')" "contents (m_readArray c') = []"
proof -
  have avail: "m_availableSizeToRead (m_readArray c) = 0" using assms(1,2) by (simp add: ba_inv_def)
  obtain b where "reader_adjust n (m_readArray c) = Some b" "ba_inv b" "contents b = []" for n
    using adjust_all_ok [OF assms(1)] avail by (auto simp: reader_adjust_def)
  then show "ba_inv (m_readArray c')" "contents (m_readArray c') = []"
    using assms by (auto simp: channel_transmit_def SocketIO_write_def Let_def
        split: bind_splits sum.splits if_splits)
qed

lemma offered_idle:
  "ba_inv (m_readArray c) \<Longrightarrow> contents (m_readArray c) = [] \<Longrightarrow> channel_offered c = Some []"
  using reader_vec_contents [of "m_readArray c"] by (auto simp: channel_offered_def)

lemma receive_read_array: "channel_receive calls d c = Some (Inr c') \<Longrightarrow> m_readArray c' = m_readArray c"
  by (auto simp: channel_receive_def split: bind_splits sum.splits)

lemma read_idle:
  assumes "ba_inv (m_readArray c)" "contents (m_readArray c) = []"
  shows "channel_read n c = Some (if n = 0 then Some [] else None, c)"
proof -
  have "m_availableSizeToRead (m_readArray c) = 0" using assms by (simp add: ba_inv_def)
  moreover have "retrieveRaw 0 (m_readArray c) = Some ([], m_readArray c)"
    using ba.pop_enough [OF assms(1), of 0] by (auto simp: retrieveRaw_def split: bind_splits)
  ultimately show ?thesis
    by (simp add: channel_read_def cr_retrieveRaw_def if_readable_def readableBytes_def)
qed

lemma channel_step_inv: "channel_inv s \<Longrightarrow> channel_inv (channel_step s oper)"
proof (cases s)
  case (Some t)
  assume inv: "channel_inv s"
  obtain c sent got where t: "t = (c, sent, got)" by (cases t) auto
  have idle: "ba_inv (m_readArray c)" "contents (m_readArray c) = []" "sent = []" "got = []"
    using inv Some t by (auto simp: channel_inv_def)
  show ?thesis
  proof (cases oper)
    case (UserWrite d)
    then show ?thesis using Some t idle
      by (auto simp: channel_step_def channel_inv_def channel_write_def split: option.split bind_splits)
  next
    case (UserRead n)
    then show ?thesis using Some t idle
      by (simp add: channel_step_def channel_inv_def read_idle [OF idle(1,2)])
  next
    case (Transmit calls)
    then show ?thesis using Some t idle transmit_idle [OF idle(1,2)] offered_idle [OF idle(1,2)]
      by (auto simp: channel_step_def channel_inv_def split: option.split bind_splits sum.splits)
  next
    case (Receive calls d)
    then show ?thesis using Some t idle receive_read_array [of calls d c]
      by (auto simp: channel_step_def channel_inv_def split: option.split bind_splits sum.splits)
  qed
qed (simp add: channel_step_def channel_inv_def)

interpretation channel: machine "\<lambda>s. s = Some (newTcpChannel, [], [])" channel_step channel_inv
  by unfold_locales (simp_all add: channel_step_inv, simp add: channel_inv_def newTcpChannel_def)

text \<open>C7. Whatever the user writes and reads and the kernel sends and receives, through a
  \<^verbatim>\<open>TcpChannel\<close> no byte is ever sent to the peer and no byte ever reaches the
  user.\<close>

theorem channel_transfers_nothing:
  assumes "run_steps channel_step (Some (newTcpChannel, [], [])) ops = Some (c, sent, got)"
  shows "sent = [] \<and> got = [] \<and> cr_readableBytes (Some (m_readArray c)) = 0 \<and> channel_offered c = Some []"
proof -
  have "channel_inv (Some (c, sent, got))"
    using channel.run_initial_inv [OF refl, of ops] assms by simp
  then have idle: "ba_inv (m_readArray c)" "contents (m_readArray c) = []" "sent = []" "got = []"
    by (auto simp: channel_inv_def)
  then show ?thesis
    by (simp add: offered_idle cr_readableBytes_def readableBytes_def ba_inv_def)
qed

lemma channel_transfers_nothing_witness:
  "\<exists>c. run_steps channel_step (Some (newTcpChannel, [], [])) [UserWrite [1, 2, 3], Transmit (\<lambda>_. SysOk 0)] = Some (c, [], [])
     \<and> channel_offered c = Some []"
proof -
  obtain w where w: "writeRaw [1, 2, 3] newByteArray = Some w" using ba.push_ok [OF ba_inv_new] by blast
  let ?c = "newTcpChannel\<lparr>m_writeArray := w\<rparr>"
  have wr: "channel_write [1, 2, 3] newTcpChannel = Some ?c"
    using w by (simp add: channel_write_def cw_writeRaw_def on_buffer_def newTcpChannel_def)
  have idle: "ba_inv (m_readArray ?c)" "contents (m_readArray ?c) = []"
    by (simp_all add: newTcpChannel_def ba_inv_new)
  obtain b where b: "reader_adjust 0 (m_readArray ?c) = Some b"
    using adjust_all_ok [OF idle(1)] by (auto simp: reader_adjust_def newTcpChannel_def newByteArray_def)
  obtain vs where vs: "reader_vec (m_readArray ?c) = Some vs" using reader_vec_contents [OF idle(1)] by blast
  have send: "stub_sendmsg (\<lambda>_. SysOk 0) = Some (Inr 0)" by (simp add: stub_sendmsg_def restart_stops)
  have "channel_transmit (\<lambda>_. SysOk 0) ?c = Some (Inr (True, ?c\<lparr>m_readArray := b\<rparr>))"
    using b vs by (simp add: channel_transmit_def SocketIO_write_def Let_def send)
  then have run: "run_steps channel_step (Some (newTcpChannel, [], [])) [UserWrite [1, 2, 3], Transmit (\<lambda>_. SysOk 0)]
      = Some (?c\<lparr>m_readArray := b\<rparr>, [], [])"
    using wr offered_idle [OF idle] by (simp add: channel_step_def send)
  from channel_transfers_nothing [OF this] run show ?thesis by blast
qed

end
