(* ===== verification/Epoll.thy ===== *)
theory Epoll
  imports Stub
begin

text \<open>
  The poller (\<^verbatim>\<open>src/internal/epoll/\<close>): the interest mask of an event, the order
  in which a ready event reaches its handler, and \<^verbatim>\<open>Epoll\<close>, which keeps the map
  from descriptors to events and turns changes into \<^verbatim>\<open>epoll_ctl\<close> calls. Events are
  numbered; the calls to the kernel are kept in a log and their results are arguments. At the
  end the poller runs against a model of the kernel's interest list.
\<close>

datatype EpollEv = EV_IN | EV_OUT | EV_RDHUP | EV_PRI | EV_ERR | EV_HUP

text \<open>The masks of \<^verbatim>\<open>sys/epoll.h\<close>.\<close>

fun ev_mask :: "EpollEv \<Rightarrow> 32 word" where
  "ev_mask EV_IN = 0x001"
| "ev_mask EV_PRI = 0x002"
| "ev_mask EV_OUT = 0x004"
| "ev_mask EV_ERR = 0x008"
| "ev_mask EV_HUP = 0x010"
| "ev_mask EV_RDHUP = 0x2000"

record EpollEvent =
  watchingFd :: int
  watchingEvents :: "32 word"
  activeEvents :: "32 word"
  handlerAlive :: bool

definition newEpollEvent :: "int \<Rightarrow> EpollEvent" where
  "newEpollEvent fd = \<lparr>watchingFd = fd, watchingEvents = 0, activeEvents = 0, handlerAlive = True\<rparr>"

definition mask_active :: "EpollEv list \<Rightarrow> 32 word \<Rightarrow> 32 word" where
  "mask_active evs m = fold (\<lambda>ev m. or m (ev_mask ev)) evs m"

definition mask_deactivate :: "EpollEv list \<Rightarrow> 32 word \<Rightarrow> 32 word" where
  "mask_deactivate evs m = fold (\<lambda>ev m. and m (not (ev_mask ev))) evs m"

text \<open>The calls that \<^verbatim>\<open>handleEvents\<close> makes on its handler, in order.\<close>

datatype handler_call = HandleErr | HandleRdhup | HandleIn | HandleOut | HandlePri | HandleHup

definition handleEvents :: "EpollEvent \<Rightarrow> handler_call list" where
  "handleEvents e =
     (if handlerAlive e then
        (if and (activeEvents e) (ev_mask EV_ERR) \<noteq> 0 then [HandleErr] else [])
      @ (if and (activeEvents e) (ev_mask EV_RDHUP) \<noteq> 0 then [HandleRdhup] else [])
      @ (if and (activeEvents e) (ev_mask EV_IN) \<noteq> 0 then [HandleIn] else [])
      @ (if and (activeEvents e) (ev_mask EV_OUT) \<noteq> 0 then [HandleOut] else [])
      @ (if and (activeEvents e) (ev_mask EV_PRI) \<noteq> 0 then [HandlePri] else [])
      @ (if and (activeEvents e) (ev_mask EV_HUP) \<noteq> 0 then [HandleHup] else [])
      else [])"

subsection \<open>\<^verbatim>\<open>Epoll\<close>\<close>

datatype ctl_op = CTL_ADD | CTL_MOD | CTL_DEL

record Epoll =
  m_activeEvents_size :: nat
  poll_events :: "int \<rightharpoonup> nat"
  ctl_log :: "(ctl_op \<times> int \<times> 32 word) list"

definition newEpoll :: Epoll where
  "newEpoll = \<lparr>m_activeEvents_size = 32, poll_events = Map.empty, ctl_log = []\<rparr>"

text \<open>
  \<^verbatim>\<open>poll\<close>: \<open>reported\<close> are the entries that the kernel has stored in
  \<^verbatim>\<open>m_activeEvents\<close>, \<open>channels\<close> the number of elements of the caller's
  vector, which is written without a bounds check. The result is the events with their
  active masks.
\<close>

definition epoll_poll :: "(nat \<Rightarrow> sysret) \<Rightarrow> (nat \<times> 32 word) list \<Rightarrow> nat \<Rightarrow> Epoll
    \<Rightarrow> ((nat \<times> 32 word) list \<times> Epoll) option" where
  "epoll_poll calls reported channels p = do {
     nums \<leftarrow> stub_epoll_wait calls;
     if nums = - 1 then Some ([], p)
     else
       let grow = nums = int (m_activeEvents_size p) \<and> m_activeEvents_size p * 2 < 2 ^ 31 - 1;
           p' = (if grow then p\<lparr>m_activeEvents_size := m_activeEvents_size p * 2\<rparr> else p);
           channels' = (if grow then m_activeEvents_size p' * 2 else channels)
       in if nat nums \<le> channels' then Some (take (nat nums) reported, p') else None
   }"

text \<open>\<^verbatim>\<open>updateEvent\<close> and \<^verbatim>\<open>removeEvent\<close> swallow the exception and ignore
  the result of \<^verbatim>\<open>epoll_ctl\<close>.\<close>

definition updateEvent :: "nat \<Rightarrow> EpollEvent \<Rightarrow> sysret \<Rightarrow> Epoll \<Rightarrow> Epoll" where
  "updateEvent i e call p =
     (let fd = watchingFd e;
          (ev, oper) = (case poll_events p fd of
             None \<Rightarrow> ((poll_events p)(fd \<mapsto> i), CTL_ADD)
           | Some j \<Rightarrow> (if j \<noteq> i then (poll_events p)(fd \<mapsto> i) else poll_events p, CTL_MOD));
          p' = p\<lparr>poll_events := ev, ctl_log := ctl_log p @ [(oper, fd, watchingEvents e)]\<rparr>
      in case stub_epoll_ctl call of Inl _ \<Rightarrow> p' | Inr _ \<Rightarrow> p')"

definition removeEvent :: "EpollEvent \<Rightarrow> sysret \<Rightarrow> Epoll \<Rightarrow> Epoll" where
  "removeEvent e call p =
     (let fd = watchingFd e in
      case poll_events p fd of
        None \<Rightarrow> p
      | Some _ \<Rightarrow>
          let p' = p\<lparr>poll_events := (poll_events p)(fd := None), ctl_log := ctl_log p @ [(CTL_DEL, fd, 0)]\<rparr>
          in case stub_epoll_ctl call of Inl _ \<Rightarrow> p' | Inr _ \<Rightarrow> p')"

definition event_active :: "nat \<Rightarrow> EpollEv list \<Rightarrow> sysret \<Rightarrow> EpollEvent \<times> Epoll \<Rightarrow> EpollEvent \<times> Epoll" where
  "event_active i evs call s =
     (let e = (fst s)\<lparr>watchingEvents := mask_active evs (watchingEvents (fst s))\<rparr>
      in (e, updateEvent i e call (snd s)))"

definition event_deactivate :: "nat \<Rightarrow> EpollEv list \<Rightarrow> sysret \<Rightarrow> EpollEvent \<times> Epoll \<Rightarrow> EpollEvent \<times> Epoll" where
  "event_deactivate i evs call s =
     (let e = (fst s)\<lparr>watchingEvents := mask_deactivate evs (watchingEvents (fst s))\<rparr>
      in (e, updateEvent i e call (snd s)))"

definition event_disable :: "sysret \<Rightarrow> EpollEvent \<times> Epoll \<Rightarrow> EpollEvent \<times> Epoll" where
  "event_disable call s = (fst s, removeEvent (fst s) call (snd s))"

subsection \<open>Interest masks\<close>

definition watches :: "32 word \<Rightarrow> EpollEv \<Rightarrow> bool" where
  "watches m ev \<longleftrightarrow> and m (ev_mask ev) \<noteq> 0"

fun ev_bit :: "EpollEv \<Rightarrow> nat" where
  "ev_bit EV_IN = 0" | "ev_bit EV_PRI = 1" | "ev_bit EV_OUT = 2" | "ev_bit EV_ERR = 3"
| "ev_bit EV_HUP = 4" | "ev_bit EV_RDHUP = 13"

lemma ev_mask_bit: "ev_mask ev = 2 ^ ev_bit ev"
  by (cases ev) simp_all

lemma ev_bit_less: "ev_bit ev < 32"
  by (cases ev) simp_all

lemma ev_bit_inj: "ev_bit a = ev_bit b \<longleftrightarrow> a = b"
  by (cases a; cases b) simp_all

lemma watches_bit: "watches m ev \<longleftrightarrow> bit m (ev_bit ev)"
  by (simp add: watches_def ev_mask_bit and_exp_eq_0_iff_not_bit)

lemma bit_ev_mask: "bit (ev_mask ev) n \<longleftrightarrow> n = ev_bit ev"
  using ev_bit_less [of ev] by (auto simp: ev_mask_bit bit_simps)

lemma watches_active: "watches (mask_active evs m) ev \<longleftrightarrow> ev \<in> set evs \<or> watches m ev"
  by (induction evs arbitrary: m) (auto simp: mask_active_def watches_bit bit_simps bit_ev_mask ev_bit_inj)

lemma watches_deactivate: "watches (mask_deactivate evs m) ev \<longleftrightarrow> ev \<notin> set evs \<and> watches m ev"
  using ev_bit_less [of ev]
  by (induction evs arbitrary: m) (auto simp: mask_deactivate_def watches_bit bit_simps bit_ev_mask ev_bit_inj)

text \<open>Activating kinds of events adds exactly these to the interest mask and deactivating
  removes exactly these, and the new mask is what goes to \<^verbatim>\<open>epoll_ctl\<close>.\<close>

lemma active_deactivate_exact:
  "(watches (watchingEvents (fst (event_active i evs call (e, p)))) ev \<longleftrightarrow> ev \<in> set evs \<or> watches (watchingEvents e) ev)
 \<and> (watches (watchingEvents (fst (event_deactivate i evs call (e, p)))) ev \<longleftrightarrow> ev \<notin> set evs \<and> watches (watchingEvents e) ev)
 \<and> (snd (snd (last (ctl_log (snd (event_active i evs call (e, p)))))) = watchingEvents (fst (event_active i evs call (e, p))))"
  by (simp add: event_active_def event_deactivate_def Let_def watches_active watches_deactivate
      updateEvent_def split_beta split: sum.splits)

fun call_of :: "EpollEv \<Rightarrow> handler_call" where
  "call_of EV_ERR = HandleErr" | "call_of EV_RDHUP = HandleRdhup" | "call_of EV_IN = HandleIn"
| "call_of EV_OUT = HandleOut" | "call_of EV_PRI = HandlePri" | "call_of EV_HUP = HandleHup"

text \<open>A live handler gets one call for each ready kind and no other, in the order error,
  peer shutdown, read, write, urgent, hang-up; a dead one gets none.\<close>

lemma handleEvents_order:
  "handleEvents e = (if handlerAlive e then
     map call_of (filter (watches (activeEvents e)) [EV_ERR, EV_RDHUP, EV_IN, EV_OUT, EV_PRI, EV_HUP]) else [])"
  by (simp add: handleEvents_def watches_def)

subsection \<open>The poller and the kernel\<close>

text \<open>
  The interest list of the kernel, by \<^verbatim>\<open>epoll(7)\<close>: the event and the mask of each
  descriptor. A call is refused (\<^term>\<open>None\<close>) when it adds a descriptor of the list or
  changes or removes one that is not in it, and may fail for want of resources. Closing a
  descriptor takes it off the list without a call.
\<close>

fun kernel_ctl :: "nat \<Rightarrow> sysret \<Rightarrow> ctl_op \<times> int \<times> 32 word
    \<Rightarrow> (int \<rightharpoonup> nat \<times> 32 word) \<Rightarrow> (int \<rightharpoonup> nat \<times> 32 word) option" where
  "kernel_ctl i (SysErr err) c K = None"
| "kernel_ctl i (SysOk n) (CTL_ADD, fd, m) K = (if K fd = None then Some (K(fd \<mapsto> (i, m))) else None)"
| "kernel_ctl i (SysOk n) (CTL_MOD, fd, m) K = (if K fd = None then None else Some (K(fd \<mapsto> (i, m))))"
| "kernel_ctl i (SysOk n) (CTL_DEL, fd, m) K = (if K fd = None then None else Some (K(fd := None)))"

record polled =
  poller :: Epoll
  interest :: "int \<rightharpoonup> nat \<times> 32 word"
  refused :: "(ctl_op \<times> int \<times> 32 word) list"

definition newPolled :: polled where
  "newPolled = \<lparr>poller = newEpoll, interest = Map.empty, refused = []\<rparr>"

text \<open>The kernel's part in the calls that an operation of the poller has made.\<close>

definition issue :: "nat \<Rightarrow> sysret \<Rightarrow> Epoll \<Rightarrow> polled \<Rightarrow> polled" where
  "issue i res p s =
     fold (\<lambda>c s. case kernel_ctl i res c (interest s) of
         Some K \<Rightarrow> s\<lparr>interest := K\<rparr>
       | None \<Rightarrow> s\<lparr>refused := refused s @ [c]\<rparr>)
       (drop (length (ctl_log (poller s))) (ctl_log p)) (s\<lparr>poller := p\<rparr>)"

datatype poll_op = Update nat EpollEvent sysret | Remove EpollEvent sysret | CloseFd int

fun poll_step :: "polled \<Rightarrow> poll_op \<Rightarrow> polled" where
  "poll_step s (Update i e res) = issue i res (updateEvent i e res (poller s)) s"
| "poll_step s (Remove e res) = issue 0 res (removeEvent e res (poller s)) s"
| "poll_step s (CloseFd fd) = s\<lparr>interest := (interest s)(fd := None)\<rparr>"

lemma poll_step_Update:
  "poll_step s (Update i e res) =
     (let fd = watchingFd e; c = (if poll_events (poller s) fd = None then CTL_ADD else CTL_MOD, fd, watchingEvents e);
          p = (poller s)\<lparr>poll_events := (poll_events (poller s))(fd \<mapsto> i), ctl_log := ctl_log (poller s) @ [c]\<rparr>
      in case kernel_ctl i res c (interest s) of
           Some K \<Rightarrow> s\<lparr>poller := p, interest := K\<rparr> | None \<Rightarrow> s\<lparr>poller := p, refused := refused s @ [c]\<rparr>)"
  by (auto simp: issue_def updateEvent_def Let_def fun_upd_idem split: option.splits sum.splits)

lemma poll_step_Remove:
  "poll_step s (Remove e res) =
     (let fd = watchingFd e; c = (CTL_DEL, fd, 0);
          p = (poller s)\<lparr>poll_events := (poll_events (poller s))(fd := None), ctl_log := ctl_log (poller s) @ [c]\<rparr>
      in if poll_events (poller s) fd = None then s else
         case kernel_ctl 0 res c (interest s) of
           Some K \<Rightarrow> s\<lparr>poller := p, interest := K\<rparr> | None \<Rightarrow> s\<lparr>poller := p, refused := refused s @ [c]\<rparr>)"
  by (auto simp: issue_def removeEvent_def Let_def split: option.splits sum.splits)

declare poll_step.simps(1,2) [simp del]

text \<open>Orderly use: no call fails for want of resources, and no descriptor is closed while it is
  registered.\<close>

fun orderly :: "polled \<Rightarrow> poll_op list \<Rightarrow> bool" where
  "orderly s [] = True"
| "orderly s (Update i e res # ops) = (res = SysOk 0 \<and> orderly (poll_step s (Update i e res)) ops)"
| "orderly s (Remove e res # ops) = (res = SysOk 0 \<and> orderly (poll_step s (Remove e res)) ops)"
| "orderly s (CloseFd fd # ops) = (poll_events (poller s) fd = None \<and> orderly (poll_step s (CloseFd fd)) ops)"

definition in_step :: "polled \<Rightarrow> bool" where
  "in_step s \<longleftrightarrow> refused s = [] \<and> map_option fst \<circ> interest s = poll_events (poller s)"

lemma in_step_None: "in_step s \<Longrightarrow> interest s fd = None \<longleftrightarrow> poll_events (poller s) fd = None"
  unfolding in_step_def by (metis comp_apply option.map_disc_iff)

lemma in_step_Update:
  assumes "in_step s"
  shows "in_step (poll_step s (Update i e (SysOk 0)))"
    and "interest (poll_step s (Update i e (SysOk 0))) = (interest s)(watchingFd e \<mapsto> (i, watchingEvents e))"
proof -
  note N = in_step_None [OF assms, of "watchingFd e"]
  have M: "map_option fst (interest s x) = poll_events (poller s) x" for x
    using assms by (auto simp: in_step_def fun_eq_iff)
  show "interest (poll_step s (Update i e (SysOk 0))) = (interest s)(watchingFd e \<mapsto> (i, watchingEvents e))"
    using N by (simp add: poll_step_Update Let_def)
  with N assms show "in_step (poll_step s (Update i e (SysOk 0)))"
    by (simp add: in_step_def poll_step_Update Let_def fun_eq_iff M)
qed

lemma in_step_Remove:
  assumes "in_step s"
  shows "in_step (poll_step s (Remove e (SysOk 0)))"
    and "interest (poll_step s (Remove e (SysOk 0))) = (interest s)(watchingFd e := None)"
proof -
  note N = in_step_None [OF assms, of "watchingFd e"]
  have M: "map_option fst (interest s x) = poll_events (poller s) x" for x
    using assms by (auto simp: in_step_def fun_eq_iff)
  show "interest (poll_step s (Remove e (SysOk 0))) = (interest s)(watchingFd e := None)"
    using N by (auto simp: poll_step_Remove Let_def fun_upd_idem)
  with N assms show "in_step (poll_step s (Remove e (SysOk 0)))"
    by (auto simp: in_step_def poll_step_Remove Let_def fun_eq_iff M)
qed

lemma in_step_CloseFd:
  "in_step s \<Longrightarrow> poll_events (poller s) fd = None \<Longrightarrow> poll_step s (CloseFd fd) = s"
  using in_step_None [of s fd] by (simp add: fun_upd_idem)

lemma in_step_run: "orderly s ops \<Longrightarrow> in_step s \<Longrightarrow> in_step (run_steps poll_step s ops)"
  by (induction s ops rule: orderly.induct)
     (auto simp: in_step_Update in_step_Remove in_step_CloseFd simp del: poll_step.simps)

text \<open>C39. If no descriptor is closed while it is registered and no call fails for want of
  resources, the kernel refuses none of the poller's calls, whatever the order of updates and
  removals, of one event or of several for the same descriptor: the kernel watches exactly the
  descriptors of the poller's map, for the events that the map names, and the next update
  makes it watch the event's descriptor with the event's mask, the next removal drops it.\<close>

theorem ctl_calls_consistent:
  fixes ops :: "poll_op list"
  defines "s \<equiv> run_steps poll_step newPolled ops"
  assumes "orderly newPolled ops"
  shows "refused s = []
     \<and> (\<forall>fd. map_option fst (interest s fd) = poll_events (poller s) fd)
     \<and> (\<forall>i e. interest (poll_step s (Update i e (SysOk 0))) = (interest s)(watchingFd e \<mapsto> (i, watchingEvents e)))
     \<and> (\<forall>e. interest (poll_step s (Remove e (SysOk 0))) = (interest s)(watchingFd e := None))"
proof -
  have "in_step newPolled" by (simp add: in_step_def newPolled_def newEpoll_def fun_eq_iff)
  then have "in_step s" unfolding s_def using assms(2) by (intro in_step_run)
  then show ?thesis using in_step_Update(2) in_step_Remove(2) by (simp add: in_step_def fun_eq_iff)
qed

text \<open>An event gives its descriptor to another one; it is removed before it is closed and
  its number is used again.\<close>

lemma ctl_calls_consistent_witness:
  "let e = newEpollEvent 7;
       s = run_steps poll_step newPolled [Update 1 e (SysOk 0), Update 2 (e\<lparr>watchingEvents := 1\<rparr>) (SysOk 0),
         Remove e (SysOk 0), CloseFd 7, Update 3 (e\<lparr>watchingEvents := 4\<rparr>) (SysOk 0)]
   in refused s = [] \<and> interest s 7 = Some (3, 4)
    \<and> interest (poll_step s (Update 4 (e\<lparr>watchingEvents := 5\<rparr>) (SysOk 0))) 7 = Some (4, 5)"
proof -
  let ?e = "newEpollEvent 7"
  let ?ops = "[Update 1 ?e (SysOk 0), Update 2 (?e\<lparr>watchingEvents := 1\<rparr>) (SysOk 0),
         Remove ?e (SysOk 0), CloseFd 7, Update 3 (?e\<lparr>watchingEvents := 4\<rparr>) (SysOk 0)]"
  note run = poll_step_Update poll_step_Remove Let_def newPolled_def newEpoll_def newEpollEvent_def
  have "orderly newPolled ?ops" by (simp add: run)
  from ctl_calls_consistent [OF this] have "refused (run_steps poll_step newPolled ?ops) = []"
    "interest (poll_step (run_steps poll_step newPolled ?ops) (Update 4 (?e\<lparr>watchingEvents := 5\<rparr>) (SysOk 0))) 7 = Some (4, 5)"
    by (simp_all add: newEpollEvent_def del: run_steps.simps)
  moreover have "interest (run_steps poll_step newPolled ?ops) 7 = Some (3, 4)"
    by (simp add: run)
  ultimately show ?thesis by (simp only: Let_def)
qed

text \<open>A descriptor closed while it is registered is out of the kernel's list and still in the
  poller's map: when its number is used again, by whatever event, every update is a change
  that the kernel refuses, and nothing watches it until it is removed.\<close>

lemma closed_while_registered:
  assumes "poll_events (poller s) fd \<noteq> None" "interest s fd = None"
    and "\<forall>u \<in> set us. \<exists>i e res. u = Update i e res \<and> watchingFd e = fd"
  shows "poll_events (poller (run_steps poll_step s us)) fd \<noteq> None \<and> interest (run_steps poll_step s us) = interest s
     \<and> length (refused (run_steps poll_step s us)) = length (refused s) + length us"
  using assms
proof (induction us arbitrary: s)
  case (Cons u us)
  then obtain i e res where u: "u = Update i e res" "watchingFd e = fd" by auto
  have "kernel_ctl i res (CTL_MOD, fd, m) (interest s) = None" for m
    using Cons.prems(2) by (cases res) simp_all
  then have "poll_events (poller (poll_step s u)) fd \<noteq> None \<and> interest (poll_step s u) = interest s
      \<and> length (refused (poll_step s u)) = Suc (length (refused s))"
    using Cons.prems(1) u by (auto simp: poll_step_Update Let_def)
  with Cons.IH [of "poll_step s u"] Cons.prems show ?case by simp
qed simp

lemma closed_while_registered_witness:
  "interest (run_steps poll_step newPolled
     [Update 1 (newEpollEvent 7) (SysOk 0), CloseFd 7, Update 2 (newEpollEvent 7) (SysOk 0)]) 7 = None"
  using closed_while_registered [of "run_steps poll_step newPolled [Update 1 (newEpollEvent 7) (SysOk 0), CloseFd 7]" 7
      "[Update 2 (newEpollEvent 7) (SysOk 0)]"]
  by (simp add: poll_step_Update Let_def newPolled_def newEpoll_def newEpollEvent_def)

text \<open>The poller does not notice a failed \<^verbatim>\<open>epoll_ctl\<close>: its state does not depend on
  the result, so after a failed addition the descriptor is never added again and every
  later update is a modification of a descriptor that the kernel does not have.\<close>

lemma failed_add_not_retried:
  assumes "poll_events p (watchingFd e) = None" "watchingFd e' = watchingFd e"
  shows "updateEvent i e call p = updateEvent i e (SysOk 0) p
    \<and> ctl_log (updateEvent i e' call' (updateEvent i e (SysErr err) p))
        = ctl_log p @ [(CTL_ADD, watchingFd e, watchingEvents e), (CTL_MOD, watchingFd e, watchingEvents e')]"
  using assms by (auto simp: updateEvent_def Let_def split: option.splits sum.splits)

lemma failed_add_not_retried_witness:
  "ctl_log (updateEvent 1 (newEpollEvent 7) (SysOk 0) (updateEvent 1 (newEpollEvent 7) (SysErr ENOSPC) newEpoll))
     = [(CTL_ADD, 7, 0), (CTL_MOD, 7, 0)]"
  using failed_add_not_retried [of newEpoll "newEpollEvent 7" "newEpollEvent 7" 1 "SysOk 0" "SysOk 0" ENOSPC]
  by (simp add: newEpoll_def newEpollEvent_def)

text \<open>C40. \<^verbatim>\<open>poll\<close> stores the ready events in the caller's vector without growing it unless
  its own array is full: with the four elements of the event loop's vector it writes
  out of bounds exactly for more than four ready events, unless the array is full.\<close>

theorem poll_in_bounds_iff:
  assumes "calls 0 = SysOk (int n)" "n \<le> m_activeEvents_size p" "4 \<le> m_activeEvents_size p"
    "m_activeEvents_size p * 2 < 2 ^ 31 - 1"
  shows "epoll_poll calls reported 4 p = None \<longleftrightarrow> 4 < n \<and> n \<noteq> m_activeEvents_size p"
  using assms restart_stops [of calls 0]
  by (auto simp: epoll_poll_def stub_epoll_wait_def Let_def)

lemma poll_in_bounds_iff_witness: "epoll_poll (\<lambda>_. SysOk (int 5)) [] 4 newEpoll = None"
  using poll_in_bounds_iff [of "\<lambda>_. SysOk (int 5)" 5 newEpoll "[]"] by (auto simp: newEpoll_def)

end
