(* ===== verification/EventLoop.thy ===== *)
theory EventLoop
  imports Epoll "HOL-Library.Multiset"
begin

text \<open>
  The event loop (\<^verbatim>\<open>src/EventLoop.cpp\<close>), the handler that runs functors in the loop
  (\<^verbatim>\<open>src/internal/handlers/RunInLoopHandler.cpp\<close>) and the dispatcher that assigns
  work to loops (\<^verbatim>\<open>src/EventLoopDispatcher.cpp\<close>).
\<close>

subsection \<open>\<^verbatim>\<open>EventLoopImpl\<close>\<close>

record EventLoopImpl =
  m_loopRunning :: bool
  m_handlers :: "nat set"
  m_poll :: Epoll

definition newEventLoop :: EventLoopImpl where
  "newEventLoop = \<lparr>m_loopRunning = False, m_handlers = {}, m_poll = newEpoll\<rparr>"

definition add_handler :: "nat \<Rightarrow> EventLoopImpl \<Rightarrow> EventLoopImpl" where
  "add_handler h l = l\<lparr>m_handlers := insert h (m_handlers l)\<rparr>"

definition remove_handler :: "nat \<Rightarrow> EventLoopImpl \<Rightarrow> EventLoopImpl" where
  "remove_handler h l = l\<lparr>m_handlers := m_handlers l - {h}\<rparr>"

text \<open>\<^verbatim>\<open>start\<close>: does the loop run (or return because it is running already)?\<close>

definition loop_enter :: "EventLoopImpl \<Rightarrow> bool \<times> EventLoopImpl" where
  "loop_enter l = (if m_loopRunning l then (False, l) else (True, l\<lparr>m_loopRunning := True\<rparr>))"

text \<open>An exception that leaves a round clears the flag and leaves \<^verbatim>\<open>start\<close>, so that
  the loop can be started again.\<close>

definition loop_leave :: "EventLoopImpl \<Rightarrow> EventLoopImpl" where
  "loop_leave l = l\<lparr>m_loopRunning := False\<rparr>"

lemma loop_reentered:
  "fst (loop_enter l) \<Longrightarrow> fst (loop_enter (snd (loop_enter l))) = False
     \<and> fst (loop_enter (loop_leave (snd (loop_enter l))))"
  by (auto simp: loop_enter_def loop_leave_def split: if_splits)

text \<open>One round of the endless loop: poll into a vector of four elements, then dispatch each
  ready event. The result is the handler calls of each event, in order.\<close>

definition loop_round :: "(nat \<Rightarrow> sysret) \<Rightarrow> (nat \<times> 32 word) list \<Rightarrow> (nat \<Rightarrow> EpollEvent) \<Rightarrow> EventLoopImpl
    \<Rightarrow> ((nat \<times> handler_call list) list \<times> EventLoopImpl) option" where
  "loop_round calls reported events l = do {
     (active, p) \<leftarrow> epoll_poll calls reported 4 (m_poll l);
     Some (map (\<lambda>(i, m). (i, handleEvents ((events i)\<lparr>activeEvents := m\<rparr>))) active, l\<lparr>m_poll := p\<rparr>)
   }"

text \<open>With at most four ready events, one round of the loop runs the handlers of exactly the
  events that the kernel reported, in its order, each with the mask reported for it.\<close>

lemma loop_round_dispatches:
  assumes "calls 0 = SysOk (int (length reported))" "length reported \<le> 4" "4 < m_activeEvents_size (m_poll l)"
  shows "loop_round calls reported events l =
     Some (map (\<lambda>(i, m). (i, handleEvents ((events i)\<lparr>activeEvents := m\<rparr>))) reported, l)"
  using assms restart_stops [of calls 0]
  by (simp add: loop_round_def epoll_poll_def stub_epoll_wait_def Let_def)

lemma loop_round_dispatches_witness:
  "loop_round (\<lambda>_. SysOk (int (length [(1::nat, 5 :: 32 word)]))) [(1, 5)] (\<lambda>_. newEpollEvent 3) newEventLoop
     = Some ([(1, [HandleIn, HandleOut])], newEventLoop)"
  by (subst loop_round_dispatches) (simp_all add: newEventLoop_def newEpoll_def newEpollEvent_def handleEvents_def)

subsection \<open>\<^verbatim>\<open>RunInLoopHandler\<close>\<close>

text \<open>
  Other threads add functors while the loop's thread waits for the eventfd, reads it,
  takes the pending functors and runs them. Adding is two actions: the write to the
  eventfd, and the push under the mutex. \<open>adding\<close> holds the functors whose thread is
  between the two; \<open>submitted\<close> and \<open>pushed\<close> are histories.
\<close>

datatype 'f loop_pc = Waiting | Taking | Running "'f list"

record 'f RunInLoop =
  wakeUpCounter :: nat
  m_pendingFunctors :: "'f list"
  adding :: "'f list"
  loop_pc :: "'f loop_pc"
  executed :: "'f list"
  submitted :: "'f list"
  pushed :: "'f list"

definition newRunInLoop :: "'f RunInLoop" where
  "newRunInLoop = \<lparr>wakeUpCounter = 0, m_pendingFunctors = [], adding = [], loop_pc = Waiting,
     executed = [], submitted = [], pushed = []\<rparr>"

inductive run_step :: "'f RunInLoop \<Rightarrow> 'f RunInLoop \<Rightarrow> bool" where
  wake: "run_step s (s\<lparr>wakeUpCounter := wakeUpCounter s + 1, adding := adding s @ [f],
      submitted := submitted s @ [f]\<rparr>)"
| push: "adding s = xs @ f # ys \<Longrightarrow>
    run_step s (s\<lparr>adding := xs @ ys, m_pendingFunctors := m_pendingFunctors s @ [f], pushed := pushed s @ [f]\<rparr>)"
| read: "loop_pc s = Waiting \<Longrightarrow> 0 < wakeUpCounter s \<Longrightarrow>
    run_step s (s\<lparr>wakeUpCounter := 0, loop_pc := Taking\<rparr>)"
| "take": "loop_pc s = Taking \<Longrightarrow>
    run_step s (s\<lparr>loop_pc := Running (m_pendingFunctors s), m_pendingFunctors := []\<rparr>)"
| exec: "loop_pc s = Running (f # fs) \<Longrightarrow>
    run_step s (s\<lparr>loop_pc := Running fs, executed := executed s @ [f]\<rparr>)"
| finish: "loop_pc s = Running [] \<Longrightarrow> run_step s (s\<lparr>loop_pc := Waiting\<rparr>)"

inductive_cases run_stepE: "run_step s s'"

inductive run_reachable :: "'f RunInLoop \<Rightarrow> bool" where
  start: "run_reachable newRunInLoop"
| step: "run_reachable s \<Longrightarrow> run_step s s' \<Longrightarrow> run_reachable s'"

fun taken :: "'f loop_pc \<Rightarrow> 'f list" where
  "taken (Running fs) = fs" | "taken _ = []"

definition run_inv :: "'f RunInLoop \<Rightarrow> bool" where
  "run_inv s \<longleftrightarrow> pushed s = executed s @ taken (loop_pc s) @ m_pendingFunctors s
     \<and> mset (submitted s) = mset (pushed s) + mset (adding s)"

lemma run_step_inv: "run_step s s' \<Longrightarrow> run_inv s \<Longrightarrow> run_inv s'"
  by (induction rule: run_step.induct) (auto simp: run_inv_def)

lemma run_reachable_inv: "run_reachable s \<Longrightarrow> run_inv s"
proof (induction rule: run_reachable.induct)
  case start
  show ?case by (simp add: run_inv_def newRunInLoop_def)
next
  case (step s s')
  then show ?case by (blast intro: run_step_inv)
qed

text \<open>The steps of the loop's own thread.\<close>

definition loop_can_step :: "'f RunInLoop \<Rightarrow> bool" where
  "loop_can_step s \<longleftrightarrow> loop_pc s \<noteq> Waiting \<or> 0 < wakeUpCounter s"

definition loop_next :: "'f RunInLoop \<Rightarrow> 'f RunInLoop option" where
  "loop_next s = (case loop_pc s of
     Waiting \<Rightarrow> if 0 < wakeUpCounter s then Some (s\<lparr>wakeUpCounter := 0, loop_pc := Taking\<rparr>) else None
   | Taking \<Rightarrow> Some (s\<lparr>loop_pc := Running (m_pendingFunctors s), m_pendingFunctors := []\<rparr>)
   | Running [] \<Rightarrow> Some (s\<lparr>loop_pc := Waiting\<rparr>)
   | Running (f # fs) \<Rightarrow> Some (s\<lparr>loop_pc := Running fs, executed := executed s @ [f]\<rparr>))"

lemma loop_next_run_step: "loop_next s = Some s' \<Longrightarrow> run_step s s'"
  unfolding loop_next_def
  by (auto intro: run_step.intros split: loop_pc.splits list.splits if_splits)

lemma loop_next_iff: "loop_can_step s \<longleftrightarrow> loop_next s \<noteq> None"
  by (simp add: loop_next_def loop_can_step_def split: loop_pc.splits list.splits)

abbreviation loop_steps :: "'f RunInLoop \<Rightarrow> 'f RunInLoop \<Rightarrow> bool" where
  "loop_steps \<equiv> rtranclp (\<lambda>s s'. loop_next s = Some s')"

lemma loop_runs_taken:
  "loop_pc s = Running fs \<Longrightarrow> loop_steps s (s\<lparr>loop_pc := Waiting, executed := executed s @ fs\<rparr>)"
proof (induction fs arbitrary: s)
  case Nil
  then have "loop_next s = Some (s\<lparr>loop_pc := Waiting, executed := executed s @ []\<rparr>)"
    by (simp add: loop_next_def)
  then show ?case by blast
next
  case (Cons f fs)
  let ?s = "s\<lparr>loop_pc := Running fs, executed := executed s @ [f]\<rparr>"
  have "loop_next s = Some ?s" using Cons.prems by (simp add: loop_next_def)
  moreover have "loop_steps ?s (s\<lparr>loop_pc := Waiting, executed := executed s @ f # fs\<rparr>)"
    using Cons.IH [of ?s] by simp
  ultimately show ?case by (rule converse_rtranclp_into_rtranclp)
qed

lemma loop_takes_pending:
  assumes "loop_pc s = Taking"
  shows "loop_steps s (s\<lparr>m_pendingFunctors := [], loop_pc := Waiting, executed := executed s @ m_pendingFunctors s\<rparr>)"
proof -
  let ?s = "s\<lparr>loop_pc := Running (m_pendingFunctors s), m_pendingFunctors := []\<rparr>"
  have "loop_next s = Some ?s" using assms by (simp add: loop_next_def)
  moreover have "loop_steps ?s (s\<lparr>m_pendingFunctors := [], loop_pc := Waiting, executed := executed s @ m_pendingFunctors s\<rparr>)"
    using loop_runs_taken [of ?s "m_pendingFunctors s"] by simp
  ultimately show ?thesis by (rule converse_rtranclp_into_rtranclp)
qed

lemma loop_woken_runs_all:
  assumes "run_inv s" "0 < wakeUpCounter s \<or> loop_pc s = Taking"
  shows "\<exists>s'. loop_steps s s' \<and> executed s' = pushed s \<and> m_pendingFunctors s' = []"
proof -
  have pushed: "pushed s = executed s @ taken (loop_pc s) @ m_pendingFunctors s" using assms(1) by (simp add: run_inv_def)
  have waiting: "\<exists>s'. loop_steps w s' \<and> executed s' = executed w @ m_pendingFunctors w \<and> m_pendingFunctors s' = []"
    if "loop_pc w = Waiting" "0 < wakeUpCounter w" for w :: "'a RunInLoop"
  proof -
    let ?w = "w\<lparr>wakeUpCounter := 0, loop_pc := Taking\<rparr>"
    have "loop_next w = Some ?w" using that by (simp add: loop_next_def)
    moreover from loop_takes_pending [of ?w] obtain s' where
      "loop_steps ?w s'" "executed s' = executed w @ m_pendingFunctors w" "m_pendingFunctors s' = []" by auto
    ultimately show ?thesis by (meson converse_rtranclp_into_rtranclp)
  qed
  show ?thesis
  proof (cases "loop_pc s")
    case Waiting
    with waiting [of s] assms(2) pushed show ?thesis by auto
  next
    case Taking
    with loop_takes_pending [of s] pushed show ?thesis by force
  next
    case (Running fs)
    let ?w = "s\<lparr>loop_pc := Waiting, executed := executed s @ fs\<rparr>"
    from waiting [of ?w] assms(2) Running obtain s' where
      "loop_steps ?w s'" "executed s' = executed s @ fs @ m_pendingFunctors s" "m_pendingFunctors s' = []" by auto
    moreover from loop_runs_taken [OF Running] this(1) have "loop_steps s s'" by (rule rtranclp_trans)
    ultimately show ?thesis using pushed Running by auto
  qed
qed



text \<open>Because the eventfd is written before the functor is pushed, the wake-up can be consumed
  too early: a reachable state has a pushed functor, no thread still adding one, and a
  loop that waits on an eventfd that nobody will write.\<close>

lemma lost_wakeup_reachable:
  "\<exists>s. run_reachable s \<and> m_pendingFunctors s = [f] \<and> adding s = [] \<and> \<not> loop_can_step s"
proof -
  let ?s1 = "newRunInLoop\<lparr>wakeUpCounter := 1, adding := [f], submitted := [f]\<rparr>"
  let ?s2 = "?s1\<lparr>wakeUpCounter := 0, loop_pc := Taking\<rparr>"
  let ?s3 = "?s2\<lparr>loop_pc := Running []\<rparr>"
  let ?s4 = "?s3\<lparr>loop_pc := Waiting\<rparr>"
  let ?s5 = "?s4\<lparr>adding := [], m_pendingFunctors := [f], pushed := [f]\<rparr>"
  have "run_reachable ?s1"
    using run_reachable.step [OF run_reachable.start run_step.wake [of newRunInLoop f]] by (simp add: newRunInLoop_def)
  then have "run_reachable ?s2" by (rule run_reachable.step) (rule run_step.read, simp_all add: newRunInLoop_def)
  then have "run_reachable ?s3"
    using run_reachable.step [OF _ run_step.take [of ?s2]] by (simp add: newRunInLoop_def)
  then have "run_reachable ?s4" by (rule run_reachable.step) (rule run_step.finish, simp)
  then have "run_reachable ?s5"
    using run_reachable.step [OF _ run_step.push [of ?s4 "[]" f "[]"]] by (simp add: newRunInLoop_def)
  then show ?thesis by (intro exI [of _ ?s5]) (simp add: loop_can_step_def newRunInLoop_def)
qed

subsection \<open>\<^verbatim>\<open>EventLoopDispatcher\<close>\<close>

record EventLoopDispatcher =
  m_dispatchIndex :: nat
  m_loopCount :: nat
  poolThreads :: nat

definition newDispatcher :: "nat \<Rightarrow> EventLoopDispatcher" where
  "newDispatcher loopsCount = \<lparr>m_dispatchIndex = 0, m_loopCount = loopsCount,
     poolThreads = (if 1 < loopsCount then loopsCount - 1 else 0)\<rparr>"

definition dispatchEventLoop :: "EventLoopDispatcher \<Rightarrow> nat option \<times> EventLoopDispatcher" where
  "dispatchEventLoop d =
     (if m_loopCount d = 0 then (None, d)
      else let i = (if m_loopCount d \<le> m_dispatchIndex d + 1 then 0 else m_dispatchIndex d + 1)
           in (Some i, d\<lparr>m_dispatchIndex := i\<rparr>))"

text \<open>\<^verbatim>\<open>startLoop\<close>: the loops that run on pool threads, and the one on the caller's.\<close>

definition startLoop :: "EventLoopDispatcher \<Rightarrow> nat list \<times> nat option" where
  "startLoop d = (if poolThreads d \<noteq> 0 then [1..<m_loopCount d] else [],
                  if m_loopCount d \<noteq> 0 then Some 0 else None)"

fun dispatch_many :: "nat \<Rightarrow> EventLoopDispatcher \<Rightarrow> nat option list \<times> EventLoopDispatcher" where
  "dispatch_many 0 d = ([], d)"
| "dispatch_many (Suc k) d =
     (let (i, d) = dispatchEventLoop d; (is, d) = dispatch_many k d in (i # is, d))"

lemma dispatch_step:
  assumes "m_dispatchIndex d < m_loopCount d"
  shows "dispatchEventLoop d = (Some (Suc (m_dispatchIndex d) mod m_loopCount d),
     d\<lparr>m_dispatchIndex := Suc (m_dispatchIndex d) mod m_loopCount d\<rparr>)"
  using assms by (cases "Suc (m_dispatchIndex d) = m_loopCount d") (simp_all add: dispatchEventLoop_def Let_def)

lemma dispatch_many_eq:
  "m_dispatchIndex d < m_loopCount d \<Longrightarrow>
   fst (dispatch_many k d) = map (\<lambda>j. Some ((m_dispatchIndex d + j) mod m_loopCount d)) [1..<Suc k]"
proof (induction k arbitrary: d)
  case (Suc k)
  let ?d = "d\<lparr>m_dispatchIndex := Suc (m_dispatchIndex d) mod m_loopCount d\<rparr>"
  have "fst (dispatch_many k ?d)
      = map (\<lambda>j. Some ((Suc (m_dispatchIndex d) mod m_loopCount d + j) mod m_loopCount d)) [1..<Suc k]"
    using Suc.prems Suc.IH [of ?d] by simp
  also have "\<dots> = map (\<lambda>j. Some ((m_dispatchIndex d + j) mod m_loopCount d)) [2..<Suc (Suc k)]"
    by (simp add: map_Suc_upt [symmetric] numeral_2_eq_2 mod_simps del: upt_Suc)
  finally show ?case
    using Suc.prems by (simp add: dispatch_step split_beta upt_conv_Cons numeral_2_eq_2 del: upt_Suc)
qed simp

text \<open>Dispatching is round robin: the k-th call returns loop \<open>k mod n\<close>, so any \<open>n\<close>
  calls in a row use each of the \<open>n\<close> loops once; every one of them is started, on a
  thread of its own.\<close>

lemma dispatch_round_robin:
  assumes "0 < n"
  shows "fst (dispatch_many k (newDispatcher n)) = map (\<lambda>j. Some (j mod n)) [1..<Suc k]
     \<and> distinct (fst (dispatch_many n (newDispatcher n)))
     \<and> set (fst (dispatch_many n (newDispatcher n))) = Some ` {0..<n}
     \<and> fst (startLoop (newDispatcher n)) = [1..<n] \<and> snd (startLoop (newDispatcher n)) = Some 0"
proof -
  have eq: "fst (dispatch_many k (newDispatcher n)) = map (\<lambda>j. Some (j mod n)) [1..<Suc k]" for k
    using dispatch_many_eq [of "newDispatcher n" k] assms by (simp add: newDispatcher_def del: upt_Suc)
  have inj: "inj_on (\<lambda>j. j mod n) {1..<Suc n}"
  proof (rule inj_onI)
    fix i j assume "i \<in> {1..<Suc n}" "j \<in> {1..<Suc n}" "i mod n = j mod n"
    then show "i = j" by (cases "i = n"; cases "j = n") auto
  qed
  then have "inj_on (\<lambda>j. Some (j mod n)) {1..<Suc n}" by (auto intro!: inj_onI dest: inj_onD)
  then have "distinct (fst (dispatch_many n (newDispatcher n)))"
    by (simp only: eq distinct_map set_upt distinct_upt simp_thms)
  moreover have "(\<lambda>j. j mod n) ` {1..<Suc n} = {0..<n}"
    by (rule card_subset_eq) (use assms inj in \<open>auto simp: card_image\<close>)
  then have "set (fst (dispatch_many n (newDispatcher n))) = Some ` {0..<n}"
    by (simp only: eq set_map set_upt) (metis image_image)
  moreover have "fst (startLoop (newDispatcher n)) = [1..<n]" "snd (startLoop (newDispatcher n)) = Some 0"
    using assms by (simp_all add: startLoop_def newDispatcher_def)
  ultimately show ?thesis using eq by blast
qed

lemma dispatch_round_robin_witness:
  "fst (dispatch_many 4 (newDispatcher 3)) = [Some 1, Some 2, Some 0, Some 1]"
proof -
  have "[1..<Suc 4] = [1, 2, 3, 4]" by code_simp
  then show ?thesis using dispatch_round_robin [of 3 4] by (simp del: upt_Suc)
qed

end
