(* ===== verification/TimeWheel.thy ===== *)
theory TimeWheel
  imports Prelude
begin

text \<open>
  The time wheel (\<^verbatim>\<open>src/internal/time/TimeWheel.cpp\<close>) that closes idle and
  half-closed connections. Entries are numbers; a bucket is the list of the entries that
  its unordered set holds, in the order in which the set is iterated. A reference to an
  entry is its number: a weak pointer can be locked while some bucket owns the entry, so
  callers pass \<open>alive\<close>.

  \<^verbatim>\<open>onTimeout\<close> is a parameter: it may change the wheel. Erasing with an iterator
  whose element is gone, and erasing the end iterator, are \<^term>\<open>None\<close>.
\<close>

record TimeWheel =
  m_bucketSize :: nat
  m_timeOutBucketIndex :: nat
  m_buckets :: "nat list list"
  m_indexInWheel :: "nat \<Rightarrow> nat"

definition newTimeWheel :: "nat \<Rightarrow> TimeWheel" where
  "newTimeWheel bucketCount = \<lparr>m_bucketSize = bucketCount, m_timeOutBucketIndex = 0,
     m_buckets = replicate bucketCount [], m_indexInWheel = (\<lambda>_. 0)\<rparr>"

definition latestIndex :: "TimeWheel \<Rightarrow> nat" where
  "latestIndex w = (if m_timeOutBucketIndex w = 0 then m_bucketSize w - 1 else m_timeOutBucketIndex w - 1)"

definition set_insert :: "nat \<Rightarrow> nat list \<Rightarrow> nat list" where
  "set_insert e b = (if e \<in> set b then b else b @ [e])"

definition put_latest :: "nat \<Rightarrow> TimeWheel \<Rightarrow> TimeWheel" where
  "put_latest e w = (let i = latestIndex w in
     w\<lparr>m_indexInWheel := (m_indexInWheel w)(e := i),
       m_buckets := (m_buckets w)[i := set_insert e (m_buckets w ! i)]\<rparr>)"

definition addToWheel :: "nat \<Rightarrow> TimeWheel \<Rightarrow> TimeWheel" where
  "addToWheel e w = (if m_bucketSize w \<noteq> 0 then put_latest e w else w)"

definition removeFromWheel :: "bool \<Rightarrow> nat \<Rightarrow> TimeWheel \<Rightarrow> TimeWheel option" where
  "removeFromWheel alive e w =
     (if alive then do {
        bucket \<leftarrow> nth_opt (m_buckets w) (m_indexInWheel w e);
        Some (if e \<in> set bucket
              then w\<lparr>m_buckets := (m_buckets w)[m_indexInWheel w e := removeAll e bucket]\<rparr> else w)
      } else Some w)"

definition renew :: "bool \<Rightarrow> nat \<Rightarrow> TimeWheel \<Rightarrow> TimeWheel option" where
  "renew alive e w =
     (if alive \<and> m_bucketSize w \<noteq> 0 then
        let index = m_indexInWheel w e;
            nextIndex = (if index + 1 = m_bucketSize w then 0 else index + 1)
        in if nextIndex \<noteq> m_timeOutBucketIndex w then do {
             bucket \<leftarrow> nth_opt (m_buckets w) index;
             if e \<in> set bucket
             then Some (put_latest e (w\<lparr>m_buckets := (m_buckets w)[index := removeAll e bucket]\<rparr>))
             else None
           } else Some w
      else Some w)"

text \<open>The loop of \<^verbatim>\<open>tick\<close> over bucket \<open>i\<close>: it visits the elements that the set has
  when the loop starts and that are still there when their turn comes.\<close>

fun tick_loop :: "(nat \<Rightarrow> TimeWheel \<Rightarrow> TimeWheel option) \<Rightarrow> (nat \<Rightarrow> bool) \<Rightarrow> nat \<Rightarrow> nat list
    \<Rightarrow> TimeWheel \<Rightarrow> TimeWheel option" where
  "tick_loop onTimeout eraseOnTimeout i [] w = Some w"
| "tick_loop onTimeout eraseOnTimeout i (e # es) w =
     (if e \<in> set (m_buckets w ! i) then do {
        w \<leftarrow> onTimeout e w;
        if e \<in> set (m_buckets w ! i)
        then tick_loop onTimeout eraseOnTimeout i es
               (if eraseOnTimeout e
                then w\<lparr>m_buckets := (m_buckets w)[i := removeAll e (m_buckets w ! i)]\<rparr> else w)
        else None
      } else tick_loop onTimeout eraseOnTimeout i es w)"

definition tick :: "(nat \<Rightarrow> TimeWheel \<Rightarrow> TimeWheel option) \<Rightarrow> (nat \<Rightarrow> bool) \<Rightarrow> TimeWheel \<Rightarrow> TimeWheel option" where
  "tick onTimeout eraseOnTimeout w = do {
     let i = (if m_timeOutBucketIndex w + 1 = m_bucketSize w then 0 else m_timeOutBucketIndex w + 1);
     bucket \<leftarrow> nth_opt (m_buckets w) i;
     tick_loop onTimeout eraseOnTimeout i bucket (w\<lparr>m_timeOutBucketIndex := i\<rparr>)
   }"

subsection \<open>Well-formed wheels\<close>

definition in_wheel :: "nat \<Rightarrow> TimeWheel \<Rightarrow> bool" where
  "in_wheel e w \<longleftrightarrow> (\<exists>b \<in> set (m_buckets w). e \<in> set b)"

lemma in_wheel_ex: "in_wheel e w \<longleftrightarrow> (\<exists>i < length (m_buckets w). e \<in> set (m_buckets w ! i))"
  unfolding in_wheel_def by (metis in_set_conv_nth)

definition wheel_inv :: "TimeWheel \<Rightarrow> bool" where
  "wheel_inv w \<longleftrightarrow> 0 < m_bucketSize w \<and> m_timeOutBucketIndex w < m_bucketSize w
     \<and> length (m_buckets w) = m_bucketSize w
     \<and> (\<forall>i < m_bucketSize w. distinct (m_buckets w ! i)
          \<and> (\<forall>e \<in> set (m_buckets w ! i). m_indexInWheel w e = i))"

lemma wheel_invD:
  assumes "wheel_inv w"
  shows "m_timeOutBucketIndex w < m_bucketSize w" "length (m_buckets w) = m_bucketSize w"
    "i < m_bucketSize w \<Longrightarrow> distinct (m_buckets w ! i)"
    "i < m_bucketSize w \<Longrightarrow> e \<in> set (m_buckets w ! i) \<Longrightarrow> m_indexInWheel w e = i"
    "0 < m_bucketSize w" "latestIndex w < m_bucketSize w"
  using assms by (auto simp: wheel_inv_def latestIndex_def)

lemma in_wheel_pos:
  assumes "wheel_inv w"
  shows "in_wheel e w \<longleftrightarrow> m_indexInWheel w e < m_bucketSize w \<and> e \<in> set (m_buckets w ! m_indexInWheel w e)"
  using wheel_invD [OF assms] unfolding in_wheel_def by (metis in_set_conv_nth nth_mem)

lemma new_wheel_inv: "0 < n \<Longrightarrow> wheel_inv (newTimeWheel n)"
  by (simp add: wheel_inv_def newTimeWheel_def)

lemma latestIndex_buckets [simp]: "latestIndex (w\<lparr>m_buckets := b\<rparr>) = latestIndex w"
  "latestIndex (w\<lparr>m_indexInWheel := p\<rparr>) = latestIndex w"
  by (simp_all add: latestIndex_def)

lemma put_latest_fields [simp]:
  "m_bucketSize (put_latest e w) = m_bucketSize w"
  "m_timeOutBucketIndex (put_latest e w) = m_timeOutBucketIndex w"
  "length (m_buckets (put_latest e w)) = length (m_buckets w)"
  "m_indexInWheel (put_latest e w) = (m_indexInWheel w)(e := latestIndex w)"
  by (simp_all add: put_latest_def Let_def)

lemma put_latest_bucket:
  assumes "latestIndex w < length (m_buckets w)"
  shows "set (m_buckets (put_latest e w) ! i)
    = (if i = latestIndex w then insert e (set (m_buckets w ! i)) else set (m_buckets w ! i))"
  using assms by (auto simp: put_latest_def Let_def set_insert_def nth_list_update)

lemma put_latest_inv:
  assumes "wheel_inv w" "\<not> in_wheel e w"
  shows "wheel_inv (put_latest e w)"
proof -
  note D = wheel_invD [OF assms(1)]
  have out: "e \<notin> set (m_buckets w ! i)" if "i < m_bucketSize w" for i
    using assms(2) D(2) that by (auto simp: in_wheel_def)
  have "distinct (m_buckets (put_latest e w) ! i)" if "i < m_bucketSize w" for i
    using D that by (auto simp: put_latest_def Let_def set_insert_def nth_list_update)
  moreover have "m_indexInWheel (put_latest e w) f = i"
    if "i < m_bucketSize w" "f \<in> set (m_buckets (put_latest e w) ! i)" for i f
    using D that out by (auto simp: put_latest_bucket split: if_splits)
  ultimately show ?thesis
    using D(1,2,5) by (simp add: wheel_inv_def del: put_latest_fields(4))
qed

definition take_out :: "nat \<Rightarrow> nat \<Rightarrow> TimeWheel \<Rightarrow> TimeWheel" where
  "take_out e i w = w\<lparr>m_buckets := (m_buckets w)[i := removeAll e (m_buckets w ! i)]\<rparr>"

lemma take_out_fields [simp]:
  "m_bucketSize (take_out e i w) = m_bucketSize w"
  "m_timeOutBucketIndex (take_out e i w) = m_timeOutBucketIndex w"
  "length (m_buckets (take_out e i w)) = length (m_buckets w)"
  "m_indexInWheel (take_out e i w) = m_indexInWheel w"
  "latestIndex (take_out e i w) = latestIndex w"
  by (simp_all add: take_out_def)

lemma take_out_bucket:
  "j < length (m_buckets w) \<Longrightarrow>
   set (m_buckets (take_out e i w) ! j) = set (m_buckets w ! j) - (if j = i then {e} else {})"
  by (auto simp: take_out_def nth_list_update)

lemma take_out_inv:
  assumes "wheel_inv w"
  shows "wheel_inv (take_out e i w)"
proof -
  note D = wheel_invD [OF assms]
  have "distinct (m_buckets (take_out e i w) ! j)" if "j < m_bucketSize w" for j
    using D that by (cases "i < m_bucketSize w") (auto simp: take_out_def nth_list_update distinct_removeAll)
  with D show ?thesis
    by (auto simp: wheel_inv_def take_out_bucket)
qed

lemma take_out_gone:
  assumes "wheel_inv w" "m_indexInWheel w e = i"
  shows "in_wheel f (take_out e i w) \<longleftrightarrow> in_wheel f w \<and> f \<noteq> e"
  unfolding in_wheel_pos [OF assms(1)] in_wheel_pos [OF take_out_inv [OF assms(1)]]
  using wheel_invD(2) [OF assms(1)] assms(2) by (auto simp: take_out_bucket)

lemma put_latest_in_wheel:
  assumes "wheel_inv w"
  shows "in_wheel f (put_latest e w) \<longleftrightarrow> in_wheel f w \<or> f = e"
  using wheel_invD(2,6) [OF assms] unfolding in_wheel_ex
  by (auto simp: put_latest_bucket) metis

lemma removeFromWheel_eq:
  assumes "wheel_inv w"
  shows "removeFromWheel alive e w =
     (if alive \<and> in_wheel e w then Some (take_out e (m_indexInWheel w e) w)
      else if alive \<and> m_bucketSize w \<le> m_indexInWheel w e then None else Some w)"
  using wheel_invD(2) [OF assms] in_wheel_pos [OF assms, of e]
  by (auto simp: removeFromWheel_def take_out_def nth_opt_def)

lemma renew_eq:
  assumes "wheel_inv w" "in_wheel e w"
  shows "renew True e w = Some (if m_indexInWheel w e = latestIndex w then w
     else put_latest e (take_out e (m_indexInWheel w e) w))"
proof -
  note D = wheel_invD [OF assms(1)]
  have pos: "m_indexInWheel w e < m_bucketSize w" "e \<in> set (m_buckets w ! m_indexInWheel w e)"
    using assms in_wheel_pos by blast+
  have "(if m_indexInWheel w e + 1 = m_bucketSize w then 0 else m_indexInWheel w e + 1) = m_timeOutBucketIndex w
      \<longleftrightarrow> m_indexInWheel w e = latestIndex w"
    using D(1,5) pos(1) by (auto simp: latestIndex_def)
  then show ?thesis
    using D(2,5) pos by (simp add: renew_def Let_def take_out_def)
qed

text \<open>On a well-formed wheel, adding a new entry, renewing an entry that it holds and
  removing one keep it well-formed; every other entry stays, the added or renewed entry
  ends in the bucket that times out last and a removed entry is gone.\<close>

lemma wheel_operations:
  assumes "wheel_inv w"
  shows "(in_wheel e w \<or> wheel_inv (addToWheel e w) \<and> m_indexInWheel (addToWheel e w) e = latestIndex w
      \<and> (\<forall>f. in_wheel f (addToWheel e w) = (in_wheel f w \<or> f = e)))
   \<and> (\<not> in_wheel e w \<or> (\<exists>w'. renew True e w = Some w' \<and> wheel_inv w' \<and> m_indexInWheel w' e = latestIndex w
      \<and> (\<forall>f. in_wheel f w' = in_wheel f w)))
   \<and> (\<not> in_wheel e w \<or> (\<exists>w'. removeFromWheel True e w = Some w' \<and> wheel_inv w'
      \<and> (\<forall>f. in_wheel f w' = (in_wheel f w \<and> f \<noteq> e))))"
proof (intro conjI)
  note D = wheel_invD [OF assms]
  show "in_wheel e w \<or> wheel_inv (addToWheel e w) \<and> m_indexInWheel (addToWheel e w) e = latestIndex w
      \<and> (\<forall>f. in_wheel f (addToWheel e w) = (in_wheel f w \<or> f = e))"
    using D(5) put_latest_inv [OF assms] put_latest_in_wheel [OF assms] by (auto simp: addToWheel_def)
  let ?w = "take_out e (m_indexInWheel w e) w"
  have out: "wheel_inv ?w" "in_wheel f ?w \<longleftrightarrow> in_wheel f w \<and> f \<noteq> e" for f
    using take_out_inv [OF assms] take_out_gone [OF assms refl] by blast+
  then show "\<not> in_wheel e w \<or> (\<exists>w'. removeFromWheel True e w = Some w' \<and> wheel_inv w'
      \<and> (\<forall>f. in_wheel f w' = (in_wheel f w \<and> f \<noteq> e)))"
    by (simp add: removeFromWheel_eq [OF assms])
  have "wheel_inv (put_latest e ?w)" "in_wheel f (put_latest e ?w) \<longleftrightarrow> in_wheel f w \<or> f = e" for f
    using put_latest_inv [OF out(1)] put_latest_in_wheel [OF out(1)] out(2) by blast+
  then show "\<not> in_wheel e w \<or> (\<exists>w'. renew True e w = Some w' \<and> wheel_inv w' \<and> m_indexInWheel w' e = latestIndex w
      \<and> (\<forall>f. in_wheel f w' = in_wheel f w))"
    using assms by (cases "in_wheel e w"; cases "m_indexInWheel w e = latestIndex w") (auto simp: renew_eq)
qed

lemma wheel_operations_witness: "wheel_inv (addToWheel 5 (newTimeWheel 3)) \<and> m_indexInWheel (addToWheel 5 (newTimeWheel 3)) 5 = 2"
proof -
  have "\<not> in_wheel 5 (newTimeWheel 3)" "latestIndex (newTimeWheel 3) = 2"
    by (auto simp: in_wheel_def newTimeWheel_def latestIndex_def)
  with wheel_operations [OF new_wheel_inv [of 3], of 5] show ?thesis by simp
qed

subsection \<open>When an entry times out\<close>

text \<open>A callback that, run on another entry, leaves entry \<open>e\<close> where it is and its own
  entry in its bucket.\<close>

definition benign :: "nat \<Rightarrow> (nat \<Rightarrow> TimeWheel \<Rightarrow> TimeWheel option) \<Rightarrow> bool" where
  "benign e cb \<longleftrightarrow> (\<forall>f w. wheel_inv w \<and> f \<noteq> e \<longrightarrow>
     (\<exists>w'. cb f w = Some w' \<and> wheel_inv w' \<and> m_bucketSize w' = m_bucketSize w
        \<and> m_timeOutBucketIndex w' = m_timeOutBucketIndex w
        \<and> (\<forall>g \<in> {e, f}. m_indexInWheel w' g = m_indexInWheel w g
            \<and> (\<forall>i < m_bucketSize w. g \<in> set (m_buckets w' ! i) \<longleftrightarrow> g \<in> set (m_buckets w ! i)))))"

definition same_for :: "nat \<Rightarrow> TimeWheel \<Rightarrow> TimeWheel \<Rightarrow> bool" where
  "same_for e w w' \<longleftrightarrow> wheel_inv w' \<and> m_bucketSize w' = m_bucketSize w
     \<and> m_timeOutBucketIndex w' = m_timeOutBucketIndex w \<and> m_indexInWheel w' e = m_indexInWheel w e
     \<and> (in_wheel e w' \<longleftrightarrow> in_wheel e w)"

lemma tick_loop_benign:
  assumes "benign e cb" "wheel_inv w" "i < m_bucketSize w" "e \<notin> set es"
  shows "\<exists>w'. tick_loop cb er i es w = Some w' \<and> same_for e w w'"
  using assms(2-4)
proof (induction es arbitrary: w)
  case Nil
  then show ?case by (simp add: same_for_def)
next
  case (Cons f es)
  show ?case
  proof (cases "f \<in> set (m_buckets w ! i)")
    case False
    with Cons show ?thesis by simp
  next
    case True
    obtain w1 where w1: "cb f w = Some w1" "wheel_inv w1" "m_bucketSize w1 = m_bucketSize w"
      "m_timeOutBucketIndex w1 = m_timeOutBucketIndex w" "f \<in> set (m_buckets w1 ! i)"
      "m_indexInWheel w1 e = m_indexInWheel w e"
      "\<And>j. j < m_bucketSize w \<Longrightarrow> e \<in> set (m_buckets w1 ! j) \<longleftrightarrow> e \<in> set (m_buckets w ! j)"
      using assms(1) Cons.prems True unfolding benign_def by (metis insertI1 insertI2 list.set_intros(1))
    have e1: "in_wheel e w1 \<longleftrightarrow> in_wheel e w"
      using w1(2,3,7) Cons.prems(1) wheel_invD(2) by (simp add: in_wheel_ex) metis
    define w2 where "w2 = (if er f then take_out f i w1 else w1)"
    have w2: "wheel_inv w2" "m_bucketSize w2 = m_bucketSize w"
        "m_timeOutBucketIndex w2 = m_timeOutBucketIndex w" "m_indexInWheel w2 e = m_indexInWheel w e"
      using w1 take_out_inv by (auto simp: w2_def)
    have "m_indexInWheel w1 f = i"
      using w1(2,3,5) Cons.prems(2) wheel_invD(4) by metis
    then have e2: "in_wheel e w2 \<longleftrightarrow> in_wheel e w"
      using e1 take_out_gone [OF w1(2)] Cons.prems(3) by (auto simp: w2_def)
    have "tick_loop cb er i (f # es) w = tick_loop cb er i es w2"
      using True w1(1,5) by (simp add: w2_def take_out_def)
    moreover have "\<exists>w'. tick_loop cb er i es w2 = Some w' \<and> same_for e w2 w'"
      using Cons.prems w2 by (intro Cons.IH) auto
    ultimately show ?thesis using w2 e2 by (auto simp: same_for_def)
  qed
qed

definition next_index :: "TimeWheel \<Rightarrow> nat" where
  "next_index w = (if m_timeOutBucketIndex w + 1 = m_bucketSize w then 0 else m_timeOutBucketIndex w + 1)"

lemma tick_eq:
  assumes "wheel_inv w"
  shows "tick cb er w = tick_loop cb er (next_index w) (m_buckets w ! next_index w)
      (w\<lparr>m_timeOutBucketIndex := next_index w\<rparr>)"
proof -
  have "next_index w < length (m_buckets w)"
    using wheel_invD(1,2,5) [OF assms] by (auto simp: next_index_def)
  then show ?thesis unfolding tick_def Let_def next_index_def [symmetric] by simp
qed

lemma tick_other:
  assumes "benign e cb" "wheel_inv w" "in_wheel e w" "m_indexInWheel w e \<noteq> next_index w"
  shows "\<exists>w'. tick cb er w = Some w' \<and> wheel_inv w' \<and> in_wheel e w' \<and> m_bucketSize w' = m_bucketSize w
     \<and> m_timeOutBucketIndex w' = next_index w \<and> m_indexInWheel w' e = m_indexInWheel w e"
proof -
  note D = wheel_invD [OF assms(2)]
  let ?i = "next_index w" and ?w = "w\<lparr>m_timeOutBucketIndex := next_index w\<rparr>"
  have i: "?i < m_bucketSize w" using D(1,5) by (auto simp: next_index_def)
  then have "e \<notin> set (m_buckets w ! ?i)" using D(4) assms(4) by metis
  moreover have "wheel_inv ?w" using assms(2) i by (simp add: wheel_inv_def)
  ultimately obtain w' where "tick_loop cb er ?i (m_buckets w ! ?i) ?w = Some w'" "same_for e ?w w'"
    using tick_loop_benign [OF assms(1)] i by (metis TimeWheel.ext_inject TimeWheel.surjective TimeWheel.update_convs(2))
  moreover have "in_wheel e ?w" using assms(3) by (simp add: in_wheel_def)
  ultimately show ?thesis
    using i D(2) by (auto simp: tick_eq [OF assms(2)] same_for_def)
qed

fun ticks :: "(nat \<Rightarrow> TimeWheel \<Rightarrow> TimeWheel option) \<Rightarrow> (nat \<Rightarrow> bool) \<Rightarrow> nat \<Rightarrow> TimeWheel \<Rightarrow> TimeWheel option" where
  "ticks cb er 0 w = Some w"
| "ticks cb er (Suc k) w = do { w \<leftarrow> tick cb er w; ticks cb er k w }"

text \<open>How far the bucket that times out is from the entry's.\<close>

definition distance :: "nat \<Rightarrow> TimeWheel \<Rightarrow> nat" where
  "distance e w = (m_indexInWheel w e + m_bucketSize w - m_timeOutBucketIndex w) mod m_bucketSize w"

lemma distance_step:
  assumes "p < n" "t < n" "1 < (p + n - t) mod n"
  defines "t' \<equiv> if t + 1 = n then 0 else t + (1::nat)"
  shows "(p + n - t') mod n = (p + n - t) mod n - 1" "p \<noteq> t'"
proof -
  have "(p + n - t) mod n = (if t \<le> p then p - t else p + n - t)"
    using assms(1,2) by (auto simp: mod_if)
  then show "(p + n - t') mod n = (p + n - t) mod n - 1" "p \<noteq> t'"
    using assms by (auto simp: mod_if split: if_splits)
qed

lemma distance_one:
  assumes "p < n" "t < n" "(p + n - t) mod n = 1"
  shows "(if t + 1 = n then 0 else t + (1::nat)) = p"
  using assms by (auto simp: mod_if split: if_splits)

lemma ticks_distance:
  assumes "benign e cb" "wheel_inv w" "in_wheel e w" "distance e w = Suc k"
  shows "\<exists>w'. ticks cb er k w = Some w' \<and> wheel_inv w' \<and> in_wheel e w' \<and> next_index w' = m_indexInWheel w' e
     \<and> m_indexInWheel w' e = m_indexInWheel w e"
  using assms(2-)
proof (induction k arbitrary: w)
  case 0
  then have "m_indexInWheel w e < m_bucketSize w" using in_wheel_pos by blast
  with 0 wheel_invD(1) [OF 0(1)] distance_one show ?case
    by (simp add: distance_def next_index_def)
next
  case (Suc k)
  have pos: "m_indexInWheel w e < m_bucketSize w" using Suc.prems in_wheel_pos by blast
  have d: "1 < (m_indexInWheel w e + m_bucketSize w - m_timeOutBucketIndex w) mod m_bucketSize w"
    using Suc.prems(3) by (simp add: distance_def)
  note step = distance_step [OF pos wheel_invD(1) [OF Suc.prems(1)] d]
  then obtain w1 where w1: "tick cb er w = Some w1" "wheel_inv w1" "in_wheel e w1"
      "m_bucketSize w1 = m_bucketSize w" "m_timeOutBucketIndex w1 = next_index w"
      "m_indexInWheel w1 e = m_indexInWheel w e"
    using tick_other [OF assms(1) Suc.prems(1,2)] by (auto simp: next_index_def)
  then have "distance e w1 = Suc k"
    using step(1) Suc.prems(3) by (simp add: distance_def next_index_def)
  with Suc.IH [OF w1(2,3)] w1 show ?case by auto
qed

text \<open>With two buckets or more, an entry that is added to the wheel times out on the tick
  number \<open>n - 1\<close>, not sooner, when the other entries' callbacks leave it alone: after
  \<open>n - 2\<close> ticks it is still in the wheel and its bucket is the next one.\<close>

lemma entry_times_out_on_tick:
  assumes "wheel_inv w" "\<not> in_wheel e w" "2 \<le> m_bucketSize w" "benign e cb"
  shows "\<exists>w'. ticks cb er (m_bucketSize w - 2) (addToWheel e w) = Some w' \<and> wheel_inv w' \<and> in_wheel e w'
     \<and> e \<in> set (m_buckets w' ! next_index w')"
proof -
  note D = wheel_invD [OF assms(1)]
  have add: "addToWheel e w = put_latest e w" using assms(3) by (simp add: addToWheel_def)
  have "distance e (put_latest e w) = Suc (m_bucketSize w - 2)"
    using D(1) assms(3) by (auto simp: distance_def latestIndex_def mod_if)
  then obtain w' where "ticks cb er (m_bucketSize w - 2) (put_latest e w) = Some w'" "wheel_inv w'"
      "in_wheel e w'" "next_index w' = m_indexInWheel w' e"
    using ticks_distance [OF assms(4) put_latest_inv [OF assms(1,2)]] put_latest_in_wheel [OF assms(1)]
    by metis
  then show ?thesis using in_wheel_pos by (auto simp: add)
qed

lemma entry_times_out_on_tick_witness:
  "\<exists>w'. ticks (\<lambda>_. Some) (\<lambda>_. True) (m_bucketSize (newTimeWheel 4) - 2) (addToWheel 9 (newTimeWheel 4)) = Some w'
     \<and> wheel_inv w' \<and> in_wheel 9 w' \<and> 9 \<in> set (m_buckets w' ! next_index w')"
  by (rule entry_times_out_on_tick) (auto simp: new_wheel_inv benign_def in_wheel_def, simp_all add: newTimeWheel_def)

text \<open>A callback that takes its own entry out of the bucket being iterated.\<close>

lemma tick_self_removal:
  assumes "wheel_inv w" "m_buckets w ! next_index w = e # es"
    and "cb e (w\<lparr>m_timeOutBucketIndex := next_index w\<rparr>) = Some w'" "e \<notin> set (m_buckets w' ! next_index w)"
  shows "tick cb er w = None"
  using assms(2-4) by (simp add: tick_eq [OF assms(1)])

text \<open>A callback that removes its own entry from the wheel (and so from the bucket being
  iterated) makes \<^verbatim>\<open>tick\<close> use an invalid iterator.\<close>

lemma self_removal_invalidates_tick:
  assumes "wheel_inv w" "m_buckets w ! next_index w = e # es"
    and "\<And>w'. cb e w' = removeFromWheel True e w'"
  shows "tick cb er w = None"
proof -
  note D = wheel_invD [OF assms(1)]
  let ?w = "w\<lparr>m_timeOutBucketIndex := next_index w\<rparr>"
  have i: "next_index w < m_bucketSize w" using D(1,5) by (auto simp: next_index_def)
  have pos: "m_indexInWheel w e = next_index w" using D(4) [OF i, of e] assms(2) by simp
  have "removeFromWheel True e ?w = Some (take_out e (next_index w) ?w)"
    using i D(2) assms(2) pos by (simp add: removeFromWheel_def take_out_def)
  moreover have "e \<notin> set (m_buckets (take_out e (next_index w) ?w) ! next_index w)"
    using i D(2) by (simp add: take_out_bucket)
  ultimately show ?thesis
    using assms(2,3) tick_self_removal [OF assms(1,2)] by simp
qed

lemma self_removal_invalidates_tick_witness:
  "tick (removeFromWheel True) (\<lambda>_. True) (addToWheel 5 (newTimeWheel 2)) = None"
proof (rule self_removal_invalidates_tick)
  have "\<not> in_wheel 5 (newTimeWheel 2)" by (auto simp: in_wheel_def newTimeWheel_def)
  then show "wheel_inv (addToWheel 5 (newTimeWheel 2))"
    using wheel_operations [OF new_wheel_inv [of 2], of 5] by simp
  show "m_buckets (addToWheel 5 (newTimeWheel 2)) ! next_index (addToWheel 5 (newTimeWheel 2)) = [5]"
    by (simp add: addToWheel_def put_latest_def newTimeWheel_def latestIndex_def next_index_def set_insert_def numeral_2_eq_2)
qed simp

end
