(* ===== verification/Timer.thy ===== *)
theory Timer
  imports Stub
begin

text \<open>
  Timers (\<^verbatim>\<open>src/time/Timer.cpp\<close>, \<^verbatim>\<open>src/internal/handlers/TimerHandler.cpp\<close>):
  the settings of a \<^verbatim>\<open>Timer\<close> and the \<^verbatim>\<open>itimerspec\<close> that its
  \<^verbatim>\<open>TimerImpl\<close> hands to \<^verbatim>\<open>timerfd_settime\<close> with an absolute start.
  The current time (seconds and nanoseconds) is an argument. The kernel accepts a
  \<^verbatim>\<open>timespec\<close> whose nanoseconds are below one thousand million. The settings refine
  an alarm clock that counts in nanoseconds.
\<close>

record timespec =
  tv_sec :: int
  tv_nsec :: int

record itimerspec =
  it_value :: timespec
  it_interval :: timespec

definition zero_time :: timespec where
  "zero_time = \<lparr>tv_sec = 0, tv_nsec = 0\<rparr>"

definition zero_spec :: itimerspec where
  "zero_spec = \<lparr>it_value = zero_time, it_interval = zero_time\<rparr>"

record Timer =
  m_interval :: nat
  m_singleShot :: bool
  m_running :: bool
  m_timerSpec :: itimerspec

definition newTimer :: Timer where
  "newTimer = \<lparr>m_interval = 1000, m_singleShot = True, m_running = False, m_timerSpec = zero_spec\<rparr>"

definition ms_time :: "nat \<Rightarrow> timespec" where
  "ms_time ms = \<lparr>tv_sec = int (ms div 1000), tv_nsec = int (ms mod 1000) * 1000 * 1000\<rparr>"

definition setAndRun :: "timespec \<Rightarrow> nat \<Rightarrow> bool \<Rightarrow> itimerspec" where
  "setAndRun now ms repeat =
     (let sec = tv_sec now + int (ms div 1000);
          nSec = tv_nsec now + int (ms mod 1000) * 1000 * 1000;
          (sec, nSec) = (if 1000000000 < nSec then (sec + 1, nSec - 1000000000) else (sec, nSec))
      in \<lparr>it_value = \<lparr>tv_sec = sec, tv_nsec = nSec\<rparr>,
          it_interval = (if repeat then ms_time ms else zero_time)\<rparr>)"

definition triggerOnceIn :: "timespec \<Rightarrow> nat \<Rightarrow> Timer \<Rightarrow> Timer" where
  "triggerOnceIn now ms t = t\<lparr>m_timerSpec := setAndRun now ms False\<rparr>"

definition runRepeatedly :: "timespec \<Rightarrow> nat \<Rightarrow> Timer \<Rightarrow> Timer" where
  "runRepeatedly now ms t = t\<lparr>m_timerSpec := setAndRun now ms True\<rparr>"

definition impl_stop :: "Timer \<Rightarrow> Timer" where
  "impl_stop t = t\<lparr>m_timerSpec := zero_spec\<rparr>"

definition changeIntervalTo :: "nat \<Rightarrow> Timer \<Rightarrow> Timer" where
  "changeIntervalTo ms t = t\<lparr>m_timerSpec := (m_timerSpec t)\<lparr>it_interval := ms_time ms\<rparr>\<rparr>"

definition setInterval :: "timespec \<Rightarrow> nat \<Rightarrow> Timer \<Rightarrow> Timer" where
  "setInterval now ms t =
     (let t = t\<lparr>m_interval := ms\<rparr> in
      if m_running t then (if m_singleShot t then triggerOnceIn now ms t else runRepeatedly now ms t) else t)"

definition setSingleShot :: "timespec \<Rightarrow> bool \<Rightarrow> Timer \<Rightarrow> Timer" where
  "setSingleShot now singleShot t =
     (if m_singleShot t = singleShot then t
      else let t = t\<lparr>m_singleShot := singleShot\<rparr> in
        if m_running t then (if m_singleShot t then triggerOnceIn now 0 t else runRepeatedly now (m_interval t) t)
        else t)"

definition timer_start :: "timespec \<Rightarrow> Timer \<Rightarrow> Timer" where
  "timer_start now t =
     (if \<not> m_running t then
        let t = t\<lparr>m_running := True\<rparr> in
        if m_singleShot t then triggerOnceIn now (m_interval t) t else runRepeatedly now (m_interval t) t
      else t)"

definition timer_stop :: "Timer \<Rightarrow> Timer" where
  "timer_stop t = (if m_running t then impl_stop (t\<lparr>m_running := False\<rparr>) else t)"

text \<open>\<^verbatim>\<open>TimerHandler::handleIn\<close>: does a readable timer run its callback? It changes
  nothing in the timer, in particular not \<^verbatim>\<open>m_running\<close>.\<close>

definition timer_handleIn :: "(nat \<Rightarrow> sysret) \<Rightarrow> bool option" where
  "timer_handleIn calls = map_option (\<lambda>n. n \<noteq> - 1) (stub_read calls)"

subsection \<open>Absolute times\<close>

definition ns :: "timespec \<Rightarrow> int" where
  "ns t = tv_sec t * 1000000000 + tv_nsec t"

definition valid_time :: "timespec \<Rightarrow> bool" where
  "valid_time t \<longleftrightarrow> 0 \<le> tv_nsec t \<and> tv_nsec t < 1000000000"

lemma ms_time_valid: "valid_time (ms_time ms)"
proof -
  have "int (ms mod 1000) \<le> 999" using mod_less_divisor [of 1000 ms] by linarith
  then show ?thesis by (simp add: valid_time_def ms_time_def)
qed

text \<open>The start time that \<^verbatim>\<open>setAndRun\<close> computes is the current time plus the interval,
  to the nanosecond, and the period is the interval or 0. The start time is one that the
  kernel accepts except when the nanoseconds add up to exactly one second.\<close>

lemma setAndRun_time:
  assumes "valid_time now"
  shows "ns (it_value (setAndRun now ms repeat)) = ns now + int ms * 1000000
     \<and> ns (it_interval (setAndRun now ms repeat)) = (if repeat then int ms * 1000000 else 0)
     \<and> valid_time (it_interval (setAndRun now ms repeat))
     \<and> (valid_time (it_value (setAndRun now ms repeat)) \<longleftrightarrow> tv_nsec now + int (ms mod 1000) * 1000000 \<noteq> 1000000000)"
proof -
  define q r where "q = int (ms div 1000)" and "r = int (ms mod 1000)"
  have ms: "int ms = q * 1000 + r"
    unfolding q_def r_def using div_mult_mod_eq [of ms 1000] by (metis of_nat_add of_nat_mult of_nat_numeral)
  have now: "0 \<le> tv_nsec now" "tv_nsec now < 1000000000" using assms by (simp_all add: valid_time_def)
  have r: "r \<le> 999" "0 \<le> r" unfolding r_def using mod_less_divisor [of 1000 ms] by linarith+
  have eq: "setAndRun now ms repeat =
     \<lparr>it_value = (if 1000000000 < tv_nsec now + r * 1000 * 1000
        then \<lparr>tv_sec = tv_sec now + q + 1, tv_nsec = tv_nsec now + r * 1000 * 1000 - 1000000000\<rparr>
        else \<lparr>tv_sec = tv_sec now + q, tv_nsec = tv_nsec now + r * 1000 * 1000\<rparr>),
      it_interval = (if repeat then \<lparr>tv_sec = q, tv_nsec = r * 1000 * 1000\<rparr> else zero_time)\<rparr>"
    unfolding setAndRun_def ms_time_def q_def [symmetric] r_def [symmetric] by (simp add: Let_def)
  show ?thesis
    unfolding eq ms r_def [symmetric]
    using now r by (auto simp: ns_def valid_time_def zero_time_def algebra_simps)
qed

lemma setAndRun_time_witness:
  "\<not> valid_time (it_value (setAndRun \<lparr>tv_sec = 5, tv_nsec = 900000000\<rparr> 100 True))"
  using setAndRun_time [of "\<lparr>tv_sec = 5, tv_nsec = 900000000\<rparr>" 100 True] by (simp add: valid_time_def)

subsection \<open>The timer as a state machine\<close>

datatype timer_op = SetInterval nat | SetSingleShot bool | Start | Stop

fun timer_step :: "Timer \<Rightarrow> timespec \<times> timer_op \<Rightarrow> Timer" where
  "timer_step t (now, SetInterval ms) = setInterval now ms t"
| "timer_step t (now, SetSingleShot b) = setSingleShot now b t"
| "timer_step t (now, Start) = timer_start now t"
| "timer_step t (now, Stop) = timer_stop t"

definition timer_inv :: "Timer \<Rightarrow> bool" where
  "timer_inv t \<longleftrightarrow>
     (if m_running t
      then it_interval (m_timerSpec t) = (if m_singleShot t then zero_time else ms_time (m_interval t))
      else m_timerSpec t = zero_spec)"

lemma setAndRun_interval [simp]:
  "it_interval (setAndRun now ms repeat) = (if repeat then ms_time ms else zero_time)"
  by (simp add: setAndRun_def Let_def split_beta)

lemmas timer_ops = setInterval_def setSingleShot_def timer_start_def timer_stop_def triggerOnceIn_def
  runRepeatedly_def impl_stop_def

lemma timer_step_inv: "timer_inv t \<Longrightarrow> timer_inv (timer_step t e)"
  by (cases "(t, e)" rule: timer_step.cases) (auto simp: timer_inv_def timer_ops Let_def)

interpretation timer: machine "\<lambda>t. t = newTimer" timer_step timer_inv
  by unfold_locales (auto simp: timer_step_inv, simp add: timer_inv_def newTimer_def)

text \<open>
  What a timer promises, in nanoseconds: nothing, to fire once at a time, or to fire at a time
  and then again after every period. \<open>alarm_of\<close> is what the kernel makes of an
  \<^verbatim>\<open>itimerspec\<close> (\<^verbatim>\<open>timerfd_settime(2)\<close>): a start of zero disarms, a period of zero
  fires once.
\<close>

datatype alarm = Disarmed | FireOnce int | FireEvery int int

definition alarm_of :: "itimerspec \<Rightarrow> alarm" where
  "alarm_of spec =
     (if it_value spec = zero_time then Disarmed
      else if it_interval spec = zero_time then FireOnce (ns (it_value spec))
      else FireEvery (ns (it_value spec)) (ns (it_interval spec)))"

record alarm_clock =
  clock_ms :: nat
  clock_once :: bool
  clock_alarm :: alarm

definition new_clock :: alarm_clock where
  "new_clock = \<lparr>clock_ms = 1000, clock_once = True, clock_alarm = Disarmed\<rparr>"

text \<open>To arm: from a delay after now, once or with the interval as the period.\<close>

definition arm :: "timespec \<Rightarrow> nat \<Rightarrow> alarm_clock \<Rightarrow> alarm_clock" where
  "arm now delay c = c\<lparr>clock_alarm :=
     (let start = ns now + int delay * 1000000 in
      if clock_once c \<or> clock_ms c = 0 then FireOnce start else FireEvery start (int (clock_ms c) * 1000000))\<rparr>"

fun clock_step :: "alarm_clock \<Rightarrow> timespec \<times> timer_op \<Rightarrow> alarm_clock" where
  "clock_step c (now, SetInterval ms) =
     (let c' = c\<lparr>clock_ms := ms\<rparr> in if clock_alarm c = Disarmed then c' else arm now ms c')"
| "clock_step c (now, SetSingleShot b) =
     (let c' = c\<lparr>clock_once := b\<rparr> in
      if clock_alarm c = Disarmed \<or> b = clock_once c then c' else arm now (if b then 0 else clock_ms c) c')"
| "clock_step c (now, Start) = (if clock_alarm c = Disarmed then arm now (clock_ms c) c else c)"
| "clock_step c (now, Stop) = c\<lparr>clock_alarm := Disarmed\<rparr>"

definition clock_of :: "Timer \<Rightarrow> alarm_clock" where
  "clock_of t = \<lparr>clock_ms = m_interval t, clock_once = m_singleShot t, clock_alarm = alarm_of (m_timerSpec t)\<rparr>"

definition shows_running :: "Timer \<Rightarrow> bool" where
  "shows_running t \<longleftrightarrow> (m_running t \<longleftrightarrow> alarm_of (m_timerSpec t) \<noteq> Disarmed)"

lemma alarm_of_zero [simp]: "alarm_of zero_spec = Disarmed"
  by (simp add: alarm_of_def zero_spec_def)

lemma ms_time_ns: "ns (ms_time ms) = int ms * 1000000" "ms_time ms = zero_time \<longleftrightarrow> ms = 0"
proof -
  have ms: "int ms = int (ms div 1000) * 1000 + int (ms mod 1000)"
    using div_mult_mod_eq [of ms 1000] by (metis of_nat_add of_nat_mult of_nat_numeral)
  show "ns (ms_time ms) = int ms * 1000000" unfolding ms by (simp add: ns_def ms_time_def)
  then show "ms_time ms = zero_time \<longleftrightarrow> ms = 0" by (auto simp: ns_def zero_time_def ms_time_def)
qed

lemma alarm_of_setAndRun:
  assumes "valid_time now" "0 < ns now"
  shows "alarm_of (setAndRun now ms repeat) =
     (let start = ns now + int ms * 1000000 in
      if repeat \<and> ms \<noteq> 0 then FireEvery start (int ms * 1000000) else FireOnce start)"
proof -
  have "ns (it_value (setAndRun now ms repeat)) = ns now + int ms * 1000000"
    using setAndRun_time [OF assms(1)] by blast
  moreover from this have "it_value (setAndRun now ms repeat) \<noteq> zero_time"
    using assms(2) by (auto simp: ns_def zero_time_def)
  ultimately show ?thesis by (cases repeat; cases "ms = 0") (simp_all add: alarm_of_def Let_def ms_time_ns)
qed

lemma clock_refines:
  assumes "shows_running t" "valid_time now" "0 < ns now"
  shows "clock_of (timer_step t (now, x)) = clock_step (clock_of t) (now, x)"
    and "shows_running (timer_step t (now, x))"
  using assms(1) alarm_of_setAndRun [OF assms(2,3)]
  by (cases x; auto simp: shows_running_def clock_of_def arm_def timer_ops Let_def)+

lemma clock_refines_run:
  "shows_running t \<Longrightarrow> \<forall>(now, x) \<in> set ops. valid_time now \<and> 0 < ns now \<Longrightarrow>
     clock_of (run_steps timer_step t ops) = run_steps clock_step (clock_of t) ops
     \<and> shows_running (run_steps timer_step t ops)"
  by (induction ops arbitrary: t) (auto simp: clock_refines simp del: timer_step.simps clock_step.simps)

text \<open>C35. Whatever is set, started and stopped in whatever order, at whatever times of the
  monotonic clock after its origin, the setting that a timer has handed to the kernel is the
  one that the last start, or the last change of a running timer, asks for: the first time is
  that moment plus the interval (0 for a change to single shot), the period is the interval
  (none for a single shot or an interval of 0), and it disarms exactly while
  \<open>m_running\<close> is not set. (The kernel takes it over except in the one case above, where the
  nanoseconds add up to a full second.)\<close>

theorem timer_spec_matches_settings:
  assumes "\<forall>(now, x) \<in> set ops. valid_time now \<and> 0 < ns now"
  shows "clock_of (run_steps timer_step newTimer ops) = run_steps clock_step new_clock ops
     \<and> (m_running (run_steps timer_step newTimer ops) \<longleftrightarrow>
          alarm_of (m_timerSpec (run_steps timer_step newTimer ops)) \<noteq> Disarmed)"
proof -
  have "shows_running newTimer" "clock_of newTimer = new_clock"
    by (simp_all add: shows_running_def clock_of_def newTimer_def new_clock_def)
  with clock_refines_run [OF _ assms, of newTimer] show ?thesis by (simp add: shows_running_def)
qed

text \<open>Started at 9.5 s for a single shot of 1600 ms, made periodic at 10.5 s; stopped, and changed while it
  does not run.\<close>

lemma timer_spec_matches_settings_witness:
  "let at = \<lambda>s. \<lparr>tv_sec = s, tv_nsec = 500000000\<rparr>;
       t = \<lambda>ops. run_steps timer_step newTimer ops
   in alarm_of (m_timerSpec (t [(at 9, SetInterval 1600), (at 9, Start)])) = FireOnce 11100000000
    \<and> alarm_of (m_timerSpec (t [(at 9, SetInterval 1600), (at 9, Start), (at 10, SetSingleShot False)]))
       = FireEvery 12100000000 1600000000
    \<and> \<not> m_running (t [(at 9, Start), (at 10, Stop), (at 11, SetInterval 5)])"
proof -
  let ?at = "\<lambda>s. \<lparr>tv_sec = s, tv_nsec = 500000000\<rparr>"
  have spec: "alarm_of (m_timerSpec (run_steps timer_step newTimer ops)) = clock_alarm (run_steps clock_step new_clock ops)
      \<and> (m_running (run_steps timer_step newTimer ops) \<longleftrightarrow> clock_alarm (run_steps clock_step new_clock ops) \<noteq> Disarmed)"
    if "\<forall>(now, x) \<in> set ops. valid_time now \<and> 0 < ns now" for ops
    using timer_spec_matches_settings [OF that] by (auto simp: clock_of_def dest: arg_cong [of _ _ clock_alarm])
  let ?ops1 = "[(?at 9, SetInterval 1600), (?at 9, Start)]"
  let ?ops2 = "[(?at 9, SetInterval 1600), (?at 9, Start), (?at 10, SetSingleShot False)]"
  let ?ops3 = "[(?at 9, Start), (?at 10, Stop), (?at 11, SetInterval 5)]"
  have "clock_alarm (run_steps clock_step new_clock ?ops1) = FireOnce 11100000000"
    "clock_alarm (run_steps clock_step new_clock ?ops2) = FireEvery 12100000000 1600000000"
    "clock_alarm (run_steps clock_step new_clock ?ops3) = Disarmed"
    by (simp_all add: new_clock_def arm_def Let_def ns_def)
  moreover have valid: "\<forall>(now, x) \<in> set ?ops1. valid_time now \<and> 0 < ns now" "\<forall>(now, x) \<in> set ?ops2. valid_time now \<and> 0 < ns now"
    "\<forall>(now, x) \<in> set ?ops3. valid_time now \<and> 0 < ns now"
    by (simp_all add: ns_def valid_time_def)
  ultimately show ?thesis using spec [OF valid(1)] spec [OF valid(2)] spec [OF valid(3)] by (simp only: Let_def) simp
qed

text \<open>Turning a running periodic timer into a single-shot one restarts it with a start time
  of now: it fires at once instead of when its period ends.\<close>

lemma single_shot_fires_now:
  assumes "m_running t" "\<not> m_singleShot t" "valid_time now"
  shows "it_value (m_timerSpec (setSingleShot now True t)) = now
     \<and> it_interval (m_timerSpec (setSingleShot now True t)) = zero_time"
  using assms by (auto simp: setSingleShot_def triggerOnceIn_def setAndRun_def valid_time_def zero_time_def)

lemma single_shot_fires_now_witness:
  "it_value (m_timerSpec (setSingleShot \<lparr>tv_sec = 9, tv_nsec = 1\<rparr> True
     (newTimer\<lparr>m_running := True, m_singleShot := False\<rparr>))) = \<lparr>tv_sec = 9, tv_nsec = 1\<rparr>"
  using single_shot_fires_now [of "newTimer\<lparr>m_running := True, m_singleShot := False\<rparr>" "\<lparr>tv_sec = 9, tv_nsec = 1\<rparr>"]
  by (simp add: valid_time_def)

end
