(* ===== verification/Loop.thy ===== *)
theory Loop
  imports EventLoop TimeWheel Timer
begin

text \<open>
  The event loop as an object (\<^verbatim>\<open>EventLoop\<close> in \<^verbatim>\<open>src/EventLoop.cpp\<close>): what its
  constructors set up. They make the handler of the functors with its \<^verbatim>\<open>eventfd\<close>
  (\<^verbatim>\<open>RunInLoopHandler::makeRunInLoopHandler\<close>) and, on request, the time wheel that kicks
  idle connections, with its timer. In a new loop the functors' handler has the number 0,
  the epoll events of the handler and of the timer the numbers 0 and 1.
\<close>

record LoopObject =
  m_impl :: EventLoopImpl
  m_wakeUpFd :: int
  wakeUpEvent :: EpollEvent
  kickWheel :: "(TimeWheel \<times> Timer \<times> EpollEvent) option"

definition runInLoopHandler :: nat where
  "runInLoopHandler = 0"

text \<open>\<^verbatim>\<open>RunInLoopHandler\<close>: \<open>r\<close> is the result of \<^verbatim>\<open>eventfd\<close>. On a code that
  the wrapper lets pass the descriptor is -1 and is registered all the same.\<close>

definition newRunInLoopHandler :: "sysret \<Rightarrow> int result" where
  "newRunInLoopHandler r = stub_eventfd r"

definition makeRunInLoopHandler :: "sysret \<Rightarrow> sysret \<Rightarrow> EventLoopImpl \<Rightarrow> (int \<times> EpollEvent \<times> EventLoopImpl) result" where
  "makeRunInLoopHandler r ctl l = (case newRunInLoopHandler r of
     Inl x \<Rightarrow> Inl x
   | Inr fd \<Rightarrow>
       (let l = add_handler runInLoopHandler l;
            (e, p) = event_active 0 [EV_IN] ctl (newEpollEvent fd, m_poll l)
        in Inr (fd, e, l\<lparr>m_poll := p\<rparr>)))"

definition newLoop :: "sysret \<Rightarrow> sysret \<Rightarrow> LoopObject result" where
  "newLoop r ctl = (case makeRunInLoopHandler r ctl newEventLoop of
     Inl x \<Rightarrow> Inl x
   | Inr (fd, e, l) \<Rightarrow> Inr \<lparr>m_impl = l, m_wakeUpFd = fd, wakeUpEvent = e, kickWheel = None\<rparr>)"

text \<open>\<^verbatim>\<open>TimeWheel::TimeWheel\<close>: the timer is registered in any case, and started only
  when there are buckets. The interval of the wheel's timer is in milliseconds.\<close>

definition tickTimer :: "timespec \<Rightarrow> nat \<Rightarrow> nat \<Rightarrow> Timer" where
  "tickTimer now tickInterval bucketCount =
     (if bucketCount \<noteq> 0
      then timer_start now (setSingleShot now False (setInterval now tickInterval newTimer)) else newTimer)"

definition newLoopWithWheel :: "sysret \<Rightarrow> (nat \<Rightarrow> sysret) \<Rightarrow> int \<Rightarrow> timespec \<Rightarrow> nat \<Rightarrow> nat \<Rightarrow> LoopObject result" where
  "newLoopWithWheel r ctl timerFd now tickInterval bucketCount = (case newLoop r (ctl 0) of
     Inl x \<Rightarrow> Inl x
   | Inr L \<Rightarrow>
       (let (e, p) = event_active 1 [EV_IN] (ctl 1) (newEpollEvent timerFd, m_poll (m_impl L))
        in Inr (L\<lparr>m_impl := (m_impl L)\<lparr>m_poll := p\<rparr>,
                  kickWheel := Some (newTimeWheel bucketCount, tickTimer now tickInterval bucketCount, e)\<rparr>)))"

text \<open>The operations of \<^verbatim>\<open>EventLoop\<close> pass on to its members.\<close>

definition loop_run :: "LoopObject \<Rightarrow> bool \<times> LoopObject" where
  "loop_run L = (let (entered, l) = loop_enter (m_impl L) in (entered, L\<lparr>m_impl := l\<rparr>))"

definition addEventHandlerToLoop :: "nat \<Rightarrow> LoopObject \<Rightarrow> LoopObject" where
  "addEventHandlerToLoop h L = L\<lparr>m_impl := add_handler h (m_impl L)\<rparr>"

definition removeEventHandlerFromLoop :: "nat \<Rightarrow> LoopObject \<Rightarrow> LoopObject" where
  "removeEventHandlerFromLoop h L = L\<lparr>m_impl := remove_handler h (m_impl L)\<rparr>"

definition getPoll :: "LoopObject \<Rightarrow> Epoll" where
  "getPoll L = m_poll (m_impl L)"

text \<open>\<^verbatim>\<open>RunInLoopHandler::~RunInLoopHandler\<close>: the event is disabled, then the descriptor
  closed unless it is -1.\<close>

definition destroyRunInLoopHandler :: "sysret \<Rightarrow> LoopObject \<Rightarrow> bool \<times> LoopObject" where
  "destroyRunInLoopHandler ctl L =
     (let (e, p) = event_disable ctl (wakeUpEvent L, m_poll (m_impl L))
      in (m_wakeUpFd L \<noteq> - 1, L\<lparr>m_impl := (m_impl L)\<lparr>m_poll := p\<rparr>\<rparr>))"

subsection \<open>A new loop\<close>

lemma tickTimer_spec:
  "0 < n \<Longrightarrow> m_timerSpec (tickTimer now ms n) = setAndRun now ms True \<and> m_running (tickTimer now ms n)"
  by (simp add: tickTimer_def timer_start_def setSingleShot_def setInterval_def newTimer_def runRepeatedly_def)

text \<open>A new loop with a wheel holds exactly the functors' handler and watches exactly its
  \<^verbatim>\<open>eventfd\<close> and the wheel's timer, each for data and for its own event; the calls made
  are two additions, and the wheel is empty and ticks periodically from one interval after
  now.\<close>

lemma new_loop_watches:
  assumes "fd \<noteq> tfd" "0 < buckets"
  obtains L w t e where "newLoopWithWheel (SysOk fd) ctl tfd now ms buckets = Inr L"
    "kickWheel L = Some (w, t, e)"
    "m_handlers (m_impl L) = {runInLoopHandler}"
    "poll_events (getPoll L) = [fd \<mapsto> 0, tfd \<mapsto> 1]"
    "map fst (ctl_log (getPoll L)) = [CTL_ADD, CTL_ADD]"
    "watches (watchingEvents (wakeUpEvent L)) ev \<longleftrightarrow> ev = EV_IN" "watches (watchingEvents e) ev \<longleftrightarrow> ev = EV_IN"
    "wheel_inv w" "concat (m_buckets w) = []" "m_timerSpec t = setAndRun now ms True"
    "\<not> m_loopRunning (m_impl L)" "fst (loop_run L)"
proof -
  let ?e0 = "(newEpollEvent fd)\<lparr>watchingEvents := mask_active [EV_IN] (watchingEvents (newEpollEvent fd))\<rparr>"
  let ?e1 = "(newEpollEvent tfd)\<lparr>watchingEvents := mask_active [EV_IN] (watchingEvents (newEpollEvent tfd))\<rparr>"
  have w: "watches (mask_active [EV_IN] 0) x \<longleftrightarrow> x = EV_IN" for x
    by (simp add: watches_active) (simp add: watches_def)
  let ?m = "mask_active [EV_IN] 0"
  let ?L = "\<lparr>m_impl = \<lparr>m_loopRunning = False, m_handlers = {runInLoopHandler},
      m_poll = \<lparr>m_activeEvents_size = 32, poll_events = [fd \<mapsto> 0, tfd \<mapsto> 1],
        ctl_log = [(CTL_ADD, fd, ?m), (CTL_ADD, tfd, ?m)]\<rparr>\<rparr>,
      m_wakeUpFd = fd, wakeUpEvent = ?e0,
      kickWheel = Some (newTimeWheel buckets, tickTimer now ms buckets, ?e1)\<rparr>"
  show thesis
    by (rule that [of ?L "newTimeWheel buckets" "tickTimer now ms buckets" ?e1])
       (use assms w new_wheel_inv [OF assms(2)] tickTimer_spec [OF assms(2)] in
        \<open>simp_all add: newLoopWithWheel_def newLoop_def makeRunInLoopHandler_def newRunInLoopHandler_def
           stub_eventfd_def Let_def event_active_def updateEvent_def newEpollEvent_def newEpoll_def
           newEventLoop_def add_handler_def getPoll_def loop_run_def loop_enter_def newTimeWheel_def
           split: sum.splits\<close>)
qed

end
