(* ===== verification/ThreadPool.thy ===== *)
theory ThreadPool
  imports Prelude "HOL-Library.Multiset"
begin

text \<open>
  The thread pool (\<^verbatim>\<open>src/support/ThreadPool.cpp\<close>) over the thread-safe queue
  (\<^verbatim>\<open>include/support/ThreadSafeQueue.hpp\<close>), whose operations are atomic under its
  mutex. The counters are atomic: each change of one is a step of its own, so a step
  relation covers every interleaving of the submitting threads and the workers.
\<close>

subsection \<open>\<^verbatim>\<open>ThreadSafeQueue\<close>\<close>

definition tsq_push :: "'t \<Rightarrow> 't list \<Rightarrow> 't list" where
  "tsq_push v q = q @ [v]"

definition tsq_tryPop :: "'t list \<Rightarrow> ('t \<times> 't list) option" where
  "tsq_tryPop q = (if q = [] then None else Some (hd q, tl q))"

text \<open>\<^verbatim>\<open>waitPop\<close> blocks while the queue is empty.\<close>

definition tsq_waitPop :: "'t list \<Rightarrow> ('t \<times> 't list) option" where
  "tsq_waitPop q = (if q = [] then None else Some (hd q, tl q))"

definition tsq_empty :: "'t list \<Rightarrow> bool" where
  "tsq_empty q = (q = [])"

text \<open>What the pool relies on: a queue that keeps every element and loses none.\<close>

locale task_queue =
  fixes push :: "'t \<Rightarrow> 'q \<Rightarrow> 'q" and try_pop :: "'q \<Rightarrow> ('t \<times> 'q) option"
    and is_empty :: "'q \<Rightarrow> bool" and items :: "'q \<Rightarrow> 't list"
  assumes push_items: "items (push v q) = items q @ [v]"
    and pop_some: "try_pop q = Some (v, q') \<Longrightarrow> items q = v # items q'"
    and pop_none: "try_pop q = None \<longleftrightarrow> items q = []"
    and empty_items: "is_empty q \<longleftrightarrow> items q = []"
begin

lemma pop_after_push: "items q = [] \<Longrightarrow> \<exists>q'. try_pop (push v q) = Some (v, q') \<and> items q' = []"
proof -
  assume "items q = []"
  then have v: "items (push v q) = [v]" by (simp add: push_items)
  then have "try_pop (push v q) \<noteq> None" by (simp add: pop_none)
  then obtain w q' where w: "try_pop (push v q) = Some (w, q')" by auto
  from pop_some [OF w] v have "w = v" "items q' = []" by auto
  with w show ?thesis by blast
qed

lemma pop_mset: "try_pop q = Some (v, q') \<Longrightarrow> mset (items q) = add_mset v (mset (items q'))"
  by (simp add: pop_some)

end

interpretation tsq: task_queue tsq_push tsq_tryPop tsq_empty "\<lambda>q. q"
  by unfold_locales (auto simp: tsq_push_def tsq_tryPop_def tsq_empty_def split: if_splits)

subsection \<open>\<^verbatim>\<open>ThreadPool\<close>\<close>

text \<open>
  \<open>adding\<close> are the tasks counted by \<^verbatim>\<open>addTask\<close> and not pushed yet;
  \<open>looping\<close> is the number of workers that have found \<^verbatim>\<open>m_quit\<close> unset and not
  yet tried to pop; \<open>popped\<close>, \<open>counted\<close> and \<open>running\<close> are the tasks of the
  workers inside \<^verbatim>\<open>runTask\<close> before the first counter, between the two, and after;
  \<open>submitted\<close> and \<open>finished\<close> are histories. \<open>threadCount\<close> is the number of
  threads, \<open>toStart\<close> the number that running calls of \<^verbatim>\<open>start\<close> have still to
  make, \<open>starts\<close> the number of calls. A task is a \<^verbatim>\<open>packaged_task\<close>, which keeps
  what the user's function throws: calling it does not throw.
\<close>

record 't ThreadPool =
  m_quit :: bool
  threadNumber :: nat
  threadCount :: nat
  toStart :: nat
  starts :: nat
  taskCount :: nat
  m_activeThreads :: nat
  workQueue :: "'t list"
  adding :: "'t list"
  looping :: nat
  popped :: "'t multiset"
  counted :: "'t multiset"
  running :: "'t multiset"
  finished :: "'t multiset"
  submitted :: "'t multiset"

definition newThreadPool :: "nat \<Rightarrow> nat \<Rightarrow> 't ThreadPool" where
  "newThreadPool hardware_concurrency threadNum =
     \<lparr>m_quit = False, threadNumber = (if threadNum = 0 then hardware_concurrency else threadNum),
      threadCount = 0, toStart = 0, starts = 0,
      taskCount = 0, m_activeThreads = 0, workQueue = [], adding = [], looping = 0, popped = {#},
      counted = {#}, running = {#}, finished = {#}, submitted = {#}\<rparr>"

definition busy :: "'t ThreadPool \<Rightarrow> nat" where
  "busy s = looping s + size (popped s) + size (counted s) + size (running s)"

text \<open>
  The atomic events: a call of \<^verbatim>\<open>start\<close>, each thread it makes and its failure; the two
  halves of \<^verbatim>\<open>addTask\<close>; a worker that looks at \<^verbatim>\<open>m_quit\<close>, tries to pop (the
  half millisecond it may wait in between only takes time), and goes through
  \<^verbatim>\<open>runTask\<close>; and the destructor setting \<^verbatim>\<open>m_quit\<close>. An event that
  cannot happen in a state is \<^term>\<open>None\<close>.
\<close>

datatype 't worker_event = StartCall | StartThread | StartFails | AddCount 't | AddPush 't
  | WorkerLoop | WorkerPop | CountActive 't | UncountTask 't | TaskDone 't | Quit

fun pool_event :: "'t worker_event \<Rightarrow> 't ThreadPool \<Rightarrow> 't ThreadPool option" where
  "pool_event StartCall s = Some (s\<lparr>toStart := toStart s + threadNumber s, starts := starts s + 1\<rparr>)"
| "pool_event StartThread s =
     (if 0 < toStart s then Some (s\<lparr>toStart := toStart s - 1, threadCount := threadCount s + 1\<rparr>) else None)"
| "pool_event StartFails s = (if 0 < toStart s then Some (s\<lparr>toStart := 0, m_quit := True\<rparr>) else None)"
| "pool_event (AddCount t) s =
     Some (s\<lparr>taskCount := taskCount s + 1, adding := adding s @ [t], submitted := submitted s + {#t#}\<rparr>)"
| "pool_event (AddPush t) s =
     (if t \<in> set (adding s)
      then Some (s\<lparr>adding := remove1 t (adding s), workQueue := tsq_push t (workQueue s)\<rparr>) else None)"
| "pool_event WorkerLoop s =
     (if \<not> m_quit s \<and> busy s < threadCount s then Some (s\<lparr>looping := looping s + 1\<rparr>) else None)"
| "pool_event WorkerPop s =
     (if 0 < looping s
      then (case tsq_tryPop (workQueue s) of
              None \<Rightarrow> Some (s\<lparr>looping := looping s - 1\<rparr>)
            | Some (t, q) \<Rightarrow> Some (s\<lparr>looping := looping s - 1, workQueue := q, popped := popped s + {#t#}\<rparr>))
      else None)"
| "pool_event (CountActive t) s =
     (if t \<in># popped s
      then Some (s\<lparr>m_activeThreads := m_activeThreads s + 1, popped := popped s - {#t#},
                   counted := counted s + {#t#}\<rparr>) else None)"
| "pool_event (UncountTask t) s =
     (if t \<in># counted s
      then Some (s\<lparr>taskCount := taskCount s - 1, counted := counted s - {#t#}, running := running s + {#t#}\<rparr>)
      else None)"
| "pool_event (TaskDone t) s =
     (if t \<in># running s
      then Some (s\<lparr>m_activeThreads := m_activeThreads s - 1, running := running s - {#t#},
                   finished := finished s + {#t#}\<rparr>) else None)"
| "pool_event Quit s = Some (s\<lparr>m_quit := True\<rparr>)"

definition pool_step :: "'t ThreadPool \<Rightarrow> 't ThreadPool \<Rightarrow> bool" where
  "pool_step s s' = (\<exists>e. pool_event e s = Some s')"

inductive pool_reachable :: "nat \<Rightarrow> nat \<Rightarrow> 't ThreadPool \<Rightarrow> bool" for hc n where
  start: "pool_reachable hc n (newThreadPool hc n)"
| step: "pool_reachable hc n s \<Longrightarrow> pool_step s s' \<Longrightarrow> pool_reachable hc n s'"

lemmas pool_event_cases = if_splits option.splits prod.splits

lemma tryPop_eq_Some [simp]: "tsq_tryPop q = Some (t, q') \<longleftrightarrow> q = t # q'"
  by (cases q) (auto simp: tsq_tryPop_def)

lemma tryPop_eq_None [simp]: "tsq_tryPop q = None \<longleftrightarrow> q = []"
  by (simp add: tsq_tryPop_def)

text \<open>\<^verbatim>\<open>waitForDone(0)\<close> reads \<^verbatim>\<open>taskCount\<close> and, when that is 0, a moment
  later \<^verbatim>\<open>m_activeThreads\<close>: it returns when it has read 0 in a state \<open>s\<close> and 0 in
  a later state \<open>s'\<close>.\<close>

definition wait_returns :: "'t ThreadPool \<Rightarrow> 't ThreadPool \<Rightarrow> bool" where
  "wait_returns s s' \<longleftrightarrow> taskCount s = 0 \<and> pool_step\<^sup>*\<^sup>* s s' \<and> m_activeThreads s' = 0"

definition pool_inv :: "'t ThreadPool \<Rightarrow> bool" where
  "pool_inv s \<longleftrightarrow>
     taskCount s = length (adding s) + length (workQueue s) + size (popped s) + size (counted s)
   \<and> m_activeThreads s = size (counted s) + size (running s)
   \<and> submitted s = mset (adding s) + mset (workQueue s) + popped s + counted s + running s + finished s
   \<and> busy s \<le> threadCount s \<and> threadCount s + toStart s \<le> starts s * threadNumber s"

lemma pool_event_inv: "pool_event e s = Some s' \<Longrightarrow> pool_inv s \<Longrightarrow> pool_inv s'"
  by (cases e) (auto simp: pool_inv_def busy_def tsq_push_def size_Diff_singleton length_remove1
      mset_remove1 dest!: multi_member_split split_list split: pool_event_cases)

lemma pool_step_inv: "pool_step s s' \<Longrightarrow> pool_inv s \<Longrightarrow> pool_inv s'"
  by (auto simp: pool_step_def intro: pool_event_inv)

lemma pool_reachable_inv: "pool_reachable hc n s \<Longrightarrow> pool_inv s"
proof (induction rule: pool_reachable.induct)
  case start
  show ?case by (simp add: pool_inv_def newThreadPool_def busy_def)
next
  case (step s s')
  then show ?case by (blast intro: pool_step_inv)
qed

text \<open>A task that a worker has started never gets lost.\<close>

lemma started_kept: "pool_step s s' \<Longrightarrow> X \<subseteq># running s + finished s \<Longrightarrow> X \<subseteq># running s' + finished s'"
  unfolding pool_step_def
proof (elim exE)
  fix e assume "pool_event e s = Some s'" "X \<subseteq># running s + finished s"
  then show ?thesis
    by (cases e) (auto intro: subset_mset.order_trans dest!: multi_member_split split: pool_event_cases)
qed

lemma started_kept_run: "pool_step\<^sup>*\<^sup>* s s' \<Longrightarrow> X \<subseteq># running s + finished s \<Longrightarrow> X \<subseteq># running s' + finished s'"
  by (induction rule: rtranclp_induct) (auto intro: started_kept)

lemma pool_run_reachable: "pool_step\<^sup>*\<^sup>* s s' \<Longrightarrow> pool_reachable hc n s \<Longrightarrow> pool_reachable hc n s'"
  by (induction rule: rtranclp_induct) (auto intro: pool_reachable.step)

text \<open>When \<^verbatim>\<open>waitForDone(0)\<close> returns, every task submitted before its last look at
  the task counter has finished.\<close>

lemma wait_complete:
  assumes "pool_reachable hc n s" "wait_returns s s'"
  shows "submitted s \<subseteq># finished s'"
proof -
  have s: "taskCount s = 0" "pool_step\<^sup>*\<^sup>* s s'" "m_activeThreads s' = 0"
    using assms(2) by (auto simp: wait_returns_def)
  have "submitted s = running s + finished s"
    using pool_reachable_inv [OF assms(1)] s(1) by (simp add: pool_inv_def)
  then have "submitted s \<subseteq># running s' + finished s'" using started_kept_run [OF s(2)] by simp
  moreover have "running s' = {#}"
    using pool_reachable_inv [OF pool_run_reachable [OF s(2) assms(1)]] s(3) by (simp add: pool_inv_def)
  ultimately show ?thesis by simp
qed

text \<open>No task is lost or run twice, never more tasks are active than there are threads, the
  threads are as many as asked for when the pool is started once, and the queue length and
  the counter differ only by the tasks being handed over.\<close>

lemma pool_accounts_for_tasks:
  assumes "pool_reachable hc n s"
  shows "submitted s = mset (adding s) + mset (workQueue s) + popped s + counted s + running s + finished s
     \<and> m_activeThreads s \<le> threadCount s \<and> threadCount s \<le> starts s * threadNumber s
     \<and> length (workQueue s) \<le> taskCount s"
  using pool_reachable_inv [OF assms] by (auto simp: pool_inv_def busy_def)

lemma pool_accounts_for_tasks_witness: "m_activeThreads (newThreadPool 8 2 :: nat ThreadPool) \<le> 0"
  using pool_accounts_for_tasks [OF pool_reachable.start, where 'a = nat and hc = 8 and n = 2]
  by (simp add: newThreadPool_def)

text \<open>Nothing runs before \<^verbatim>\<open>start\<close>.\<close>

lemma nothing_runs_before_start:
  assumes "pool_reachable hc n s" "starts s = 0"
  shows "running s = {#} \<and> finished s = {#}"
proof -
  have fin: "pool_reachable hc n s \<Longrightarrow> starts s = 0 \<longrightarrow> finished s = {#} \<and> toStart s = 0" for s
  proof (induction rule: pool_reachable.induct)
    case (step s s')
    have "pool_inv s" using step.hyps(1) by (rule pool_reachable_inv)
    moreover obtain e where "pool_event e s = Some s'" using step.hyps(2) by (auto simp: pool_step_def)
    ultimately show ?case using step.IH
      by (cases e) (auto simp: pool_inv_def busy_def split: pool_event_cases)
  qed (simp add: newThreadPool_def)
  show ?thesis
    using fin [OF assms(1)] pool_reachable_inv [OF assms(1)] assms(2) by (auto simp: pool_inv_def busy_def)
qed

text \<open>After the pool is told to quit, as its destructor does, each worker takes at most one
  more task, the one it has set out to take; every other task stays in the queue.\<close>

lemma quit_keeps_queued:
  assumes "pool_step\<^sup>*\<^sup>* s s'" "m_quit s"
  shows "m_quit s' \<and> (\<exists>xs ys zs. workQueue s = xs @ ys \<and> workQueue s' = ys @ zs
     \<and> length xs + looping s' \<le> looping s)"
  using assms
proof (induction rule: rtranclp_induct)
  case base
  then show ?case by force
next
  case (step s1 s2)
  obtain xs ys zs where q: "m_quit s1" "workQueue s = xs @ ys" "workQueue s1 = ys @ zs"
      "length xs + looping s1 \<le> looping s"
    using step.IH [OF step.prems] by auto
  obtain e where e: "pool_event e s1 = Some s2" using step.hyps(2) by (auto simp: pool_step_def)
  show ?case
  proof (cases "e = WorkerPop \<and> workQueue s1 \<noteq> []")
    case True
    then obtain t q' where w: "workQueue s1 = t # q'" by (cases "workQueue s1") auto
    have s2: "m_quit s2" "workQueue s2 = q'" "looping s2 = looping s1 - 1" "0 < looping s1"
      using e True w q(1) by (auto split: pool_event_cases)
    show ?thesis
    proof (cases ys)
      case Nil
      with q w s2 show ?thesis by (intro conjI exI [of _ xs] exI [of _ "[]"] exI [of _ q']) auto
    next
      case (Cons y ys')
      with q w s2 show ?thesis by (intro conjI exI [of _ "xs @ [t]"] exI [of _ ys'] exI [of _ zs]) auto
    qed
  next
    case False
    then have "m_quit s2 \<and> looping s2 \<le> looping s1 \<and> (\<exists>ws. workQueue s2 = workQueue s1 @ ws)"
      using e q(1) by (cases e) (auto simp: tsq_push_def split: pool_event_cases)
    then obtain ws where "m_quit s2" "looping s2 \<le> looping s1" "workQueue s2 = ys @ zs @ ws"
      using q(3) by auto
    with q show ?thesis by (intro conjI exI [of _ xs] exI [of _ ys] exI [of _ "zs @ ws"]) auto
  qed
qed

text \<open>Several events in a row.\<close>

fun pool_run :: "'t worker_event list \<Rightarrow> 't ThreadPool \<Rightarrow> 't ThreadPool option" where
  "pool_run [] s = Some s"
| "pool_run (e # es) s = (case pool_event e s of None \<Rightarrow> None | Some s' \<Rightarrow> pool_run es s')"

lemma pool_run_reaches:
  "pool_reachable hc n s \<Longrightarrow> pool_run es s = Some s' \<Longrightarrow> pool_reachable hc n s'"
proof (induction es arbitrary: s)
  case (Cons e es)
  then obtain s1 where "pool_event e s = Some s1" "pool_run es s1 = Some s'" by (auto split: option.splits)
  with Cons show ?case by (metis pool_reachable.step pool_step_def)
qed simp

text \<open>A second call of \<^verbatim>\<open>start\<close> makes the threads once more, and
  \<^verbatim>\<open>maxThreadCount\<close> does not count them.\<close>

lemma started_twice:
  "\<exists>s :: 'a ThreadPool. pool_reachable hc 1 s \<and> threadNumber s = 1 \<and> threadCount s = 2"
proof -
  let ?s = "the (pool_run [StartCall, StartThread, StartCall, StartThread] (newThreadPool hc 1)) :: 'a ThreadPool"
  have "pool_reachable hc 1 ?s"
    by (rule pool_run_reaches [OF pool_reachable.start, where es = "[StartCall, StartThread, StartCall, StartThread]"])
       (simp add: newThreadPool_def)
  moreover have "threadNumber ?s = 1 \<and> threadCount ?s = 2" by (simp add: newThreadPool_def)
  ultimately show ?thesis by blast
qed

end
