(* ===== verification/PooledTask.thy ===== *)
theory PooledTask
  imports ThreadPool "HOL-Library.Sublist"
begin

text \<open>
  The tasks of the thread pool: the type-erased callable of
  \<^verbatim>\<open>include/support/PooledTask.hpp\<close> that the queue holds, and the futures that
  \<^verbatim>\<open>run\<close> of \<^verbatim>\<open>include/support/ThreadPool.hpp\<close> returns, over the events of
  the pool. What the user's function of a task does is the parameter \<open>outcome\<close>: it
  throws (\<^term>\<open>Inl\<close>) or returns (\<^term>\<open>Inr\<close>).
\<close>

subsection \<open>\<^verbatim>\<open>RunnableWrapper\<close>\<close>

text \<open>The only member is the pointer \<^verbatim>\<open>m_runnable\<close>, \<^term>\<open>None\<close> when null.
  Moving gives the new wrapper and what is left of the old one; a call through a null
  pointer is undefined.\<close>

type_synonym 'r RunnableWrapper = "'r option"

definition newWrapper :: "'r \<Rightarrow> 'r RunnableWrapper" where
  "newWrapper r = Some r"

definition nullWrapper :: "'r RunnableWrapper" where
  "nullWrapper = None"

definition moveWrapper :: "'r RunnableWrapper \<Rightarrow> 'r RunnableWrapper \<times> 'r RunnableWrapper" where
  "moveWrapper w = (w, None)"

definition assignWrapper :: "'r RunnableWrapper \<Rightarrow> 'r RunnableWrapper \<Rightarrow> 'r RunnableWrapper \<times> 'r RunnableWrapper" where
  "assignWrapper target source = (source, None)"

definition callWrapper :: "'r RunnableWrapper \<Rightarrow> 'r option" where
  "callWrapper w = w"

text \<open>\<^verbatim>\<open>addTask\<close> moves the wrapper into the queue; \<^verbatim>\<open>runTask\<close> pops into a
  default-constructed one and calls it when something was popped. The result is the
  callable that was called, if any, and the queue.\<close>

definition addTask :: "'r \<Rightarrow> 'r RunnableWrapper list \<Rightarrow> 'r RunnableWrapper list" where
  "addTask r q = tsq_push (fst (moveWrapper (newWrapper r))) q"

definition runTask :: "'r RunnableWrapper list \<Rightarrow> ('r option \<times> 'r RunnableWrapper list) option" where
  "runTask q = (case tsq_tryPop q of
     None \<Rightarrow> Some (None, q)
   | Some (front, q') \<Rightarrow>
       (case callWrapper (fst (assignWrapper nullWrapper front)) of
          None \<Rightarrow> None
        | Some r \<Rightarrow> Some (Some r, q')))"

text \<open>The pool's use of the wrapper never follows the null pointer, and as a queue of
  callables it is the abstract one.\<close>

lemma runTask_refines: "runTask (map newWrapper rs) = Some (map_prod id (map newWrapper)
     (case tsq_tryPop rs of None \<Rightarrow> (None, rs) | Some (r, rs') \<Rightarrow> (Some r, rs')))"
  by (cases rs) (auto simp: runTask_def tsq_tryPop_def assignWrapper_def callWrapper_def newWrapper_def)

lemma addTask_refines: "addTask r (map newWrapper rs) = map newWrapper (tsq_push r rs)"
  by (simp add: addTask_def moveWrapper_def tsq_push_def)

text \<open>A wrapper that was moved from must not be called.\<close>

lemma moved_wrapper_undefined: "callWrapper (snd (moveWrapper w)) = None"
  by (simp add: moveWrapper_def callWrapper_def)

subsection \<open>Futures\<close>

text \<open>
  The shared state of a future: not decided, a result (or the exception that the function
  threw), or the broken promise of a packaged task that was destroyed before it was
  called.
\<close>

datatype ('e, 'v) future = Pending | Ready "'e + 'v" | Broken

text \<open>
  \<open>called\<close> are the running tasks whose function has returned or thrown.
  \<open>pushOrder\<close>, \<open>popOrder\<close> and \<open>callOrder\<close> are histories.
  \<open>terminated\<close> is set when an exception leaves a worker, which ends the program: a
  packaged task throws only when it is called a second time. \<open>destroyed\<close> is set when
  the destructor has returned.
\<close>

record ('t, 'e, 'v) TaskPool =
  pool :: "'t ThreadPool"
  futures :: "'t \<rightharpoonup> ('e, 'v) future"
  called :: "'t multiset"
  pushOrder :: "'t list"
  popOrder :: "'t list"
  callOrder :: "'t list"
  terminated :: bool
  destroyed :: bool

definition newTaskPool :: "nat \<Rightarrow> nat \<Rightarrow> ('t, 'e, 'v) TaskPool" where
  "newTaskPool hc n =
     \<lparr>pool = newThreadPool hc n, futures = Map.empty, called = {#}, pushOrder = [], popOrder = [],
      callOrder = [], terminated = False, destroyed = False\<rparr>"

datatype 't task_action = Pool "'t worker_event" | Call 't | Destroy

text \<open>A task is named by the shared state of its future, which \<^verbatim>\<open>run\<close> makes anew;
  it counts as called before the worker's counter goes down. The destructor returns when
  all workers have left their loops, and the queue goes with the pool.\<close>

fun task_event :: "('t \<Rightarrow> 'e + 'v) \<Rightarrow> 't task_action \<Rightarrow> ('t, 'e, 'v) TaskPool \<Rightarrow> ('t, 'e, 'v) TaskPool option" where
  "task_event outcome (Call t) s =
     (if \<not> destroyed s \<and> t \<in># running (pool s) - called s
      then Some (if futures s t = Some Pending
                 then s\<lparr>futures := (futures s)(t \<mapsto> Ready (outcome t)), called := called s + {#t#},
                        callOrder := callOrder s @ [t]\<rparr>
                 else s\<lparr>terminated := True\<rparr>)
      else None)"
| "task_event outcome Destroy s =
     (if \<not> destroyed s \<and> m_quit (pool s) \<and> busy (pool s) = 0 \<and> toStart (pool s) = 0 \<and> adding (pool s) = []
      then Some (s\<lparr>destroyed := True,
                   futures := (\<lambda>t. if t \<in> set (workQueue (pool s)) then Some Broken else futures s t)\<rparr>)
      else None)"
| "task_event outcome (Pool e) s =
     (if destroyed s then None
      else case pool_event e (pool s) of
        None \<Rightarrow> None
      | Some p \<Rightarrow>
          (case e of
             AddCount t \<Rightarrow> (if futures s t = None then Some (s\<lparr>pool := p, futures := (futures s)(t \<mapsto> Pending)\<rparr>) else None)
           | AddPush t \<Rightarrow> Some (s\<lparr>pool := p, pushOrder := pushOrder s @ [t]\<rparr>)
           | WorkerPop \<Rightarrow> Some (s\<lparr>pool := p, popOrder := popOrder s @ take 1 (workQueue (pool s))\<rparr>)
           | TaskDone t \<Rightarrow> (if t \<in># called s then Some (s\<lparr>pool := p, called := called s - {#t#}\<rparr>) else None)
           | _ \<Rightarrow> Some (s\<lparr>pool := p\<rparr>)))"

inductive task_reachable :: "('t \<Rightarrow> 'e + 'v) \<Rightarrow> nat \<Rightarrow> nat \<Rightarrow> ('t, 'e, 'v) TaskPool \<Rightarrow> bool"
  for outcome hc n where
  start: "task_reachable outcome hc n (newTaskPool hc n)"
| step: "task_reachable outcome hc n s \<Longrightarrow> task_event outcome e s = Some s' \<Longrightarrow> task_reachable outcome hc n s'"

text \<open>A call of \<^verbatim>\<open>ThreadPool::run\<close> by a thread that nobody interrupts.\<close>

definition submit :: "'t \<Rightarrow> 't task_action list" where
  "submit t = [Pool (AddCount t), Pool (AddPush t)]"

subsection \<open>The invariants\<close>

definition future_of :: "('t \<Rightarrow> 'e + 'v) \<Rightarrow> ('t, 'e, 'v) TaskPool \<Rightarrow> 't \<Rightarrow> ('e, 'v) future option" where
  "future_of outcome s t =
     (if t \<notin># submitted (pool s) then None
      else if t \<in># called s + finished (pool s) then Some (Ready (outcome t))
      else if destroyed s then Some Broken else Some Pending)"

definition future_inv :: "('t \<Rightarrow> 'e + 'v) \<Rightarrow> ('t, 'e, 'v) TaskPool \<Rightarrow> bool" where
  "future_inv outcome s \<longleftrightarrow> pool_inv (pool s) \<and> (\<forall>t. count (submitted (pool s)) t \<le> 1)
     \<and> called s \<subseteq># running (pool s) \<and> \<not> terminated s
     \<and> (\<forall>t. futures s t = future_of outcome s t)
     \<and> (destroyed s \<longrightarrow> busy (pool s) = 0 \<and> adding (pool s) = [])"

lemma future_inv_new: "future_inv outcome (newTaskPool hc n)"
  by (simp add: future_inv_def newTaskPool_def future_of_def newThreadPool_def pool_inv_def busy_def)

text \<open>Every task is in one place only.\<close>

lemma future_inv_counts:
  assumes "future_inv outcome s"
  shows "count (mset (adding (pool s))) t + count (mset (workQueue (pool s))) t + count (popped (pool s)) t
     + count (counted (pool s)) t + count (running (pool s)) t + count (finished (pool s)) t
       = count (submitted (pool s)) t"
    and "count (submitted (pool s)) t \<le> 1" and "count (called s) t \<le> count (running (pool s)) t"
  using assms by (auto simp: future_inv_def pool_inv_def mset_subset_eq_count)

lemma future_inv_call:
  assumes "future_inv outcome s" "task_event outcome (Call t) s = Some s'"
  shows "future_inv outcome s' \<and> futures s t = Some Pending"
proof -
  have t: "\<not> destroyed s" "count (called s) t < count (running (pool s)) t"
    using assms(2) by (auto simp: in_diff_count split: if_splits)
  note c = future_inv_counts [OF assms(1), of t]
  have n: "t \<notin># called s + finished (pool s)" "t \<in># submitted (pool s)"
    using c t(2) by (auto simp flip: count_greater_zero_iff)
  then have "futures s t = Some Pending"
    using assms(1) t(1) by (simp add: future_inv_def future_of_def)
  moreover from this have "s' = s\<lparr>futures := (futures s)(t \<mapsto> Ready (outcome t)), called := called s + {#t#},
      callOrder := callOrder s @ [t]\<rparr>"
    using assms(2) by (auto split: if_splits)
  moreover have "called s + {#t#} \<subseteq># running (pool s)"
    using c(3) t(2) assms(1) by (auto simp: future_inv_def subseteq_mset_def Suc_le_eq)
  ultimately show ?thesis using assms(1) t(1) n by (auto simp: future_inv_def future_of_def)
qed

lemma future_inv_destroy:
  assumes "future_inv outcome s" "task_event outcome Destroy s = Some s'"
  shows "future_inv outcome s'"
proof -
  have d: "\<not> destroyed s" "busy (pool s) = 0" "adding (pool s) = []"
    and s': "s' = s\<lparr>destroyed := True,
      futures := (\<lambda>t. if t \<in> set (workQueue (pool s)) then Some Broken else futures s t)\<rparr>"
    using assms(2) by (auto split: if_splits)
  have e: "popped (pool s) = {#}" "counted (pool s) = {#}" "running (pool s) = {#}" "called s = {#}"
    using d(2) assms(1) by (auto simp: busy_def future_inv_def)
  have "t \<in> set (workQueue (pool s)) \<longleftrightarrow> t \<in># submitted (pool s) \<and> t \<notin># finished (pool s)" for t
    using future_inv_counts(1,2) [OF assms(1), of t] e d(3)
    by (auto simp flip: count_greater_zero_iff set_mset_mset)
  then show ?thesis using assms(1) e d s' by (auto simp: future_inv_def future_of_def)
qed

lemma future_inv_keep:
  assumes "future_inv outcome s" "pool_inv (pool s')" "\<not> destroyed s"
    and "futures s' = futures s" "terminated s' = terminated s" "destroyed s' = destroyed s"
    and "submitted (pool s') = submitted (pool s)" "called s' \<subseteq># running (pool s')"
    and "called s' + finished (pool s') = called s + finished (pool s)"
  shows "future_inv outcome s'"
proof -
  have "future_of outcome s' = future_of outcome s" by (intro ext) (simp only: future_of_def assms)
  with assms show ?thesis by (simp only: future_inv_def) simp
qed

lemma pool_part: "task_event outcome (Pool e) s = Some s' \<Longrightarrow> \<not> destroyed s \<and> pool_event e (pool s) = Some (pool s')"
  by (cases e) (auto simp del: pool_event.simps split: if_splits option.splits)

lemma pool_event_frame:
  assumes "pool_event e s = Some s'" "\<And>t. e \<noteq> AddCount t" "\<And>t. e \<noteq> TaskDone t"
  shows "submitted s' = submitted s \<and> finished s' = finished s \<and> running s \<subseteq># running s'"
  using assms by (cases e) (auto split: if_splits option.splits prod.splits)

lemma task_event_frame:
  assumes "task_event outcome (Pool e) s = Some s'" "\<And>t. e \<noteq> AddCount t" "\<And>t. e \<noteq> TaskDone t"
  shows "futures s' = futures s \<and> terminated s' = terminated s \<and> destroyed s' = destroyed s
    \<and> called s' = called s \<and> callOrder s' = callOrder s"
  using assms by (cases e) (auto simp del: pool_event.simps split: if_splits option.splits)

lemma future_inv_pool:
  assumes "future_inv outcome s" "task_event outcome (Pool e) s = Some s'"
  shows "future_inv outcome s'"
proof -
  obtain p where p: "pool_event e (pool s) = Some p" "\<not> destroyed s"
    using assms(2) by (auto split: if_splits option.splits)
  have i: "pool_inv p" using pool_event_inv [OF p(1)] assms(1) by (simp add: future_inv_def)
  have q: "pool s' = p" using pool_part [OF assms(2)] p(1) by simp
  consider (AddCount) t where "e = AddCount t" | (TaskDone) t where "e = TaskDone t"
    | (other) "\<And>t. e \<noteq> AddCount t" "\<And>t. e \<noteq> TaskDone t" by (cases e) auto
  then show ?thesis
  proof cases
    case (AddCount t)
    then have f: "futures s t = None" "s' = s\<lparr>pool := p, futures := (futures s)(t \<mapsto> Pending)\<rparr>"
      using assms(2) p by (auto split: if_splits)
    then have t: "t \<notin># submitted (pool s)"
      using assms(1) by (auto simp: future_inv_def future_of_def split: if_splits)
    then have n: "t \<notin># called s + finished (pool s)"
      using future_inv_counts [OF assms(1), of t] by (auto simp flip: count_greater_zero_iff)
    have q: "p = (pool s)\<lparr>taskCount := taskCount (pool s) + 1, adding := adding (pool s) @ [t],
        submitted := submitted (pool s) + {#t#}\<rparr>" using p(1) AddCount by simp
    have "future_of outcome s' = (future_of outcome s)(t \<mapsto> Pending)"
      unfolding f(2) q by (rule ext) (use n p(2) in \<open>auto simp: future_of_def\<close>)
    moreover have "future_of outcome s = futures s" using assms(1) by (auto simp: future_inv_def)
    moreover have "count (submitted p) x \<le> 1" for x
      using assms(1) t by (auto simp: q future_inv_def not_in_iff)
    ultimately show ?thesis using assms(1) i f(2) p(2) by (simp add: future_inv_def q)
  next
    case (TaskDone t)
    then have t: "t \<in># called s" "t \<in># running (pool s)" "s' = s\<lparr>pool := p, called := called s - {#t#}\<rparr>"
      and q: "running p = running (pool s) - {#t#}" "finished p = finished (pool s) + {#t#}"
        "submitted p = submitted (pool s)"
      using assms(2) p by (auto split: if_splits)
    have "called s' \<subseteq># running p"
      using assms(1) t q by (auto simp: future_inv_def subseteq_mset_def diff_le_mono)
    then show ?thesis using t q i p(2) by (intro future_inv_keep [OF assms(1)]) simp_all
  next
    case other
    then show ?thesis
      using assms(1) i p(2) q pool_event_frame [OF p(1)] task_event_frame [OF assms(2)]
      by (intro future_inv_keep [OF assms(1)]) (auto simp: future_inv_def intro: subset_mset.order_trans)
  qed
qed

lemma task_event_future_inv:
  "task_event outcome e s = Some s' \<Longrightarrow> future_inv outcome s \<Longrightarrow> future_inv outcome s'"
  by (cases e) (auto dest: future_inv_call future_inv_destroy future_inv_pool simp del: task_event.simps)

lemma task_reachable_future_inv: "task_reachable outcome hc n s \<Longrightarrow> future_inv outcome s"
  by (induction rule: task_reachable.induct) (auto intro: future_inv_new task_event_future_inv)

text \<open>Every event of the pool with its futures is one of the pool or none.\<close>

lemma other_part: "task_event outcome e s = Some s' \<Longrightarrow> (\<And>e'. e \<noteq> Pool e') \<Longrightarrow> pool s' = pool s"
  by (cases e) (auto split: if_splits)

lemma task_reachable_pool: "task_reachable outcome hc n s \<Longrightarrow> pool_reachable hc n (pool s)"
proof (induction rule: task_reachable.induct)
  case (step s e s')
  then show ?case
    by (cases "\<exists>e'. e = Pool e'")
       (metis pool_part pool_reachable.step pool_step_def, metis other_part)
qed (simp add: newTaskPool_def pool_reachable.start)

text \<open>The queue hands the tasks out in the order in which they were pushed.\<close>

definition order_inv :: "('t, 'e, 'v) TaskPool \<Rightarrow> bool" where
  "order_inv s \<longleftrightarrow> pushOrder s = popOrder s @ workQueue (pool s)
     \<and> mset (popOrder s) = mset (callOrder s) + popped (pool s) + counted (pool s) + (running (pool s) - called s)
     \<and> mset (callOrder s) = called s + finished (pool s)
     \<and> (threadCount (pool s) \<le> 1 \<longrightarrow> prefix (callOrder s) (popOrder s))"

lemma order_inv_new: "order_inv (newTaskPool hc n)"
  by (simp add: order_inv_def newTaskPool_def newThreadPool_def)

text \<open>With one thread there is at most one task between the queue and its call.\<close>

lemma one_waiting:
  assumes "order_inv s" "future_inv outcome s" "threadCount (pool s) \<le> 1"
    and "t \<in># popped (pool s) + counted (pool s) + (running (pool s) - called s)"
  shows "popOrder s = callOrder s @ [t]"
proof -
  obtain xs where xs: "popOrder s = callOrder s @ xs" using assms(1,3) by (auto simp: order_inv_def elim: prefixE)
  then have m: "mset xs = popped (pool s) + counted (pool s) + (running (pool s) - called s)"
    using assms(1) by (simp add: order_inv_def)
  have "busy (pool s) \<le> 1" using assms(2,3) by (auto simp: future_inv_def pool_inv_def)
  then have "size (mset xs) \<le> 1" 
    using size_mset_mono [OF diff_subset_eq_self [of "running (pool s)" "called s"]] by (simp add: m busy_def)
  then have "length xs \<le> 1" by simp
  moreover have "t \<in> set xs" using assms(4) m by (metis set_mset_mset)
  ultimately have "xs = [t]" by (cases xs) auto
  with xs show ?thesis by simp
qed

lemma order_inv_call:
  assumes "order_inv s" "future_inv outcome s" "task_event outcome (Call t) s = Some s'"
  shows "order_inv s'"
proof -
  have t: "t \<in># running (pool s) - called s" using assms(3) by (auto split: if_splits)
  have s': "s' = s\<lparr>futures := (futures s)(t \<mapsto> Ready (outcome t)), called := called s + {#t#},
      callOrder := callOrder s @ [t]\<rparr>"
    using future_inv_call [OF assms(2,3)] assms(3) by (auto split: if_splits)
  have "running (pool s) - called s = (running (pool s) - (called s + {#t#})) + {#t#}"
    using t insert_DiffM [of t "running (pool s) - called s"] by (simp add: diff_diff_add_mset)
  moreover have "threadCount (pool s) \<le> 1 \<Longrightarrow> popOrder s = callOrder s @ [t]"
    using t by (intro one_waiting [OF assms(1,2)]) simp_all
  ultimately show ?thesis using assms(1) by (auto simp: s' order_inv_def)
qed

lemma order_inv_pool:
  assumes "order_inv s" "future_inv outcome s" "task_event outcome (Pool e) s = Some s'"
  shows "order_inv s'"
proof -
  have c: "called s \<subseteq># running (pool s)" using assms(2) by (simp add: future_inv_def)
  show ?thesis
  proof (cases e)
    case (UncountTask t)
    have "running (pool s) + {#t#} - called s = running (pool s) - called s + {#t#}"
      using c by (intro multiset_eqI) (auto simp: subseteq_mset_def Suc_diff_le)
    with assms(1,3) UncountTask show ?thesis
      by (auto simp: order_inv_def dest!: multi_member_split split: if_splits)
  next
    case (TaskDone t)
    then show ?thesis using assms(1,3)
      by (auto simp: order_inv_def dest!: multi_member_split split: if_splits)
  qed (use assms(1,3) in \<open>auto simp: order_inv_def tsq_push_def intro: prefix_prefix
         dest!: multi_member_split split: if_splits option.splits prod.splits\<close>)
qed

lemma task_event_order_inv:
  assumes "order_inv s" "future_inv outcome s" "task_event outcome e s = Some s'"
  shows "order_inv s'"
proof (cases e)
  case (Pool e')
  with assms show ?thesis by (metis order_inv_pool)
next
  case (Call t)
  with assms show ?thesis by (metis order_inv_call)
next
  case Destroy
  with assms show ?thesis by (auto simp: order_inv_def split: if_splits)
qed

lemma task_reachable_order_inv: "task_reachable outcome hc n s \<Longrightarrow> order_inv s"
proof (induction rule: task_reachable.induct)
  case (step s e s')
  then show ?case by (metis task_event_order_inv task_reachable_future_inv)
qed (rule order_inv_new)

subsection \<open>What the pool promises\<close>

text \<open>A run of events.\<close>

fun task_run :: "('t \<Rightarrow> 'e + 'v) \<Rightarrow> 't task_action list \<Rightarrow> ('t, 'e, 'v) TaskPool \<Rightarrow> ('t, 'e, 'v) TaskPool option" where
  "task_run outcome [] s = Some s"
| "task_run outcome (e # es) s =
     (case task_event outcome e s of None \<Rightarrow> None | Some s' \<Rightarrow> task_run outcome es s')"

lemma task_run_append:
  "task_run outcome (xs @ ys) s = (case task_run outcome xs s of None \<Rightarrow> None | Some s' \<Rightarrow> task_run outcome ys s')"
  by (induction xs arbitrary: s) (auto simp del: task_event.simps split: option.splits)

lemma task_run_reaches:
  "task_reachable outcome hc n s \<Longrightarrow> task_run outcome es s = Some s' \<Longrightarrow> task_reachable outcome hc n s'"
proof (induction es arbitrary: s)
  case (Cons e es)
  then obtain s1 where "task_event outcome e s = Some s1" "task_run outcome es s1 = Some s'"
    by (auto simp del: task_event.simps split: option.splits)
  with Cons show ?case by (metis task_reachable.step)
qed simp

lemma task_run_pool: "task_run outcome es s = Some s' \<Longrightarrow> pool_step\<^sup>*\<^sup>* (pool s) (pool s')"
proof (induction es arbitrary: s)
  case (Cons e es)
  then obtain s1 where s1: "task_event outcome e s = Some s1" "task_run outcome es s1 = Some s'"
    by (auto simp del: task_event.simps split: option.splits)
  have "pool s1 = pool s \<or> pool_step (pool s) (pool s1)"
    using s1(1) by (metis other_part pool_part pool_step_def)
  with Cons.IH [OF s1(2)] show ?case by (auto intro: converse_rtranclp_into_rtranclp)
qed simp

text \<open>C14. In every interleaving with submitting threads and workers, when
  \<^verbatim>\<open>waitForDone(0)\<close> returns, every task submitted before its last look at the task
  counter has finished and its future holds what its function returned or threw, although
  the two counters are read one after the other and each worker changes them one after the
  other.\<close>

theorem wait_for_done_complete:
  assumes "task_reachable outcome hc n s" "task_run outcome es s = Some s'"
    and "wait_returns (pool s) (pool s')"
  shows "submitted (pool s) \<subseteq># finished (pool s')
     \<and> (\<forall>t \<in># submitted (pool s). futures s' t = Some (Ready (outcome t)))"
proof -
  have f: "submitted (pool s) \<subseteq># finished (pool s')"
    using wait_complete [OF task_reachable_pool [OF assms(1)] assms(3)] .
  have i: "future_inv outcome s'"
    using task_reachable_future_inv [OF task_run_reaches [OF assms(1,2)]] .
  have "futures s' t = Some (Ready (outcome t))" if "t \<in># finished (pool s')" for t
    using i future_inv_counts(1) [OF i, of t] that
    by (auto simp: future_inv_def future_of_def simp flip: count_greater_zero_iff)
  with f show ?thesis by (auto dest: mset_subset_eqD)
qed

text \<open>A run in which one task is handed over, taken and called.\<close>

definition one_task_run :: "'t \<Rightarrow> 't task_action list" where
  "one_task_run t = [Pool (AddCount t), Pool (AddPush t), Pool StartCall, Pool StartThread, Pool WorkerLoop,
     Pool WorkerPop, Pool (CountActive t), Pool (UncountTask t), Call t, Pool (TaskDone t)]"

lemma wait_for_done_complete_witness:
  "futures (the (task_run (\<lambda>t. Inr (t + 1)) (one_task_run 5) (newTaskPool 8 1))) 5
     = Some (Ready (Inr 6 :: unit + nat))"
proof -
  let ?o = "\<lambda>t. Inr (t + 1) :: unit + nat"
  let ?n = "newTaskPool 8 1 :: (nat, unit, nat) TaskPool"
  let ?s = "the (task_run ?o (take 8 (one_task_run 5)) ?n)"
  let ?s' = "the (task_run ?o (one_task_run 5) ?n)"
  have s: "task_run ?o (take 8 (one_task_run 5)) ?n = Some ?s"
    by (simp add: one_task_run_def newTaskPool_def newThreadPool_def busy_def tsq_push_def tsq_tryPop_def)
  have s': "task_run ?o (drop 8 (one_task_run 5)) ?s = Some ?s'"
    by (simp add: one_task_run_def newTaskPool_def newThreadPool_def busy_def tsq_push_def tsq_tryPop_def)
  have "taskCount (pool ?s) = 0 \<and> submitted (pool ?s) = {#5#} \<and> m_activeThreads (pool ?s') = 0"
    by (simp add: one_task_run_def newTaskPool_def newThreadPool_def busy_def tsq_push_def tsq_tryPop_def)
  then show ?thesis
    using wait_for_done_complete [OF task_run_reaches [OF task_reachable.start s] s'] task_run_pool [OF s']
    by (simp add: wait_returns_def)
qed

text \<open>C15. In every interleaving no task is called twice and no exception leaves a worker: a
  future is not decided before its task was called, holds what the function returned or
  threw from then on, and is broken exactly when the pool was destroyed with the task still
  in its queue.\<close>

theorem futures_follow_tasks:
  assumes "task_reachable outcome hc n s"
  shows "\<not> terminated s \<and> distinct (callOrder s)
     \<and> (\<forall>t. futures s t =
           (if t \<notin># submitted (pool s) then None
            else if t \<in> set (callOrder s) then Some (Ready (outcome t))
            else if destroyed s then Some Broken else Some Pending))"
proof -
  have f: "future_inv outcome s" and o: "mset (callOrder s) = called s + finished (pool s)"
    using task_reachable_future_inv [OF assms] task_reachable_order_inv [OF assms]
    by (simp_all add: order_inv_def)
  have "count (mset (callOrder s)) t \<le> 1" for t
    using future_inv_counts [OF f, of t] by (simp add: o)
  then have "distinct (callOrder s)"
    by (metis count_mset_0_iff distinct_count_atmost_1 le_less_linear less_one order_antisym_conv)
  moreover have "t \<in> set (callOrder s) \<longleftrightarrow> t \<in># called s + finished (pool s)" for t
    by (metis o set_mset_mset)
  ultimately show ?thesis using f by (auto simp: future_inv_def future_of_def)
qed

lemma futures_follow_tasks_witness:
  "futures (the (task_run Inl (one_task_run 5) (newTaskPool 8 1) :: (nat, nat, unit) TaskPool option)) 5
     = Some (Ready (Inl 5))"
proof -
  let ?run = "task_run Inl (one_task_run 5) (newTaskPool 8 1) :: (nat, nat, unit) TaskPool option"
  have r: "?run = Some (the ?run)" "submitted (pool (the ?run)) = {#5#}" "callOrder (the ?run) = [5]"
    by (simp_all add: one_task_run_def newTaskPool_def newThreadPool_def busy_def tsq_push_def tsq_tryPop_def)
  have "task_reachable Inl 8 1 (the ?run)" by (rule task_run_reaches [OF task_reachable.start r(1)])
  from futures_follow_tasks [OF this] r(2,3) show ?thesis by simp
qed

text \<open>With a single thread the tasks are called in the order in which they were pushed.\<close>

theorem one_thread_in_order:
  assumes "task_reachable outcome hc n s" "threadCount (pool s) \<le> 1"
  shows "prefix (callOrder s) (pushOrder s)"
  using task_reachable_order_inv [OF assms(1)] assms(2)
  by (auto simp: order_inv_def intro: prefix_prefix)

lemma one_thread_in_order_witness:
  "prefix (callOrder (the (task_run Inl (one_task_run 5) (newTaskPool 8 1) :: (nat, nat, unit) TaskPool option))) [5]"
proof -
  let ?run = "task_run Inl (one_task_run 5) (newTaskPool 8 1) :: (nat, nat, unit) TaskPool option"
  have r: "?run = Some (the ?run)" "threadCount (pool (the ?run)) \<le> 1" "pushOrder (the ?run) = [5]"
    by (simp_all add: one_task_run_def newTaskPool_def newThreadPool_def busy_def tsq_push_def tsq_tryPop_def)
  then show ?thesis
    using one_thread_in_order [OF task_run_reaches [OF task_reachable.start r(1)]] by metis
qed

text \<open>With two threads they are not: of two events of one connection the second may be
  handled first.\<close>

lemma two_threads_reorder:
  assumes "a \<noteq> b"
  shows "\<exists>s :: ('t, 'e, 'v) TaskPool. task_reachable outcome hc 2 s
     \<and> pushOrder s = [a, b] \<and> callOrder s = [b, a]"
proof -
  let ?es = "[Pool (AddCount a), Pool (AddPush a), Pool (AddCount b), Pool (AddPush b),
    Pool StartCall, Pool StartThread, Pool StartThread, Pool WorkerLoop, Pool WorkerPop, Pool WorkerLoop,
    Pool WorkerPop, Pool (CountActive b), Pool (UncountTask b), Call b, Pool (CountActive a),
    Pool (UncountTask a), Call a]"
  let ?s = "the (task_run outcome ?es (newTaskPool hc 2)) :: ('t, 'e, 'v) TaskPool"
  have "task_run outcome ?es (newTaskPool hc 2) = Some ?s"
    using assms
    by (simp add: newTaskPool_def newThreadPool_def busy_def tsq_push_def tsq_tryPop_def add_mset_commute)
  moreover have "pushOrder ?s = [a, b] \<and> callOrder ?s = [b, a]"
    using assms
    by (simp add: newTaskPool_def newThreadPool_def busy_def tsq_push_def tsq_tryPop_def add_mset_commute)
  ultimately show ?thesis by (metis task_run_reaches task_reachable.start)
qed

text \<open>The destructor waits for nothing but the tasks that workers have taken.\<close>

definition quitting :: "('t, 'e, 'v) TaskPool \<Rightarrow> bool" where
  "quitting s \<longleftrightarrow> \<not> destroyed s \<and> m_quit (pool s) \<and> toStart (pool s) = 0 \<and> adding (pool s) = []"

definition work_left :: "('t, 'e, 'v) TaskPool \<Rightarrow> nat" where
  "work_left s = 5 * looping (pool s) + 4 * size (popped (pool s)) + 3 * size (counted (pool s))
     + (2 * size (running (pool s)) - size (called s))"

lemma quitting_progress:
  assumes "future_inv outcome s" "quitting s" "busy (pool s) \<noteq> 0"
  shows "\<exists>e s'. task_event outcome e s = Some s' \<and> quitting s' \<and> work_left s' < work_left s"
proof -
  have c: "called s \<subseteq># running (pool s)" using assms(1) by (simp add: future_inv_def)
  note sz = size_mset_mono [OF c]
  consider (loop) "0 < looping (pool s)" | (pop) t where "t \<in># popped (pool s)"
    | (count) t where "t \<in># counted (pool s)" | (call) t where "t \<in># running (pool s) - called s" | (fin) t where "t \<in># called s" "t \<in># running (pool s)"
  proof -
    have "0 < looping (pool s) \<or> (\<exists>t. t \<in># popped (pool s)) \<or> (\<exists>t. t \<in># counted (pool s))
        \<or> (\<exists>t. t \<in># running (pool s))"
      using assms(3) by (auto simp: busy_def simp flip: multiset_nonemptyE)
    moreover have "t \<in># running (pool s) \<Longrightarrow> t \<in># running (pool s) - called s \<or> t \<in># called s" for t
      by (auto simp: in_diff_count not_in_iff)
    ultimately show thesis using that by blast
  qed
  then show ?thesis
  proof cases
    case loop
    then show ?thesis using assms(2) sz
      by (intro exI [of _ "Pool WorkerPop"])
         (cases "workQueue (pool s)"; auto simp: quitting_def work_left_def tsq_tryPop_def)
  next
    case (pop t)
    then show ?thesis using assms(2) sz
      by (intro exI [of _ "Pool (CountActive t)"])
         (auto simp: quitting_def work_left_def dest!: multi_member_split)
  next
    case (count t)
    then show ?thesis using assms(2) sz
      by (intro exI [of _ "Pool (UncountTask t)"])
         (auto simp: quitting_def work_left_def dest!: multi_member_split)
  next
    case (call t)
    then obtain s' where s': "task_event outcome (Call t) s = Some s'" using assms(2) by (auto simp: quitting_def)
    then have "s' = s\<lparr>futures := (futures s)(t \<mapsto> Ready (outcome t)), called := called s + {#t#},
        callOrder := callOrder s @ [t]\<rparr>"
      using future_inv_call [OF assms(1) s'] by (auto split: if_splits)
    moreover have "size (called s) < size (running (pool s))"
      using call c sz by (metis diff_empty le_neq_implies_less multi_self_add_other_not_self
          size_Diff_submset diff_self_eq_0 empty_iff set_mset_empty size_eq_0_iff_empty)
    ultimately show ?thesis using s' assms(2)
      by (intro exI [of _ "Call t"] exI [of _ s']) (auto simp: quitting_def work_left_def)
  next
    case (fin t)
    then show ?thesis using assms(2) sz
      by (intro exI [of _ "Pool (TaskDone t)"])
         (auto simp: quitting_def work_left_def dest!: multi_member_split)
  qed
qed

lemma quitting_drains:
  assumes "task_reachable outcome hc n s" "quitting s"
  shows "\<exists>es s'. task_run outcome es s = Some s' \<and> quitting s' \<and> busy (pool s') = 0"
  using assms
proof (induction "work_left s" arbitrary: s rule: less_induct)
  case less
  show ?case
  proof (cases "busy (pool s) = 0")
    case True
    then show ?thesis using less.prems by (intro exI [of _ "[]"] exI [of _ s]) simp
  next
    case False
    then obtain e s1 where e: "task_event outcome e s = Some s1" "quitting s1" "work_left s1 < work_left s"
      using quitting_progress [OF task_reachable_future_inv [OF less.prems(1)] less.prems(2)] by blast
    then obtain es s' where "task_run outcome es s1 = Some s' \<and> quitting s' \<and> busy (pool s') = 0"
      using less.hyps [OF e(3)] task_reachable.step [OF less.prems(1) e(1)] by blast
    then show ?thesis using e(1) by (intro exI [of _ "e # es"] exI [of _ s']) (simp del: task_event.simps)
  qed
qed

text \<open>From every state in which no other thread is inside the pool, the destructor can
  return, and then every future is decided: nobody waits for one for ever.\<close>

theorem destructor_decides_futures:
  assumes "task_reachable outcome hc n s" "\<not> destroyed s" "toStart (pool s) = 0" "adding (pool s) = []"
  shows "\<exists>es s'. task_run outcome (Pool Quit # es) s = Some s' \<and> destroyed s'
     \<and> (\<forall>t \<in># submitted (pool s'). futures s' t = Some (Ready (outcome t)) \<or> futures s' t = Some Broken)"
proof -
  obtain s1 where s1: "task_event outcome (Pool Quit) s = Some s1" "quitting s1"
    using assms(2-4) by (auto simp: quitting_def)
  have r1: "task_reachable outcome hc n s1" using task_reachable.step [OF assms(1) s1(1)] .
  obtain es s2 where s2: "task_run outcome es s1 = Some s2" "quitting s2" "busy (pool s2) = 0"
    using quitting_drains [OF r1 s1(2)] by blast
  obtain s3 where s3: "task_event outcome Destroy s2 = Some s3" "destroyed s3"
    using s2(2,3) by (auto simp: quitting_def)
  have "task_reachable outcome hc n s3"
    using task_reachable.step [OF task_run_reaches [OF r1 s2(1)] s3(1)] .
  then have "future_inv outcome s3" by (rule task_reachable_future_inv)
  then have "\<forall>t \<in># submitted (pool s3). futures s3 t = Some (Ready (outcome t)) \<or> futures s3 t = Some Broken"
    using s3(2) by (auto simp: future_inv_def future_of_def)
  moreover have "task_run outcome (es @ [Destroy]) s1 = Some s3"
    using s2(1) s3(1) by (simp add: task_run_append del: task_event.simps)
  ultimately show ?thesis using s1(1) s3(2)
    by (intro exI [of _ "es @ [Destroy]"] exI [of _ s3]) (simp del: task_event.simps)
qed

end
