(* ===== verification/LoopThreads.thy ===== *)
theory LoopThreads
  imports EventLoop PooledTask
begin

text \<open>
  \<^verbatim>\<open>EventLoopDispatcher::startLoop\<close> on the pool's threads: every loop but the first is
  a task of the pool, the call of \<^verbatim>\<open>EventLoop::run\<close>, named by the loop's index. It
  returns only by the exception that ends the loop, the task's outcome; the event
  \<^term>\<open>Call i\<close> is that exception leaving loop \<open>i\<close>.
\<close>

text \<open>What \<^verbatim>\<open>startLoop\<close> does to the pool before the caller's thread enters the first
  loop.\<close>

definition start_actions :: "EventLoopDispatcher \<Rightarrow> nat task_action list" where
  "start_actions d =
     (if poolThreads d = 0 then []
      else concat (map submit [1..<m_loopCount d]) @ [Pool StartCall])"

definition dispatcher_pool :: "nat \<Rightarrow> EventLoopDispatcher \<Rightarrow> (nat, 'e, unit) TaskPool" where
  "dispatcher_pool hc d = newTaskPool hc (poolThreads d)"

definition loops_running :: "(nat, 'e, 'v) TaskPool \<Rightarrow> nat multiset" where
  "loops_running s = running (pool s) - called s"

text \<open>What other threads and the pool's workers do while nobody submits another task, starts the
  pool again or destroys it, and making threads succeeds.\<close>

fun undisturbed :: "nat task_action \<Rightarrow> bool" where
  "undisturbed (Pool StartThread) = True"
| "undisturbed (Pool WorkerLoop) = True"
| "undisturbed (Pool WorkerPop) = True"
| "undisturbed (Pool (CountActive t)) = True"
| "undisturbed (Pool (UncountTask t)) = True"
| "undisturbed (Pool (TaskDone t)) = True"
| "undisturbed (Call t) = True"
| "undisturbed _ = False"

lemma submit_all:
  fixes s :: "(nat, 'e, 'v) TaskPool"
  assumes "\<not> destroyed s" "ThreadPool.adding (pool s) = []" "distinct is" "\<forall>i \<in> set is. futures s i = None"
  shows "\<exists>s'. task_run outcome (concat (map submit is)) s = Some s'
     \<and> \<not> destroyed s' \<and> called s' = called s
     \<and> pool s' = (pool s)\<lparr>taskCount := taskCount (pool s) + length is, workQueue := workQueue (pool s) @ is,
          submitted := submitted (pool s) + mset is\<rparr>"
  using assms
proof (induction "is" arbitrary: s)
  case (Cons i "is")
  let ?s = "s\<lparr>pool := (pool s)\<lparr>taskCount := taskCount (pool s) + 1, workQueue := workQueue (pool s) @ [i],
      submitted := submitted (pool s) + {#i#}\<rparr>, futures := (futures s)(i \<mapsto> Pending), pushOrder := pushOrder s @ [i]\<rparr>"
  have "task_run outcome (submit i) s = Some ?s"
    using Cons.prems by (simp add: submit_def tsq_push_def)
  moreover obtain s' where "task_run outcome (concat (map submit is)) ?s = Some s'"
      "\<not> destroyed s'" "called s' = called ?s"
      "pool s' = (pool ?s)\<lparr>taskCount := taskCount (pool ?s) + length is, workQueue := workQueue (pool ?s) @ is,
          submitted := submitted (pool ?s) + mset is\<rparr>"
    using Cons.IH [of ?s] Cons.prems by fastforce
  ultimately show ?case
    by (intro exI [of _ s']) (simp add: task_run_append del: task_event.simps)
qed simp

text \<open>A started dispatcher with \<open>n\<close> loops.\<close>

definition started :: "nat \<Rightarrow> (nat, 'e, 'v) TaskPool \<Rightarrow> bool" where
  "started n s \<longleftrightarrow> \<not> destroyed s \<and> ThreadPool.adding (pool s) = [] \<and> \<not> m_quit (pool s)
     \<and> threadCount (pool s) + toStart (pool s) = n - 1
     \<and> ThreadPool.submitted (pool s) = mset [1..<n]"

lemma start_actions_run:
  assumes "1 < n"
  shows "\<exists>s. task_run outcome (start_actions (newDispatcher n)) (dispatcher_pool hc (newDispatcher n)) = Some s
     \<and> started n s"
proof -
  let ?p = "dispatcher_pool hc (newDispatcher n) :: (nat, 'a, unit) TaskPool"
  have p: "\<not> destroyed ?p" "ThreadPool.adding (pool ?p) = []" "\<forall>i \<in> set [1..<n]. futures ?p i = None"
    by (simp_all add: dispatcher_pool_def newTaskPool_def newThreadPool_def)
  obtain s where s: "task_run outcome (concat (map submit [1..<n])) ?p = Some s" "\<not> destroyed s"
      "pool s = (pool ?p)\<lparr>taskCount := taskCount (pool ?p) + length [1..<n], workQueue := workQueue (pool ?p) @ [1..<n],
          ThreadPool.submitted := ThreadPool.submitted (pool ?p) + mset [1..<n]\<rparr>"
    using submit_all [OF p(1,2) distinct_upt p(3)] by blast
  have "task_run outcome (start_actions (newDispatcher n)) ?p = task_event outcome (Pool StartCall) s"
    using assms s(1) by (simp add: start_actions_def newDispatcher_def task_run_append)
  then show ?thesis using assms s(2,3)
    by (auto simp: started_def dispatcher_pool_def newTaskPool_def newThreadPool_def newDispatcher_def)
qed

lemma started_undisturbed:
  assumes "task_event outcome e s = Some s'" "undisturbed e" "started n s"
  shows "started n s'"
  using assms by (cases e rule: undisturbed.cases) (auto simp: started_def split: pool_event_cases)

lemma started_run:
  "task_run outcome es s = Some s' \<Longrightarrow> list_all undisturbed es \<Longrightarrow> started n s \<Longrightarrow> started n s'"
  by (induction es arbitrary: s) (auto simp del: task_event.simps intro: started_undisturbed split: option.splits)

text \<open>Loops that no thread has entered yet.\<close>

definition to_enter :: "(nat, 'e, 'v) TaskPool \<Rightarrow> nat" where
  "to_enter s = (if looping (pool s) = 0 then 1 else 0) + toStart (pool s) + 10 * length (workQueue (pool s))
     + 4 * size (popped (pool s)) + 2 * size (counted (pool s))"

definition all_entered :: "(nat, 'e, 'v) TaskPool \<Rightarrow> bool" where
  "all_entered s \<longleftrightarrow> workQueue (pool s) = [] \<and> popped (pool s) = {#} \<and> counted (pool s) = {#}"

lemma enter_progress:
  assumes "future_inv outcome s" "started n s" "\<not> all_entered s"
  shows "\<exists>e s'. task_event outcome e s = Some s' \<and> undisturbed e \<and> e \<notin> range Call \<and> to_enter s' < to_enter s"
proof -
  let ?p = "pool s"
  have d: "\<not> destroyed s" "\<not> m_quit ?p" "ThreadPool.adding ?p = []" using assms(2) by (simp_all add: started_def)
  have i: "pool_inv ?p" using assms(1) by (simp add: future_inv_def)
  consider (count) t where "t \<in># popped ?p" | (uncount) t where "t \<in># counted ?p" | (start) "0 < toStart ?p"
    | (pop) "0 < looping ?p" "workQueue ?p \<noteq> []"
    | (loop) "looping ?p = 0" "workQueue ?p \<noteq> []" "toStart ?p = 0"
    using assms(3) by (auto simp: all_entered_def simp flip: multiset_nonemptyE)
  then show ?thesis
  proof cases
    case (count t)
    then show ?thesis using d
      by (intro exI [of _ "Pool (CountActive t)"]) (auto simp: to_enter_def dest!: multi_member_split)
  next
    case (uncount t)
    then show ?thesis using d
      by (intro exI [of _ "Pool (UncountTask t)"]) (auto simp: to_enter_def dest!: multi_member_split)
  next
    case start
    then show ?thesis using d by (intro exI [of _ "Pool StartThread"]) (auto simp: to_enter_def)
  next
    case pop
    then show ?thesis using d
      by (intro exI [of _ "Pool WorkerPop"]) (cases "workQueue ?p"; auto simp: to_enter_def tsq_tryPop_def)
  next
    case loop
    have "size (ThreadPool.submitted ?p) = n - 1" using assms(2) by (simp add: started_def)
    then have "busy ?p + length (workQueue ?p) \<le> n - 1"
      using i d(3) loop(1) by (auto simp: pool_inv_def busy_def)
    moreover have "threadCount ?p = n - 1" using assms(2) loop(3) by (simp add: started_def)
    ultimately have "busy ?p < threadCount ?p" using loop(2) by (cases "workQueue ?p") auto
    then show ?thesis using d loop(1) by (intro exI [of _ "Pool WorkerLoop"]) (auto simp: to_enter_def)
  qed
qed

lemma all_enter:
  assumes "task_reachable outcome hc m s" "started n s"
  shows "\<exists>es s'. list_all (\<lambda>e. undisturbed e \<and> e \<notin> range Call) es \<and> task_run outcome es s = Some s'
     \<and> started n s' \<and> all_entered s'"
  using assms
proof (induction "to_enter s" arbitrary: s rule: less_induct)
  case less
  show ?case
  proof (cases "all_entered s")
    case True
    then show ?thesis using less.prems by (intro exI [of _ "[]"] exI [of _ s]) simp
  next
    case False
    then obtain e s1 where e: "task_event outcome e s = Some s1" "undisturbed e" "e \<notin> range Call" "to_enter s1 < to_enter s"
      using enter_progress [OF task_reachable_future_inv [OF less.prems(1)] less.prems(2)] by blast
    obtain es s' where "list_all (\<lambda>e. undisturbed e \<and> e \<notin> range Call) es \<and> task_run outcome es s1 = Some s'
        \<and> started n s' \<and> all_entered s'"
      using less.hyps [OF e(4)] task_reachable.step [OF less.prems(1) e(1)] started_undisturbed [OF e(1,2) less.prems(2)]
      by blast
    then show ?thesis using e(1-3) by (intro exI [of _ "e # es"] exI [of _ s']) (simp del: task_event.simps)
  qed
qed

text \<open>C17. Whatever the pool's threads have done since \<^verbatim>\<open>startLoop\<close>, every loop gets a thread
  of its own: the threads can go on, no loop ending meanwhile, until each of the loops
  \<open>1..n-1\<close> is running or has been ended by an exception.\<close>

theorem every_loop_gets_thread:
  assumes "1 < n" "task_run outcome (start_actions (newDispatcher n) @ es) (dispatcher_pool hc (newDispatcher n)) = Some s"
    and "list_all undisturbed es"
  shows "\<exists>es' s'. list_all (\<lambda>e. undisturbed e \<and> e \<notin> range Call) es' \<and> task_run outcome es' s = Some s'
     \<and> loops_running s' + called s' + finished (pool s') = mset [1..<n]"
proof -
  obtain s0 where s0: "task_run outcome (start_actions (newDispatcher n)) (dispatcher_pool hc (newDispatcher n)) = Some s0"
      "started n s0"
    using start_actions_run [OF assms(1)] by blast
  have r: "task_reachable outcome hc (poolThreads (newDispatcher n)) s"
    using task_run_reaches [OF task_reachable.start assms(2) [unfolded dispatcher_pool_def]] .
  have "task_run outcome es s0 = Some s" using assms(2) s0(1) by (simp add: task_run_append)
  then have "started n s" using assms(3) s0(2) by (rule started_run)
  then obtain es' s' where e: "list_all (\<lambda>e. undisturbed e \<and> e \<notin> range Call) es'" "task_run outcome es' s = Some s'"
      "started n s'" "all_entered s'"
    using all_enter [OF r] by blast
  have f: "future_inv outcome s'" using task_reachable_future_inv [OF task_run_reaches [OF r e(2)]] .
  then have "loops_running s' + called s' = running (pool s')"
    by (simp add: loops_running_def future_inv_def subset_mset.diff_add)
  moreover have "mset [1..<n] = running (pool s') + finished (pool s')"
    using f e(3,4) by (auto simp: future_inv_def pool_inv_def started_def all_entered_def)
  ultimately show ?thesis using e(1,2) by auto
qed

lemma every_loop_gets_thread_witness:
  "\<exists>es' s'. task_run Inl es' (the (task_run Inl (start_actions (newDispatcher 3) @ [Pool StartThread])
       (dispatcher_pool 8 (newDispatcher 3)) :: (nat, nat, unit) TaskPool option)) = Some s'
     \<and> loops_running s' + called s' + finished (pool s') = {#1, 2#}"
proof -
  let ?run = "task_run Inl (start_actions (newDispatcher 3) @ [Pool StartThread])
     (dispatcher_pool 8 (newDispatcher 3)) :: (nat, nat, unit) TaskPool option"
  have l: "[Suc 0..<3] = [1, 2]" by code_simp
  have "?run = Some (the ?run)"
    by (simp add: start_actions_def newDispatcher_def dispatcher_pool_def newTaskPool_def newThreadPool_def
        submit_def tsq_push_def l)
  then show ?thesis using every_loop_gets_thread [of 3 Inl "[Pool StartThread]" 8 "the ?run"] l by auto
qed

text \<open>A thread that is in a loop leaves it only by an exception, and the destructor waits for it.\<close>

lemma running_loop_kept:
  assumes "task_event outcome e s = Some s'" "e \<notin> range Call" "future_inv outcome s" "i \<in># loops_running s"
  shows "i \<in># loops_running s' \<and> \<not> destroyed s'"
proof (cases e)
  case (Pool e')
  have c: "called s \<subseteq># running (pool s)" using assms(3) by (simp add: future_inv_def)
  have k: "count (called s) i < count (running (pool s)) i"
    using assms(4) by (simp add: loops_running_def in_diff_count)
  show ?thesis using assms(1) Pool k
    by (cases e') (auto simp: loops_running_def in_diff_count Suc_le_eq intro!: diff_less_mono split: pool_event_cases)
next
  case Destroy
  have "size (running (pool s)) \<noteq> 0" using assms(4) by (auto simp: loops_running_def dest: in_diffD)
  then show ?thesis using assms(1) Destroy by (auto simp: busy_def split: if_splits)
qed (use assms(2) in auto)

theorem running_loop_blocks_destructor:
  assumes "task_reachable outcome hc n s" "loops_running s \<noteq> {#}"
    and "task_run outcome es s = Some s'" "list_all (\<lambda>e. e \<notin> range Call) es"
  shows "\<not> destroyed s' \<and> loops_running s' \<noteq> {#}"
proof -
  obtain i where i: "i \<in># loops_running s" using assms(2) by (auto elim: multiset_nonemptyE)
  have "task_reachable outcome hc n s \<Longrightarrow> i \<in># loops_running s \<Longrightarrow> \<not> destroyed s \<Longrightarrow> i \<in># loops_running s' \<and> \<not> destroyed s'"
    using assms(3,4)
  proof (induction es arbitrary: s)
    case (Cons e es)
    then obtain s1 where s1: "task_event outcome e s = Some s1" "task_run outcome es s1 = Some s'"
      by (auto simp del: task_event.simps split: option.splits)
    have "i \<in># loops_running s1 \<and> \<not> destroyed s1"
      using running_loop_kept [OF s1(1) _ task_reachable_future_inv [OF Cons.prems(1)] Cons.prems(2)] Cons.prems(5)
      by simp
    then show ?case
      using Cons.IH [OF task_reachable.step [OF Cons.prems(1) s1(1)] _ _ s1(2)] Cons.prems(5) by simp
  qed simp
  moreover have "\<not> destroyed s"
    using task_reachable_future_inv [OF assms(1)] i by (auto simp: future_inv_def busy_def loops_running_def)
  ultimately show ?thesis using assms(1) i by auto
qed

lemma running_loop_blocks_destructor_witness:
  "\<not> destroyed (the (task_run Inl [Pool Quit] (the (task_run Inl
     (submit 1 @ [Pool StartCall, Pool StartThread, Pool WorkerLoop, Pool WorkerPop, Pool (CountActive 1),
        Pool (UncountTask 1)]) (newTaskPool 8 1) :: (nat, nat, unit) TaskPool option))))"
proof -
  let ?run = "task_run Inl (submit 1 @ [Pool StartCall, Pool StartThread, Pool WorkerLoop, Pool WorkerPop,
     Pool (CountActive 1), Pool (UncountTask 1)]) (newTaskPool 8 1) :: (nat, nat, unit) TaskPool option"
  have r: "?run = Some (the ?run)"
    by (simp add: newTaskPool_def newThreadPool_def submit_def tsq_push_def tsq_tryPop_def busy_def)
  have "loops_running (the ?run) \<noteq> {#} \<and> task_run Inl [Pool Quit] (the ?run) = Some (the (task_run Inl [Pool Quit] (the ?run)))"
    by (simp add: newTaskPool_def newThreadPool_def submit_def tsq_push_def tsq_tryPop_def busy_def loops_running_def)
  then show ?thesis
    using running_loop_blocks_destructor [OF task_run_reaches [OF task_reachable.start r]] by fastforce
qed

text \<open>An exception that ends a loop on a pool thread goes into a future that nobody holds: the
  program goes on, and the dispatcher goes on handing out the loop that nobody runs.\<close>

lemma dead_loop_still_dispatched:
  assumes "0 < i" "i < n"
  shows "\<exists>s :: (nat, 'e, unit) TaskPool. task_reachable (\<lambda>_. Inl x) hc (n - 1) s
     \<and> futures s i = Some (Ready (Inl x)) \<and> i \<notin># loops_running s \<and> \<not> terminated s
     \<and> Some i \<in> set (fst (dispatch_many n (newDispatcher n)))"
proof -
  let ?o = "\<lambda>_ :: nat. Inl x :: 'e + unit"
  have n: "1 < n" using assms by simp
  obtain s0 where s0: "task_run ?o (start_actions (newDispatcher n)) (dispatcher_pool hc (newDispatcher n)) = Some s0"
      "started n s0"
    using start_actions_run [OF n] by blast
  have r0: "task_reachable ?o hc (n - 1) s0"
    using task_run_reaches [OF task_reachable.start s0(1) [unfolded dispatcher_pool_def]] n
    by (simp add: newDispatcher_def)
  obtain es s1 where s1: "task_run ?o es s0 = Some s1" "started n s1" "all_entered s1"
      "list_all (\<lambda>e. undisturbed e \<and> e \<notin> range Call) es"
    using all_enter [OF r0 s0(2)] by blast
  have r1: "task_reachable ?o hc (n - 1) s1" using task_run_reaches [OF r0 s1(1)] .
  have ended: ?thesis if "task_reachable ?o hc (n - 1) s" "i \<in># called s + finished (pool s)"
    for s :: "(nat, 'e, unit) TaskPool"
  proof -
    have f: "future_inv ?o s" using task_reachable_future_inv [OF that(1)] .
    have "count (running (pool s)) i \<le> count (called s) i"
      using future_inv_counts [OF f, of i] that(2) by (auto simp flip: count_greater_zero_iff)
    then have "i \<notin># loops_running s" by (simp add: loops_running_def in_diff_count)
    moreover have "i \<in># ThreadPool.submitted (pool s)"
      using future_inv_counts [OF f, of i] that(2) by (auto simp flip: count_greater_zero_iff)
    then have "futures s i = Some (Ready (Inl x))" "\<not> terminated s"
      using f that(2) by (simp_all add: future_inv_def future_of_def)
    moreover have "Some i \<in> set (fst (dispatch_many n (newDispatcher n)))"
      using dispatch_round_robin [of n] n assms by simp
    ultimately show ?thesis using that(1) by blast
  qed
  have f: "future_inv ?o s1" using task_reachable_future_inv [OF r1] .
  have "i \<in># ThreadPool.submitted (pool s1)" using s1(2) assms by (simp add: started_def)
  then have "i \<in># running (pool s1) + finished (pool s1)"
    using f s1(2,3) by (auto simp: future_inv_def pool_inv_def started_def all_entered_def)
  then consider "i \<in># called s1 + finished (pool s1)" | "i \<in># running (pool s1) - called s1"
    by (cases "i \<in># called s1") (auto simp: in_diff_count not_in_iff)
  then show ?thesis
  proof cases
    case 1
    then show ?thesis by (rule ended [OF r1])
  next
    case 2
    then obtain s2 where s2: "task_event ?o (Call i) s1 = Some s2" using s1(2) by (auto simp: started_def)
    have "futures s1 i = Some Pending" using future_inv_call [OF f s2] by simp
    then have "i \<in># called s2" using s2 by (auto split: if_splits)
    then show ?thesis using ended [OF task_reachable.step [OF r1 s2]] by simp
  qed
qed

end
