(* ===== verification/TimerHandler.thy ===== *)
theory TimerHandler
  imports Timer EventLoop
begin

text \<open>
  The life of a timer in its event loop (\<^verbatim>\<open>Timer::Timer\<close>, \<^verbatim>\<open>Timer::~Timer\<close> and
  \<^verbatim>\<open>src/internal/handlers/TimerHandler.cpp\<close>). The constructor registers the
  descriptor at the loop's poller. The destructor queues a functor that will unregister
  it and closes the descriptor at once; the functor keeps the handler and its epoll event
  alive, not the timer.

  Timers are numbered; the handler and the epoll event of a timer have its number.
  \<open>kernel\<close> is the interest list that the kernel keeps for the poller: it follows the
  calls to \<^verbatim>\<open>epoll_ctl\<close>, and closing a descriptor removes it. \<open>fired\<close> are the
  timers whose callback ran.
\<close>

record Timers =
  t_loop :: EventLoopImpl
  functors :: "nat list"
  alive :: "nat \<rightharpoonup> Timer \<times> int"
  events :: "nat \<rightharpoonup> EpollEvent"
  kernel :: "int \<rightharpoonup> nat"
  nextTimer :: nat
  fired :: "nat list"

definition newTimers :: Timers where
  "newTimers = \<lparr>t_loop = newEventLoop, functors = [], alive = Map.empty, events = Map.empty,
     kernel = Map.empty, nextTimer = 0, fired = []\<rparr>"

text \<open>What the kernel does with a call: adding twice, and changing a descriptor that it does
  not have, are refused.\<close>

fun ctl_effect :: "nat \<Rightarrow> ctl_op \<times> int \<times> 32 word \<Rightarrow> (int \<rightharpoonup> nat) \<Rightarrow> (int \<rightharpoonup> nat)" where
  "ctl_effect t (CTL_ADD, fd, m) K = (if K fd = None then K(fd \<mapsto> t) else K)"
| "ctl_effect t (CTL_MOD, fd, m) K = (if K fd = None then K else K(fd \<mapsto> t))"
| "ctl_effect t (CTL_DEL, fd, m) K = K(fd := None)"

text \<open>An operation of the epoll event of timer \<open>t\<close>.\<close>

definition on_poll :: "nat \<Rightarrow> (EpollEvent \<times> Epoll \<Rightarrow> EpollEvent \<times> Epoll) \<Rightarrow> EpollEvent \<Rightarrow> Timers \<Rightarrow> Timers" where
  "on_poll t f e s =
     (let p = m_poll (t_loop s); (e, p') = f (e, p) in
      s\<lparr>t_loop := (t_loop s)\<lparr>m_poll := p'\<rparr>, events := (events s)(t \<mapsto> e),
        kernel := fold (ctl_effect t) (drop (length (ctl_log p)) (ctl_log p')) (kernel s)\<rparr>)"

text \<open>\<^verbatim>\<open>Timer::Timer\<close>: \<open>fd\<close> is what \<^verbatim>\<open>timerfd_create\<close> returns.\<close>

definition makeTimer :: "int \<Rightarrow> Timers \<Rightarrow> Timers" where
  "makeTimer fd s =
     (let t = nextTimer s;
          s = s\<lparr>nextTimer := t + 1, alive := (alive s)(t \<mapsto> (newTimer, fd))\<rparr>
      in on_poll t (event_active t [EV_IN] (SysOk 0)) (newEpollEvent fd) s)"

text \<open>\<^verbatim>\<open>TimerHandler::remove\<close>, as far as it runs in the caller: the functor is queued.\<close>

definition handler_remove :: "nat \<Rightarrow> Timers \<Rightarrow> Timers" where
  "handler_remove t s = s\<lparr>functors := functors s @ [t]\<rparr>"

text \<open>\<^verbatim>\<open>Timer::~Timer\<close> and the destructors of its members: the handler stays with
  the functor, \<^verbatim>\<open>TimerImpl\<close> closes the descriptor.\<close>

definition destroyTimer :: "nat \<Rightarrow> Timers \<Rightarrow> Timers option" where
  "destroyTimer t s = (case alive s t of None \<Rightarrow> None
     | Some (x, fd) \<Rightarrow> Some ((handler_remove t s)\<lparr>alive := (alive s)(t := None), kernel := (kernel s)(fd := None)\<rparr>))"

text \<open>The functor, run by the loop; with it the handler and the epoll event go away.\<close>

definition run_functor :: "Timers \<Rightarrow> Timers" where
  "run_functor s = (case functors s of [] \<Rightarrow> s
     | t # ts \<Rightarrow> (case events s t of None \<Rightarrow> s
        | Some e \<Rightarrow>
            let s = on_poll t (event_disable (SysOk 0)) e s;
                s = s\<lparr>t_loop := remove_handler t (t_loop s)\<rparr>
            in s\<lparr>functors := ts, events := (events s)(t := None)\<rparr>))"

text \<open>
  \<^verbatim>\<open>handleEvents\<close> and \<^verbatim>\<open>TimerHandler::handleIn\<close> for an epoll event that the
  loop got from the poller: undefined when the event is gone, or when its handler is still
  there and the timer it points to is gone.
\<close>

definition timer_event :: "nat \<Rightarrow> (nat \<Rightarrow> sysret) \<Rightarrow> Timers \<Rightarrow> Timers option" where
  "timer_event t calls s = do {
     e \<leftarrow> events s t;
     (x, fd) \<leftarrow> alive s t;
     timeout \<leftarrow> timer_handleIn calls;
     Some (if timeout then s\<lparr>fired := fired s @ [t]\<rparr> else s)
   }"

subsection \<open>Runs\<close>

datatype timers_op = MakeTimer int | DestroyTimer nat | RunFunctor | SetTimer nat timespec timer_op

fun timers_step :: "Timers \<Rightarrow> timers_op \<Rightarrow> Timers" where
  "timers_step s (MakeTimer fd) = makeTimer fd s"
| "timers_step s (DestroyTimer t) = (case destroyTimer t s of None \<Rightarrow> s | Some s \<Rightarrow> s)"
| "timers_step s RunFunctor = run_functor s"
| "timers_step s (SetTimer t now x) = (case alive s t of None \<Rightarrow> s
     | Some (y, fd) \<Rightarrow> s\<lparr>alive := (alive s)(t \<mapsto> (timer_step y (now, x), fd))\<rparr>)"

text \<open>Every new timer gets a descriptor that no timer has, not even a destroyed one whose
  functor is still to run.\<close>

fun unreused :: "Timers \<Rightarrow> timers_op list \<Rightarrow> bool" where
  "unreused s [] = True"
| "unreused s (x # xs) \<longleftrightarrow>
     (case x of MakeTimer fd \<Rightarrow> \<forall>t < nextTimer s. map_option watchingFd (events s t) \<noteq> Some fd | _ \<Rightarrow> True)
     \<and> unreused (timers_step s x) xs"

text \<open>
  The bookkeeping: the poller's map \<open>P\<close>, the descriptors \<open>E\<close> of the epoll events,
  the kernel's list \<open>K\<close>, the descriptors \<open>A\<close> of the timers, the functors \<open>F\<close>.
\<close>

definition registry :: "(int \<rightharpoonup> nat) \<Rightarrow> (nat \<rightharpoonup> int) \<Rightarrow> (int \<rightharpoonup> nat) \<Rightarrow> (nat \<rightharpoonup> int) \<Rightarrow> nat list \<Rightarrow> nat \<Rightarrow> bool" where
  "registry P E K A F n \<longleftrightarrow>
     (\<forall>fd t. P fd = Some t \<longleftrightarrow> E t = Some fd) \<and> (\<forall>fd t. K fd = Some t \<longleftrightarrow> A t = Some fd)
   \<and> (\<forall>t fd. A t = Some fd \<longrightarrow> E t = Some fd) \<and> dom E = dom A \<union> set F \<and> dom A \<inter> set F = {}
   \<and> distinct F \<and> dom E \<subseteq> {..<n}"

lemma registryD:
  assumes "registry P E K A F n"
  shows "P fd = Some t \<longleftrightarrow> E t = Some fd" "K fd = Some t \<longleftrightarrow> A t = Some fd"
    "A t = Some fd \<Longrightarrow> E t = Some fd" "dom E = dom A \<union> set F" "dom A \<inter> set F = {}" "distinct F"
    "dom E \<subseteq> {..<n}"
  using assms unfolding registry_def by blast+

lemma registry_add:
  assumes "registry P E K A F n" "fd \<notin> ran E"
  shows "registry (P(fd \<mapsto> n)) (E(n \<mapsto> fd)) (K(fd \<mapsto> n)) (A(n \<mapsto> fd)) F (Suc n)" "P fd = None" "K fd = None"
proof -
  note R = registryD [OF assms(1)]
  have "n \<notin> dom E" using R(7) by blast
  then have new: "E n = None" "A n = None" "n \<notin> set F" using R(4) by blast+
  have unused: "E t \<noteq> Some fd" for t using assms(2) by (blast intro: ranI)
  then have unused': "A t \<noteq> Some fd" for t using R(3) by blast
  show "P fd = None" "K fd = None"
    using R(1) [of fd] R(2) [of fd] unused unused' by (metis not_Some_eq)+
  show "registry (P(fd \<mapsto> n)) (E(n \<mapsto> fd)) (K(fd \<mapsto> n)) (A(n \<mapsto> fd)) F (Suc n)"
    unfolding registry_def
  proof (intro conjI allI impI)
    show "((P(fd \<mapsto> n)) fd' = Some t) = ((E(n \<mapsto> fd)) t = Some fd')" for fd' t
      using R(1) [of fd' t] unused [of t] new(1) by auto
    show "((K(fd \<mapsto> n)) fd' = Some t) = ((A(n \<mapsto> fd)) t = Some fd')" for fd' t
      using R(2) [of fd' t] unused' [of t] new(2) by auto
    show "(E(n \<mapsto> fd)) t = Some fd'" if "(A(n \<mapsto> fd)) t = Some fd'" for t fd'
      using that R(3) [of t fd'] by (auto split: if_splits)
  qed (use R(4,5,6,7) new in auto)
qed

lemma registry_drop:
  assumes "registry P E K A F n" "A t = Some fd"
  shows "registry P E (K(fd := None)) (A(t := None)) (F @ [t]) n"
proof -
  note R = registryD [OF assms(1)]
  have one: "u \<noteq> t \<Longrightarrow> A u \<noteq> Some fd" for u
    using R(2) [of fd] assms(2) by (metis option.inject)
  have t: "t \<in> dom A" "t \<notin> set F" using assms(2) R(5) by auto
  show ?thesis
    unfolding registry_def
  proof (intro conjI allI impI)
    show "((K(fd := None)) fd' = Some u) = ((A(t := None)) u = Some fd')" for fd' u
      using R(2) [of fd' u] one [of u] assms(2) by (cases "fd' = fd"; cases "u = t") simp_all
    show "E u = Some fd'" if "(A(t := None)) u = Some fd'" for u fd'
      using that R(3) [of u fd'] by (auto split: if_splits)
  qed (use R t in auto)
qed

lemma registry_run:
  assumes "registry P E K A (t # ts) n" "E t = Some fd"
  shows "registry (P(fd := None)) (E(t := None)) (K(fd := None)) A ts n"
proof -
  note R = registryD [OF assms(1)]
  have one: "u \<noteq> t \<Longrightarrow> E u \<noteq> Some fd" for u
    using R(1) [of fd] assms(2) by (metis option.inject)
  have dead: "A t = None" "t \<notin> set ts" using R(5,6) by auto
  then have none: "A u \<noteq> Some fd" for u
    using one R(3) by (metis option.distinct(1))
  show ?thesis
    unfolding registry_def
  proof (intro conjI allI impI)
    show "((P(fd := None)) fd' = Some u) = ((E(t := None)) u = Some fd')" for fd' u
      using R(1) [of fd' u] one [of u] assms(2) by (cases "fd' = fd"; cases "u = t") simp_all
    show "((K(fd := None)) fd' = Some u) = (A u = Some fd')" for fd' u
      using R(2) [of fd' u] none [of u] by auto
    show "(E(t := None)) u = Some fd'" if "A u = Some fd'" for u fd'
      using that R(3) [OF that] dead by auto
  qed (use R(4,5,6,7) dead in auto)
qed

lemma registry_settled:
  assumes "registry P E K A [] n"
  shows "P = K"
proof
  fix fd
  note R = registryD [OF assms]
  have "E t = Some fd \<longleftrightarrow> A t = Some fd" for t
  proof
    assume E: "E t = Some fd"
    then obtain fd' where A: "A t = Some fd'" using R(4) by auto
    with R(3) [OF A] E show "A t = Some fd" by simp
  qed (rule R(3))
  then have "P fd = Some t \<longleftrightarrow> K fd = Some t" for t using R(1,2) [of fd t] by simp
  then show "P fd = K fd" by (metis not_Some_eq)
qed

definition timers_inv :: "Timers \<Rightarrow> bool" where
  "timers_inv s \<longleftrightarrow> registry (poll_events (m_poll (t_loop s))) (map_option watchingFd \<circ> events s) (kernel s)
     (map_option snd \<circ> alive s) (functors s) (nextTimer s)"

lemma timers_inv_new: "timers_inv newTimers"
  by (simp add: timers_inv_def registry_def newTimers_def newEventLoop_def newEpoll_def)

text \<open>The two operations of the poller that timers use.\<close>

lemma on_poll_add:
  assumes "poll_events (m_poll (t_loop s)) fd = None"
  shows "on_poll t (event_active t [EV_IN] (SysOk 0)) (newEpollEvent fd) s =
    s\<lparr>t_loop := (t_loop s)\<lparr>m_poll := (m_poll (t_loop s))\<lparr>poll_events := (poll_events (m_poll (t_loop s)))(fd \<mapsto> t),
         ctl_log := ctl_log (m_poll (t_loop s)) @ [(CTL_ADD, fd, 1)]\<rparr>\<rparr>,
       events := (events s)(t \<mapsto> (newEpollEvent fd)\<lparr>watchingEvents := 1\<rparr>),
       kernel := (if kernel s fd = None then (kernel s)(fd \<mapsto> t) else kernel s)\<rparr>"
  using assms
  by (simp add: on_poll_def event_active_def updateEvent_def newEpollEvent_def mask_active_def
      stub_epoll_ctl_def Let_def)

lemma on_poll_disable:
  assumes "poll_events (m_poll (t_loop s)) (watchingFd e) = Some u"
  shows "on_poll t (event_disable (SysOk 0)) e s =
    s\<lparr>t_loop := (t_loop s)\<lparr>m_poll := (m_poll (t_loop s))\<lparr>
         poll_events := (poll_events (m_poll (t_loop s)))(watchingFd e := None),
         ctl_log := ctl_log (m_poll (t_loop s)) @ [(CTL_DEL, watchingFd e, 0)]\<rparr>\<rparr>,
       events := (events s)(t \<mapsto> e), kernel := (kernel s)(watchingFd e := None)\<rparr>"
  using assms
  by (simp add: on_poll_def event_disable_def removeEvent_def stub_epoll_ctl_def Let_def)

lemma newEpollEvent_fd: "watchingFd (newEpollEvent fd) = fd"
  by (simp add: newEpollEvent_def)

lemma make_inv:
  assumes "timers_inv s" "\<forall>t < nextTimer s. map_option watchingFd (events s t) \<noteq> Some fd"
  shows "timers_inv (makeTimer fd s)"
proof -
  have "dom (map_option watchingFd \<circ> events s) \<subseteq> {..<nextTimer s}"
    by (rule registryD(7) [OF assms(1) [unfolded timers_inv_def]])
  then have "fd \<notin> ran (map_option watchingFd \<circ> events s)"
    using assms(2) by (fastforce simp: ran_def)
  note add = registry_add [OF assms(1) [unfolded timers_inv_def] this]
  show ?thesis
    using add by (simp add: makeTimer_def Let_def on_poll_add timers_inv_def fun_upd_comp newEpollEvent_fd)
qed

lemma destroy_inv:
  assumes "timers_inv s" "alive s t = Some (x, fd)"
  shows "\<exists>s'. destroyTimer t s = Some s' \<and> timers_inv s'"
  using registry_drop [OF assms(1) [unfolded timers_inv_def], of t fd] assms(2)
  by (simp add: destroyTimer_def timers_inv_def handler_remove_def fun_upd_comp)

lemma functor_inv:
  assumes "timers_inv s"
  shows "timers_inv (run_functor s)"
proof (cases "functors s")
  case (Cons t ts)
  have reg: "registry (poll_events (m_poll (t_loop s))) (map_option watchingFd \<circ> events s) (kernel s)
     (map_option snd \<circ> alive s) (t # ts) (nextTimer s)"
    using assms Cons by (simp add: timers_inv_def)
  then have "t \<in> dom (map_option watchingFd \<circ> events s)" by (simp add: registry_def)
  then obtain e where e: "events s t = Some e" by auto
  then have "poll_events (m_poll (t_loop s)) (watchingFd e) = Some t"
    using reg by (simp add: registry_def)
  then show ?thesis
    using registry_run [OF reg, of "watchingFd e"] Cons e
    by (simp add: run_functor_def on_poll_disable timers_inv_def remove_handler_def fun_upd_comp Let_def)
qed (use assms in \<open>simp add: run_functor_def\<close>)

lemma timers_step_inv:
  assumes "timers_inv s" "unreused s [x]"
  shows "timers_inv (timers_step s x)"
proof (cases x)
  case (MakeTimer fd)
  then show ?thesis using assms make_inv by simp
next
  case (DestroyTimer t)
  then show ?thesis
    using assms destroy_inv [OF assms(1), of t] by (cases "alive s t") (auto simp: destroyTimer_def)
next
  case (SetTimer t now y)
  have "map_option snd \<circ> (alive s)(t \<mapsto> (z, fd)) = map_option snd \<circ> alive s"
    if "alive s t = Some (z', fd)" for z z' fd
    using that by auto
  with SetTimer assms(1) show ?thesis by (auto simp: timers_inv_def split: option.splits)
qed (use assms functor_inv in simp)

lemma timers_run_inv: "timers_inv s \<Longrightarrow> unreused s xs \<Longrightarrow> timers_inv (run_steps timers_step s xs)"
proof (induction xs arbitrary: s)
  case (Cons x xs)
  then show ?case using timers_step_inv [of s x] by simp
qed simp

text \<open>C36. Timers made, set, stopped and destroyed in any order, with the removals run by the
  loop at any time: as long as no descriptor is used again before the removal of its old
  timer has run, the kernel watches exactly the descriptors of the timers that exist, each
  for its own timer, and once all removals have run so does the poller's map.\<close>

theorem live_timers_watched:
  assumes "unreused newTimers xs"
  shows "let s = run_steps timers_step newTimers xs in
     (\<forall>fd t. kernel s fd = Some t \<longleftrightarrow> (\<exists>x. alive s t = Some (x, fd)))
     \<and> (functors s = [] \<longrightarrow> poll_events (m_poll (t_loop s)) = kernel s)"
proof -
  let ?s = "run_steps timers_step newTimers xs"
  have reg: "registry (poll_events (m_poll (t_loop ?s))) (map_option watchingFd \<circ> events ?s) (kernel ?s)
     (map_option snd \<circ> alive ?s) (functors ?s) (nextTimer ?s)"
    using timers_run_inv [OF timers_inv_new assms] by (simp add: timers_inv_def)
  then have "kernel ?s fd = Some t \<longleftrightarrow> (\<exists>x. alive ?s t = Some (x, fd))" for fd t
    using registryD(2) [OF reg, of fd t] by auto
  moreover have "poll_events (m_poll (t_loop ?s)) = kernel ?s" if "functors ?s = []"
    using reg that by (simp add: registry_settled)
  ultimately show ?thesis by (auto simp: Let_def)
qed

theorem live_timers_watched_witness:
  "kernel (run_steps timers_step newTimers [MakeTimer 7, DestroyTimer 0, MakeTimer 8, RunFunctor]) 8 = Some 1"
proof -
  let ?xs = "[MakeTimer 7, DestroyTimer 0, MakeTimer 8, RunFunctor]"
  have "unreused newTimers ?xs"
    by (simp add: newTimers_def newEventLoop_def newEpoll_def makeTimer_def on_poll_add destroyTimer_def
        handler_remove_def newEpollEvent_fd)
  note this [THEN live_timers_watched, unfolded Let_def]
  moreover have "alive (run_steps timers_step newTimers ?xs) 1 = Some (newTimer, 8)"
    by (simp add: newTimers_def newEventLoop_def newEpoll_def makeTimer_def on_poll_add destroyTimer_def
        handler_remove_def newEpollEvent_fd run_functor_def on_poll_disable)
  ultimately show ?thesis by blast
qed

text \<open>The kernel gives out the lowest free descriptor, so a timer made right after another one
  was destroyed gets its descriptor. Its registration is then a modification that the
  kernel refuses, and the pending removal erases it from the poller: the new timer exists
  and is watched by nobody, whatever its settings.\<close>

lemma reused_descriptor_unwatched:
  assumes "timers_inv s" "functors s = []" "alive s t = Some (x, fd)"
  shows "let s' = run_steps timers_step s [DestroyTimer t, MakeTimer fd, RunFunctor] in
     alive s' (nextTimer s) = Some (newTimer, fd) \<and> kernel s' fd = None
     \<and> poll_events (m_poll (t_loop s')) fd = None \<and> functors s' = []"
proof -
  note R = registryD [OF assms(1) [unfolded timers_inv_def]]
  obtain e where e: "events s t = Some e" "watchingFd e = fd" using R(3) [of t fd] assms(3) by auto
  then have p: "poll_events (m_poll (t_loop s)) fd = Some t" using R(1) [of fd t] by simp
  have t: "t < nextTimer s" using R(7) e(1) by auto
  let ?d = "(handler_remove t s)\<lparr>alive := (alive s)(t := None), kernel := (kernel s)(fd := None)\<rparr>"
  have d: "destroyTimer t s = Some ?d" using assms(3) by (simp add: destroyTimer_def)
  let ?m = "makeTimer fd ?d"
  have m: "poll_events (m_poll (t_loop ?m)) fd = Some (nextTimer s)" "kernel ?m fd = None"
    "events ?m t = Some e" "functors ?m = [t]" "alive ?m (nextTimer s) = Some (newTimer, fd)"
    using p e t assms(2)
    by (simp_all add: makeTimer_def on_poll_def event_active_def updateEvent_def newEpollEvent_fd
        stub_epoll_ctl_def handler_remove_def Let_def)
  then show ?thesis
    using d e(2) by (simp add: run_functor_def on_poll_disable remove_handler_def Let_def)
qed

theorem reused_descriptor_unwatched_witness:
  "kernel (run_steps timers_step newTimers [MakeTimer 7, DestroyTimer 0, MakeTimer 7, RunFunctor]) 7 = None"
proof -
  let ?s = "makeTimer 7 newTimers"
  have "timers_inv ?s" by (rule make_inv [OF timers_inv_new]) (simp add: newTimers_def)
  moreover have "functors ?s = []" "alive ?s 0 = Some (newTimer, 7)"
    by (simp_all add: makeTimer_def on_poll_add newTimers_def newEventLoop_def newEpoll_def)
  ultimately show ?thesis
    using reused_descriptor_unwatched [of ?s 0 newTimer 7] by (simp add: Let_def)
qed

text \<open>
  A timer destroyed by another handler while its own event waits in the same round of the
  loop is used after it is gone: the functor keeps the handler, and the handler follows
  its pointer to the timer.
\<close>

lemma destroyed_timer_used:
  assumes "timers_inv s" "alive s t = Some (x, fd)" "destroyTimer t s = Some s'"
  shows "events s' t \<noteq> None \<and> timer_event t calls s' = None"
proof -
  have "events s t \<noteq> None"
    using registryD(3) [OF assms(1) [unfolded timers_inv_def], of t fd] assms(2) by auto
  then show ?thesis
    using assms(2,3) by (auto simp: destroyTimer_def timer_event_def handler_remove_def bind_eq_None_conv)
qed

lemma live_timer_fires:
  assumes "timers_inv s" "alive s t = Some (x, fd)" "calls 0 = SysOk 8"
  shows "timer_event t calls s = Some (s\<lparr>fired := fired s @ [t]\<rparr>)"
proof -
  obtain e where "events s t = Some e"
    using registryD(3) [OF assms(1) [unfolded timers_inv_def], of t fd] assms(2) by auto
  then show ?thesis
    using assms(2,3) by (simp add: timer_event_def timer_handleIn_def stub_read_def restart_stops)
qed

end
