(* ===== verification/Events.thy ===== *)
theory Events
  imports ThreadPool
begin

text \<open>
  The user's callbacks (\<^verbatim>\<open>src/Events.cpp\<close>, \<^verbatim>\<open>include/Events.h\<close>). A
  callback is a number and an event its argument; what \<^verbatim>\<open>on...\<close> does is the
  pair of the calls made at once and the calls handed to the pool, in order.
\<close>

datatype event_kind = Connected | MessageReceived | WriteCompleted | Disconnect | ErrorEvent | SignalEvent

record Events =
  callbacks :: "event_kind \<rightharpoonup> nat"
  m_eventsPool :: "nat option"

definition newEvents :: Events where
  "newEvents = \<lparr>callbacks = Map.empty, m_eventsPool = None\<rparr>"

definition bindCallback :: "event_kind \<Rightarrow> nat \<Rightarrow> Events \<Rightarrow> Events" where
  "bindCallback k cb s = s\<lparr>callbacks := (callbacks s)(k \<mapsto> cb)\<rparr>"

text \<open>\<^verbatim>\<open>initThread\<close>: a pool only for a positive count.\<close>

definition initThread :: "int \<Rightarrow> Events \<Rightarrow> Events" where
  "initThread threadsCount s =
     (if threadsCount > 0 then s\<lparr>m_eventsPool := Some (nat threadsCount)\<rparr> else s)"

text \<open>The constructor binds the methods that the user's class has.\<close>

definition eventsFor :: "(event_kind \<times> nat) list \<Rightarrow> int \<Rightarrow> Events" where
  "eventsFor methods threads = initThread threads (fold (\<lambda>(k, cb). bindCallback k cb) methods newEvents)"

datatype 'a delivery = Direct nat 'a | Pooled nat 'a

definition raise_event :: "event_kind \<Rightarrow> 'a \<Rightarrow> Events \<Rightarrow> 'a delivery list" where
  "raise_event k arg s = (case callbacks s k of
     None \<Rightarrow> []
   | Some cb \<Rightarrow> (case m_eventsPool s of Some _ \<Rightarrow> [Pooled cb arg] | None \<Rightarrow> [Direct cb arg]))"

lemma fold_bind_callbacks:
  "callbacks (fold (\<lambda>(k, cb). bindCallback k cb) ms s) k
     = (case map_of (rev ms) k of Some cb \<Rightarrow> Some cb | None \<Rightarrow> callbacks s k)"
  by (induction ms arbitrary: s)
     (auto simp: bindCallback_def map_add_def split: option.splits prod.splits)

lemma fold_bind_pool: "m_eventsPool (fold (\<lambda>(k, cb). bindCallback k cb) ms s) = m_eventsPool s"
  by (induction ms arbitrary: s) (auto simp: bindCallback_def)

text \<open>An event reaches the user's method of its kind exactly once and no other; in the pool
  exactly when a positive number of threads was asked for; and not at all when the class has
  no such method.\<close>

lemma events_reach_user:
  "raise_event k arg (eventsFor methods threads)
     = (case map_of (rev methods) k of
          None \<Rightarrow> []
        | Some cb \<Rightarrow> if threads > 0 then [Pooled cb arg] else [Direct cb arg])"
  by (simp add: raise_event_def eventsFor_def initThread_def fold_bind_callbacks fold_bind_pool
        newEvents_def split: option.split)

end
