(* ===== verification/PooledEvents.thy ===== *)
theory PooledEvents
  imports Events PooledTask
begin

text \<open>
  Events handled in the pool: \<^verbatim>\<open>Events::on...\<close> of \<^verbatim>\<open>src/Events.cpp\<close> on top of
  \<^verbatim>\<open>ThreadPool::run\<close>. A task is the number of the event, the callback and its
  argument. The constructor of \<^verbatim>\<open>Events\<close> makes the pool and starts it once.
\<close>

type_synonym 'a event_task = "nat \<times> nat \<times> 'a"

definition deliver :: "nat \<Rightarrow> 'a delivery \<Rightarrow> 'a event_task task_action list" where
  "deliver n d = (case d of Pooled cb arg \<Rightarrow> submit (n, cb, arg) | Direct cb arg \<Rightarrow> [])"

text \<open>What a loop's thread does to the pool when it raises events one after the other.\<close>

fun raise_all :: "Events \<Rightarrow> nat \<Rightarrow> (event_kind \<times> 'a) list \<Rightarrow> 'a event_task task_action list" where
  "raise_all E n [] = []"
| "raise_all E n ((k, arg) # evs) = concat (map (deliver n) (raise_event k arg E)) @ raise_all E (n + 1) evs"

text \<open>The pushes in a run, and the calls of \<^verbatim>\<open>start\<close>.\<close>

fun pushes :: "'t task_action list \<Rightarrow> 't list" where
  "pushes [] = []"
| "pushes (Pool (AddPush t) # es) = t # pushes es"
| "pushes (e # es) = pushes es"

definition start_calls :: "'t task_action list \<Rightarrow> nat" where
  "start_calls es = length (filter (\<lambda>e. case e of Pool StartCall \<Rightarrow> True | _ \<Rightarrow> False) es)"

lemma pushes_append [simp]: "pushes (xs @ ys) = pushes xs @ pushes ys"
  by (induction xs rule: pushes.induct) auto

lemma run_histories:
  "task_run outcome es s = Some s' \<Longrightarrow>
   pushOrder s' = pushOrder s @ pushes es \<and> threadNumber (pool s') = threadNumber (pool s)
     \<and> starts (pool s') = starts (pool s) + start_calls es"
proof (induction es arbitrary: s rule: pushes.induct)
  case 1
  then show ?case by (simp add: start_calls_def)
qed (auto simp: start_calls_def split: pool_event_cases worker_event.splits)

text \<open>The tasks of a list of events: each has the callback that the user's class binds to its
  kind; events without one have no task.\<close>

fun event_tasks :: "(event_kind \<rightharpoonup> nat) \<Rightarrow> nat \<Rightarrow> (event_kind \<times> 'a) list \<Rightarrow> 'a event_task list" where
  "event_tasks M n [] = []"
| "event_tasks M n ((k, arg) # evs) =
     (case M k of None \<Rightarrow> [] | Some cb \<Rightarrow> [(n, cb, arg)]) @ event_tasks M (n + 1) evs"

lemma pushes_raise_all:
  "0 < threads \<Longrightarrow> pushes (raise_all (eventsFor methods threads) n evs) = event_tasks (map_of (rev methods)) n evs"
  by (induction evs arbitrary: n)
     (auto simp: events_reach_user deliver_def submit_def split: option.splits)

text \<open>C16. The user's events in a pool of one thread: however the loop's thread, raising events one
  after the other, and the worker interleave, the callbacks are called in the order in
  which the events were raised, each the one that the user's class binds to the kind of
  the event and with its argument.\<close>

theorem pooled_events_in_order:
  assumes "task_run outcome es (newTaskPool hc 1) = Some s" "start_calls es \<le> 1"
    and "pushes es = pushes (raise_all (eventsFor methods 1) 0 evs)"
  shows "prefix (callOrder s) (event_tasks (map_of (rev methods)) 0 evs)"
proof -
  have r: "task_reachable outcome hc 1 s" using task_run_reaches [OF task_reachable.start assms(1)] .
  have h: "pushOrder s = pushes es" "threadNumber (pool s) = 1" "starts (pool s) = start_calls es"
    using run_histories [OF assms(1)] by (simp_all add: newTaskPool_def newThreadPool_def)
  have "threadCount (pool s) \<le> starts (pool s) * threadNumber (pool s)"
    using pool_reachable_inv [OF task_reachable_pool [OF r]] by (auto simp: pool_inv_def)
  then have "threadCount (pool s) \<le> 1" using h assms(2) by simp
  then have "prefix (callOrder s) (pushOrder s)"
    using task_reachable_order_inv [OF r] by (auto simp: order_inv_def intro: prefix_prefix)
  then show ?thesis using h(1) assms(3) pushes_raise_all [of 1 methods 0 evs] by simp
qed

lemma pooled_events_in_order_witness:
  "prefix (callOrder (the (task_run Inl (one_task_run (0, 7, ''x'')) (newTaskPool 8 1)
      :: (nat \<times> nat \<times> string, nat \<times> nat \<times> string, unit) TaskPool option)))
     (event_tasks [Connected \<mapsto> 7] 0 [(Connected, ''x''), (Disconnect, ''y'')])"
proof -
  let ?run = "task_run Inl (one_task_run (0, 7, ''x'')) (newTaskPool 8 1)
      :: (nat \<times> nat \<times> string, nat \<times> nat \<times> string, unit) TaskPool option"
  have r: "?run = Some (the ?run)"
    by (simp add: one_task_run_def newTaskPool_def newThreadPool_def busy_def tsq_push_def tsq_tryPop_def)
  have "prefix (callOrder (the ?run))
      (event_tasks (map_of (rev [(Connected, 7)])) 0 [(Connected, ''x''), (Disconnect, ''y'')])"
    by (rule pooled_events_in_order [OF r])
       (simp_all add: one_task_run_def start_calls_def deliver_def submit_def events_reach_user)
  then show ?thesis by simp
qed

end
