(* ===== verification/Signals.thy ===== *)
theory Signals
  imports Stub
begin

text \<open>
  Signals (\<^verbatim>\<open>src/signal/\<close>, \<^verbatim>\<open>src/internal/handlers/SignalHandler.cpp\<close>): the
  enumeration and its numbers on Linux, the watcher's set and the handler that turns the
  records read from the signal descriptor into user events.
\<close>

datatype (plugins only: code size) Signals =
    E_HUP | E_INT | E_QUIT | E_ILL | E_TRAP | E_ABRT | E_BUS | E_FPE | E_USR1 | E_SEGV | E_USR2
  | E_PIPE | E_ALRM | E_TERM | E_STKFLT | E_CHLD | E_CONT | E_TSTP | E_TTIN | E_TTOU | E_URG
  | E_XCPU | E_XFSZ | E_VTALRM | E_PROF | E_WINCH | E_IO | E_PWR | E_SYS

definition all_signals :: "Signals list" where
  "all_signals = [E_HUP, E_INT, E_QUIT, E_ILL, E_TRAP, E_ABRT, E_BUS, E_FPE, E_USR1, E_SEGV, E_USR2,
     E_PIPE, E_ALRM, E_TERM, E_STKFLT, E_CHLD, E_CONT, E_TSTP, E_TTIN, E_TTOU, E_URG, E_XCPU, E_XFSZ,
     E_VTALRM, E_PROF, E_WINCH, E_IO, E_PWR, E_SYS]"

fun toLinuxSignal :: "Signals \<Rightarrow> int" where
  "toLinuxSignal E_HUP = 1" | "toLinuxSignal E_INT = 2" | "toLinuxSignal E_QUIT = 3"
| "toLinuxSignal E_ILL = 4" | "toLinuxSignal E_TRAP = 5" | "toLinuxSignal E_ABRT = 6"
| "toLinuxSignal E_BUS = 7" | "toLinuxSignal E_FPE = 8" | "toLinuxSignal E_USR1 = 10"
| "toLinuxSignal E_SEGV = 11" | "toLinuxSignal E_USR2 = 12" | "toLinuxSignal E_PIPE = 13"
| "toLinuxSignal E_ALRM = 14" | "toLinuxSignal E_TERM = 15" | "toLinuxSignal E_STKFLT = 16"
| "toLinuxSignal E_CHLD = 17" | "toLinuxSignal E_CONT = 18" | "toLinuxSignal E_TSTP = 20"
| "toLinuxSignal E_TTIN = 21" | "toLinuxSignal E_TTOU = 22" | "toLinuxSignal E_URG = 23"
| "toLinuxSignal E_XCPU = 24" | "toLinuxSignal E_XFSZ = 25" | "toLinuxSignal E_VTALRM = 26"
| "toLinuxSignal E_PROF = 27" | "toLinuxSignal E_WINCH = 28" | "toLinuxSignal E_IO = 29"
| "toLinuxSignal E_PWR = 30" | "toLinuxSignal E_SYS = 31"

text \<open>The \<^verbatim>\<open>switch\<close> over the numbers of the enumeration, with its default.\<close>

definition toNetppSignal :: "int \<Rightarrow> Signals" where
  "toNetppSignal sig =
     (case List.find (\<lambda>s. toLinuxSignal s = sig) all_signals of Some s \<Rightarrow> s | None \<Rightarrow> E_HUP)"

definition signalAsString :: "int \<Rightarrow> (int \<Rightarrow> string) \<Rightarrow> int \<Rightarrow> string" where
  "signalAsString sigrtmax sigdescr sig = (if sig < 0 \<or> sigrtmax < sig then [] else sigdescr sig)"

lemma all_signals_complete: "s \<in> set all_signals"
  by (cases s) (simp_all add: all_signals_def)

text \<open>Every watched signal comes back as itself; every other number, among them those of
  the real-time signals, is reported as a hang-up.\<close>

lemma signal_roundtrip:
  "toNetppSignal (toLinuxSignal s) = s
   \<and> (n \<notin> toLinuxSignal ` set all_signals \<longrightarrow> toNetppSignal n = E_HUP)"
proof
  show "toNetppSignal (toLinuxSignal s) = s"
    by (cases s) (simp_all add: toNetppSignal_def all_signals_def)
  show "n \<notin> toLinuxSignal ` set all_signals \<longrightarrow> toNetppSignal n = E_HUP"
    by (auto simp: toNetppSignal_def find_Some_iff split: option.splits)
qed

lemma signal_roundtrip_witness: "toNetppSignal 34 = E_HUP"
  using signal_roundtrip [of E_HUP 34] by (simp add: all_signals_def)

subsection \<open>\<^verbatim>\<open>SignalWatcher\<close> and \<^verbatim>\<open>SignalHandler\<close>\<close>

text \<open>\<open>kernel_set\<close> is the set last given to \<^verbatim>\<open>signalfd\<close>; \<open>handler\<close> is the loop
  of the current handler and \<open>stopped\<close> those of the handlers that were replaced.\<close>

record SignalWatcher =
  signalFd :: int
  m_watchingSignals :: "int set"
  kernel_set :: "int set"
  m_signalHandler :: "nat option"
  stopped :: "nat list"

definition initialWatcher :: SignalWatcher where
  "initialWatcher = \<lparr>signalFd = - 1, m_watchingSignals = {}, kernel_set = {}, m_signalHandler = None, stopped = []\<rparr>"

definition enableWatchSignal :: "bool \<Rightarrow> int \<Rightarrow> SignalWatcher \<Rightarrow> SignalWatcher" where
  "enableWatchSignal first fd w =
     (if first then w\<lparr>m_watchingSignals := {}, kernel_set := {}, signalFd := fd\<rparr> else w)"

definition with_handler :: "nat \<Rightarrow> SignalWatcher \<Rightarrow> SignalWatcher" where
  "with_handler loop w = w\<lparr>stopped := stopped w @ (case m_signalHandler w of None \<Rightarrow> [] | Some h \<Rightarrow> [h]),
     m_signalHandler := Some loop\<rparr>"

definition watch :: "Signals \<Rightarrow> SignalWatcher \<Rightarrow> SignalWatcher" where
  "watch s w =
     (if signalFd w \<noteq> - 1
      then let S = insert (toLinuxSignal s) (m_watchingSignals w) in w\<lparr>m_watchingSignals := S, kernel_set := S\<rparr>
      else w)"

definition restore :: "Signals \<Rightarrow> SignalWatcher \<Rightarrow> SignalWatcher" where
  "restore s w =
     (if signalFd w \<noteq> - 1
      then let S = m_watchingSignals w - {toLinuxSignal s} in w\<lparr>m_watchingSignals := S, kernel_set := S\<rparr>
      else w)"

definition isWatching_number :: "int \<Rightarrow> SignalWatcher \<Rightarrow> bool" where
  "isWatching_number n w = (if signalFd w \<noteq> - 1 then n \<in> m_watchingSignals w else False)"

definition isWatching :: "Signals \<Rightarrow> SignalWatcher \<Rightarrow> bool" where
  "isWatching s w = isWatching_number (toLinuxSignal s) w"

definition siginfo_size :: nat where
  "siginfo_size = 128"

text \<open>\<^verbatim>\<open>handleIn\<close>: \<open>signos\<close> are the numbers in the array of 20 records that
  \<^verbatim>\<open>read\<close> has filled; reading past it is \<^term>\<open>None\<close>. The result is the events
  for the user.\<close>

definition signal_handleIn :: "(nat \<Rightarrow> sysret) \<Rightarrow> int list \<Rightarrow> SignalWatcher \<Rightarrow> Signals list option" where
  "signal_handleIn calls signos w = do {
     readBytes \<leftarrow> stub_read calls;
     if readBytes \<noteq> - 1 then
       let readNum = nat readBytes div siginfo_size in
       if readNum \<le> 20
       then Some (map toNetppSignal (filter (\<lambda>n. isWatching_number n w) (take readNum signos)))
       else None
     else Some []
   }"

text \<open>
  The watcher as a machine over its operations. The start is a program that has not
  enabled signals.
\<close>

datatype watcher_op = EnableWatch int | WithHandler nat | Watch Signals | Restore Signals

definition watcher_step :: "bool \<times> SignalWatcher \<Rightarrow> watcher_op \<Rightarrow> bool \<times> SignalWatcher" where
  "watcher_step s oper = (case oper of
     EnableWatch fd \<Rightarrow> (True, enableWatchSignal (\<not> fst s) fd (snd s))
   | WithHandler l \<Rightarrow> (fst s, with_handler l (snd s))
   | Watch g \<Rightarrow> (fst s, watch g (snd s))
   | Restore g \<Rightarrow> (fst s, restore g (snd s)))"

definition watcher_inv :: "bool \<times> SignalWatcher \<Rightarrow> bool" where
  "watcher_inv s \<longleftrightarrow> kernel_set (snd s) = m_watchingSignals (snd s)
     \<and> m_watchingSignals (snd s) \<subseteq> toLinuxSignal ` set all_signals
     \<and> (signalFd (snd s) = - 1 \<longrightarrow> m_watchingSignals (snd s) = {})"

lemma watcher_step_inv: "watcher_inv s \<Longrightarrow> watcher_inv (watcher_step s oper)"
  using all_signals_complete
  by (cases oper)
     (auto simp: watcher_inv_def watcher_step_def enableWatchSignal_def with_handler_def watch_def
        restore_def Let_def)

interpretation watcher: machine "\<lambda>s. s = (False, initialWatcher)" watcher_step watcher_inv
  by unfold_locales (simp_all add: watcher_step_inv, simp add: watcher_inv_def initialWatcher_def)

lemma toLinuxSignal_inj: "toLinuxSignal s = toLinuxSignal t \<longleftrightarrow> s = t"
proof
  assume a: "toLinuxSignal s = toLinuxSignal t"
  have r: "toNetppSignal (toLinuxSignal u) = u" for u
    by (cases u) (simp_all add: toNetppSignal_def all_signals_def)
  have "s = toNetppSignal (toLinuxSignal s)" by (rule r [symmetric])
  also have "\<dots> = toNetppSignal (toLinuxSignal t)" by (simp only: a)
  also have "\<dots> = t" by (rule r)
  finally show "s = t" .
qed simp

text \<open>In every run of the watcher the descriptor's set is the watched set and holds only
  signals of the enumeration; while the descriptor exists, watching a signal makes exactly it
  watched and restoring it makes exactly it unwatched.\<close>

lemma watcher_tracks_signals:
  assumes "w = snd (run_steps watcher_step (False, initialWatcher) ops)" "signalFd w \<noteq> - 1"
  shows "kernel_set w = m_watchingSignals w
     \<and> m_watchingSignals w \<subseteq> toLinuxSignal ` set all_signals
     \<and> isWatching t (watch s w) = (t = s \<or> isWatching t w)
     \<and> isWatching t (restore s w) = (t \<noteq> s \<and> isWatching t w)"
proof -
  have i: "watcher_inv (run_steps watcher_step (False, initialWatcher) ops)"
    by (rule watcher.run_initial_inv) (rule refl)
  have k: "kernel_set w = m_watchingSignals w" "m_watchingSignals w \<subseteq> toLinuxSignal ` set all_signals"
    using i unfolding watcher_inv_def assms(1) by blast+
  have "isWatching t (watch s w) = (t = s \<or> isWatching t w)"
    using assms(2) by (simp add: isWatching_def isWatching_number_def watch_def Let_def toLinuxSignal_inj)
  moreover have "isWatching t (restore s w) = (t \<noteq> s \<and> isWatching t w)"
    using assms(2) by (auto simp: isWatching_def isWatching_number_def restore_def Let_def toLinuxSignal_inj)
  ultimately show ?thesis using k by blast
qed

lemma watcher_tracks_signals_witness:
  "isWatching E_INT (watch E_INT (snd (run_steps watcher_step (False, initialWatcher) [EnableWatch 7])))"
proof -
  have "signalFd (snd (run_steps watcher_step (False, initialWatcher) [EnableWatch 7])) \<noteq> - 1"
    by (simp add: watcher_step_def enableWatchSignal_def initialWatcher_def)
  from watcher_tracks_signals [OF refl this, of E_INT E_INT] show ?thesis by simp
qed

text \<open>Reading the signal descriptor delivers exactly the watched signals of the records
  read, in order; numbers that are not watched never reach the user, and the array of 20
  records is never overrun when the kernel keeps to the size it was given.\<close>

lemma signal_handleIn_delivers:
  assumes "stub_read calls = Some n" "n \<noteq> - 1" "0 \<le> n" "n \<le> 20 * int siginfo_size"
  shows "signal_handleIn calls signos w
     = Some (map toNetppSignal (filter (\<lambda>x. isWatching_number x w) (take (nat n div siginfo_size) signos)))"
proof -
  have "nat n div siginfo_size \<le> 20"
  proof -
    have "nat n \<le> 20 * siginfo_size" using assms(3,4) by simp
    then have "nat n div siginfo_size \<le> (20 * siginfo_size) div siginfo_size" by (rule div_le_mono)
    then show ?thesis by (simp add: siginfo_size_def)
  qed
  with assms(1,2) show ?thesis by (simp add: signal_handleIn_def)
qed

lemma signal_handleIn_delivers_witness:
  "signal_handleIn (\<lambda>_. SysOk 256) [2, 34, 15]
     \<lparr>signalFd = 7, m_watchingSignals = {2}, kernel_set = {2}, m_signalHandler = Some 0, stopped = []\<rparr>
   = Some [E_INT]"
proof -
  have "stub_read (\<lambda>_. SysOk 256) = Some 256" by (simp add: stub_read_def restart_stops)
  from signal_handleIn_delivers [OF this, of "[2, 34, 15]"] show ?thesis
    by (simp add: siginfo_size_def isWatching_number_def toNetppSignal_def all_signals_def)
qed

subsection \<open>The thread that handles the other signals\<close>

text \<open>
  \<^verbatim>\<open>enableWatchSignal\<close> blocks all signals and starts a thread that blocks the watched
  signals only, so that the others reach it and are handled by default. The thread holds
  the mutex except while it waits for a notification; it is about to set its mask, or it
  waits. A wait may also end without a notification.
\<close>

datatype thread_pc = NotStarted | Masking | Waiting

record SignalThread =
  watcher_state :: "bool \<times> SignalWatcher"
  thread_pc :: thread_pc
  thread_mask :: "int set"

definition newSignalThread :: SignalThread where
  "newSignalThread = \<lparr>watcher_state = (False, initialWatcher), thread_pc = NotStarted, thread_mask = {}\<rparr>"

datatype thread_op = CallWatcher watcher_op | ThreadRuns | WakesUp

definition all_signal_numbers :: "int set" where
  "all_signal_numbers = {1..64}"

definition notifies :: "bool \<times> SignalWatcher \<Rightarrow> watcher_op \<Rightarrow> bool" where
  "notifies w x = (case x of Watch g \<Rightarrow> signalFd (snd w) \<noteq> - 1 | Restore g \<Rightarrow> signalFd (snd w) \<noteq> - 1 | _ \<Rightarrow> False)"

definition starts_thread :: "bool \<times> SignalWatcher \<Rightarrow> watcher_op \<Rightarrow> bool" where
  "starts_thread w x = (case x of EnableWatch fd \<Rightarrow> \<not> fst w \<and> fd \<noteq> - 1 | _ \<Rightarrow> False)"

fun thread_step :: "SignalThread \<Rightarrow> thread_op \<Rightarrow> SignalThread" where
  "thread_step s (CallWatcher x) =
     (let w = watcher_state s;
          s = s\<lparr>watcher_state := watcher_step w x\<rparr>
      in if starts_thread w x then s\<lparr>thread_pc := Masking, thread_mask := all_signal_numbers\<rparr>
         else if notifies w x \<and> thread_pc s = Waiting then s\<lparr>thread_pc := Masking\<rparr> else s)"
| "thread_step s ThreadRuns =
     (if thread_pc s = Masking
      then s\<lparr>thread_mask := m_watchingSignals (snd (watcher_state s)), thread_pc := Waiting\<rparr> else s)"
| "thread_step s WakesUp = (if thread_pc s = Waiting then s\<lparr>thread_pc := Masking\<rparr> else s)"

definition thread_inv :: "SignalThread \<Rightarrow> bool" where
  "thread_inv s \<longleftrightarrow> watcher_inv (watcher_state s)
     \<and> (thread_pc s = Waiting \<longrightarrow> thread_mask s = m_watchingSignals (snd (watcher_state s)))
     \<and> (thread_pc s \<noteq> NotStarted \<longrightarrow> fst (watcher_state s))
     \<and> (signalFd (snd (watcher_state s)) \<noteq> - 1 \<longrightarrow> thread_pc s \<noteq> NotStarted)"

lemma thread_call_inv:
  assumes "thread_inv s"
  shows "thread_inv (thread_step s (CallWatcher x))"
  using assms watcher_step_inv [of "watcher_state s" x]
  by (cases x)
     (auto simp: thread_inv_def Let_def starts_thread_def notifies_def watcher_step_def enableWatchSignal_def
        with_handler_def watch_def restore_def)

lemma thread_step_inv: "thread_inv s \<Longrightarrow> thread_inv (thread_step s x)"
  using thread_call_inv by (cases x) (auto simp: thread_inv_def)

interpretation signal_thread: machine "\<lambda>s. s = newSignalThread" thread_step thread_inv
  by unfold_locales (auto simp: thread_step_inv,
      simp add: thread_inv_def newSignalThread_def watcher_inv_def initialWatcher_def)

text \<open>C37. In every interleaving of the watcher's operations with the thread, no change of the
  watched set is missed: whenever the thread waits, it blocks exactly the watched signals,
  and once there is a signal descriptor a single turn of the thread brings it there.\<close>

theorem unwatched_signals_unblocked:
  "let s = run_steps thread_step newSignalThread xs;
       s' = thread_step s ThreadRuns in
     (thread_pc s = Waiting \<longrightarrow> thread_mask s = m_watchingSignals (snd (watcher_state s)))
   \<and> (signalFd (snd (watcher_state s)) \<noteq> - 1 \<longrightarrow>
        thread_pc s' = Waiting \<and> thread_mask s' = m_watchingSignals (snd (watcher_state s')))"
proof -
  let ?s = "run_steps thread_step newSignalThread xs"
  have "thread_inv ?s" by (rule signal_thread.run_initial_inv) (rule refl)
  then show ?thesis
    by (cases "thread_pc ?s") (auto simp: Let_def thread_inv_def)
qed

theorem unwatched_signals_unblocked_witness:
  "thread_mask (thread_step (run_steps thread_step newSignalThread
     [CallWatcher (EnableWatch 7), ThreadRuns, CallWatcher (Watch E_INT)]) ThreadRuns) = {2}"
  using unwatched_signals_unblocked [of "[CallWatcher (EnableWatch 7), ThreadRuns, CallWatcher (Watch E_INT)]"]
  by (simp add: Let_def newSignalThread_def watcher_step_def enableWatchSignal_def initialWatcher_def
      starts_thread_def notifies_def watch_def)

end
