(* ===== verification/SignalHandler.thy ===== *)
theory SignalHandler
  imports Signals EventLoop
begin

text \<open>
  The handler of the signal descriptor in the event loops
  (\<^verbatim>\<open>src/internal/handlers/SignalHandler.cpp\<close>, \<^verbatim>\<open>SignalWatcher::with\<close>): replacing
  the handler queues the removal of the old one in its loop and the addition of the new
  one in a loop of the dispatcher. All handlers watch the same descriptor. Handlers are
  numbered, their epoll events have their number; each loop runs its functors in order,
  at any time.
\<close>

datatype signal_functor = AddSignal nat | StopSignal nat

record SignalLoops =
  sig_fd :: int
  sig_dispatcher :: EventLoopDispatcher
  sig_loops :: "nat \<Rightarrow> EventLoopImpl"
  sig_queues :: "nat \<Rightarrow> signal_functor list"
  sig_current :: "(nat \<times> nat) option"
  sig_next :: nat

definition newSignalLoops :: "int \<Rightarrow> nat \<Rightarrow> SignalLoops" where
  "newSignalLoops fd n = \<lparr>sig_fd = fd, sig_dispatcher = newDispatcher n, sig_loops = (\<lambda>_. newEventLoop),
     sig_queues = (\<lambda>_. []), sig_current = None, sig_next = 0\<rparr>"

fun run_signal_functor :: "int \<Rightarrow> signal_functor \<Rightarrow> EventLoopImpl \<Rightarrow> EventLoopImpl" where
  "run_signal_functor fd (AddSignal h) l =
     (let l = add_handler h l
      in l\<lparr>m_poll := snd (event_active h [EV_IN] (SysOk 0) (newEpollEvent fd, m_poll l))\<rparr>)"
| "run_signal_functor fd (StopSignal h) l =
     remove_handler h (l\<lparr>m_poll := snd (event_disable (SysOk 0) (newEpollEvent fd, m_poll l))\<rparr>)"

definition queue_in_loop :: "nat \<Rightarrow> signal_functor \<Rightarrow> SignalLoops \<Rightarrow> SignalLoops" where
  "queue_in_loop i f s = s\<lparr>sig_queues := (sig_queues s)(i := sig_queues s i @ [f])\<rparr>"

definition signal_stop :: "SignalLoops \<Rightarrow> SignalLoops" where
  "signal_stop s = (case sig_current s of None \<Rightarrow> s | Some (h, j) \<Rightarrow> queue_in_loop j (StopSignal h) s)"

definition makeSignalHandler :: "nat \<Rightarrow> SignalLoops \<Rightarrow> SignalLoops" where
  "makeSignalHandler i s =
     queue_in_loop i (AddSignal (sig_next s)) (s\<lparr>sig_current := Some (sig_next s, i), sig_next := sig_next s + 1\<rparr>)"

text \<open>\<^verbatim>\<open>with\<close>: undefined when the dispatcher has no loop.\<close>

definition watcher_with :: "SignalLoops \<Rightarrow> SignalLoops option" where
  "watcher_with s =
     (let s = signal_stop s; (i, d) = dispatchEventLoop (sig_dispatcher s) in
      map_option (\<lambda>i. makeSignalHandler i (s\<lparr>sig_dispatcher := d\<rparr>)) i)"

text \<open>One functor of loop \<open>i\<close>.\<close>

definition run_queue :: "nat \<Rightarrow> SignalLoops \<Rightarrow> SignalLoops" where
  "run_queue i s = (case sig_queues s i of [] \<Rightarrow> s
     | f # fs \<Rightarrow> s\<lparr>sig_queues := (sig_queues s)(i := fs),
         sig_loops := (sig_loops s)(i := run_signal_functor (sig_fd s) f (sig_loops s i))\<rparr>)"

datatype signal_op = With | RunQueue nat

fun signal_step :: "SignalLoops \<Rightarrow> signal_op \<Rightarrow> SignalLoops" where
  "signal_step s With = (case watcher_with s of None \<Rightarrow> s | Some s \<Rightarrow> s)"
| "signal_step s (RunQueue i) = run_queue i s"

text \<open>What loop \<open>i\<close> will be when its queue is empty.\<close>

definition settled :: "SignalLoops \<Rightarrow> nat \<Rightarrow> EventLoopImpl" where
  "settled s i = fold (run_signal_functor (sig_fd s)) (sig_queues s i) (sig_loops s i)"

text \<open>The handlers in a loop, and what its poller has for the signal descriptor.\<close>

definition has :: "int \<Rightarrow> EventLoopImpl \<Rightarrow> nat option \<Rightarrow> bool" where
  "has fd l h \<longleftrightarrow> m_handlers l = set_option h \<and> poll_events (m_poll l) fd = h"

definition signal_inv :: "SignalLoops \<Rightarrow> bool" where
  "signal_inv s \<longleftrightarrow> (\<forall>i. has (sig_fd s) (settled s i)
     (case sig_current s of None \<Rightarrow> None | Some (h, j) \<Rightarrow> if i = j then Some h else None))"

lemma has_add: "has fd l None \<Longrightarrow> has fd (run_signal_functor fd (AddSignal h) l) (Some h)"
  by (simp add: has_def add_handler_def event_active_def updateEvent_def newEpollEvent_def
      stub_epoll_ctl_def Let_def)

lemma has_stop: "has fd l (Some h) \<Longrightarrow> has fd (run_signal_functor fd (StopSignal h) l) None"
  by (simp add: has_def remove_handler_def event_disable_def removeEvent_def newEpollEvent_def
      stub_epoll_ctl_def Let_def)

lemma settled_queue:
  "settled (queue_in_loop i f s) j = (if j = i then run_signal_functor (sig_fd s) f (settled s j) else settled s j)"
  by (simp add: settled_def queue_in_loop_def)

lemma settled_fields [simp]:
  "settled (s\<lparr>sig_current := c\<rparr>) = settled s" "settled (s\<lparr>sig_next := n\<rparr>) = settled s"
  "settled (s\<lparr>sig_dispatcher := d\<rparr>) = settled s"
  by (simp_all add: settled_def fun_eq_iff)

lemma queue_fields [simp]:
  "sig_fd (queue_in_loop i f s) = sig_fd s" "sig_current (queue_in_loop i f s) = sig_current s"
  by (simp_all add: queue_in_loop_def)

lemma stop_settles:
  assumes "signal_inv s"
  shows "has (sig_fd s) (settled (signal_stop s) i) None" "sig_fd (signal_stop s) = sig_fd s"
proof -
  have h: "has (sig_fd s) (settled s i)
     (case sig_current s of None \<Rightarrow> None | Some (h, j) \<Rightarrow> if i = j then Some h else None)"
    using assms by (simp add: signal_inv_def)
  show "has (sig_fd s) (settled (signal_stop s) i) None"
    using h has_stop by (auto simp: signal_stop_def settled_queue split: option.splits if_splits)
  show "sig_fd (signal_stop s) = sig_fd s"
    by (simp add: signal_stop_def split: option.splits)
qed

lemma make_settles:
  assumes "\<And>i. has (sig_fd s) (settled s i) None"
  shows "signal_inv (makeSignalHandler i s)"
  using assms has_add by (simp add: signal_inv_def makeSignalHandler_def settled_queue)

lemma run_queue_settled: "settled (run_queue i s) = settled s" "sig_fd (run_queue i s) = sig_fd s"
  "sig_current (run_queue i s) = sig_current s"
  by (auto simp: run_queue_def settled_def fun_eq_iff split: list.splits)

lemma signal_step_inv: "signal_inv s \<Longrightarrow> signal_inv (signal_step s x)"
proof (cases x)
  case With
  assume inv: "signal_inv s"
  obtain i d where id: "dispatchEventLoop (sig_dispatcher (signal_stop s)) = (i, d)" by fastforce
  have "signal_inv (makeSignalHandler k ((signal_stop s)\<lparr>sig_dispatcher := d\<rparr>))" for k
    by (rule make_settles) (use stop_settles [OF inv] in simp)
  with With id inv show ?thesis by (cases i) (simp_all add: watcher_with_def Let_def)
next
  case (RunQueue i)
  assume "signal_inv s"
  with RunQueue show ?thesis by (simp add: signal_inv_def run_queue_settled)
qed

lemma signal_inv_new: "signal_inv (newSignalLoops fd n)"
  by (simp add: signal_inv_def has_def settled_def newSignalLoops_def newEventLoop_def newEpoll_def)

interpretation signals: machine "\<lambda>s. \<exists>fd n. s = newSignalLoops fd n" signal_step signal_inv
  by unfold_locales (auto simp: signal_step_inv signal_inv_new)

text \<open>C38. However often the signal handler is replaced and however the loops run in between: when
  the functors have run, the current handler is the only one left in any loop, and the
  signal descriptor is watched in its loop and in no other.\<close>

theorem one_signal_handler_left:
  assumes "s = run_steps signal_step (newSignalLoops fd n) xs" "\<forall>i. sig_queues s i = []"
  shows "m_handlers (sig_loops s i) = {h. sig_current s = Some (h, i)}
     \<and> poll_events (m_poll (sig_loops s i)) (sig_fd s)
       = (case sig_current s of None \<Rightarrow> None | Some (h, j) \<Rightarrow> if i = j then Some h else None)"
proof -
  have "signal_inv s" unfolding assms(1) by (rule signals.run_initial_inv) blast
  moreover have "settled s i = sig_loops s i" using assms(2) by (simp add: settled_def)
  ultimately have "has (sig_fd s) (sig_loops s i)
     (case sig_current s of None \<Rightarrow> None | Some (h, j) \<Rightarrow> if i = j then Some h else None)"
    by (metis signal_inv_def)
  then show ?thesis by (auto simp: has_def split: option.splits if_splits)
qed

theorem one_signal_handler_left_witness:
  "m_handlers (sig_loops (run_steps signal_step (newSignalLoops 7 1) [With, With, RunQueue 0, RunQueue 0, RunQueue 0]) 0)
     = {1}"
proof -
  let ?s = "run_steps signal_step (newSignalLoops 7 1) [With, With, RunQueue 0, RunQueue 0, RunQueue 0]"
  have "\<forall>i. sig_queues ?s i = []" "sig_current ?s = Some (1, 0)"
    by (simp_all add: newSignalLoops_def watcher_with_def signal_stop_def makeSignalHandler_def queue_in_loop_def
        run_queue_def dispatchEventLoop_def newDispatcher_def Let_def)
  with one_signal_handler_left [OF refl, of 7 1 "[With, With, RunQueue 0, RunQueue 0, RunQueue 0]" 0]
  show ?thesis by simp
qed

end
