(* ===== verification/Log.thy ===== *)
theory Log
  imports Prelude
begin

text \<open>
  Logging (\<^verbatim>\<open>src/internal/support/Log.cpp\<close>, \<^verbatim>\<open>include/internal/support/Log.h\<close>):
  the one global logger and who sets it. The logging library is not in the repository:
  a logger is a number, and \<open>lines\<close> are the messages handed to one. \<open>built\<close> says
  whether the program is built with logging.
\<close>

record Logging =
  logger :: "nat option"
  loggersMade :: nat
  lines :: "(nat \<times> string) list"

definition initialLogging :: Logging where
  "initialLogging = \<lparr>logger = None, loggersMade = 0, lines = []\<rparr>"

text \<open>\<^verbatim>\<open>std::call_once\<close> on a flag: the flag is set and the function runs unless it was.\<close>

definition call_once :: "bool \<Rightarrow> ('s \<Rightarrow> 's) \<Rightarrow> 's \<Rightarrow> bool \<times> 's" where
  "call_once flag f s = (True, if flag then s else f s)"

text \<open>The flag of \<^verbatim>\<open>initLogger\<close> is a local variable, so every call starts with a flag
  that is not set.\<close>

definition initLogger :: "bool \<Rightarrow> Logging \<Rightarrow> Logging" where
  "initLogger built s =
     (if built then snd (call_once False (\<lambda>s. s\<lparr>logger := Some (loggersMade s), loggersMade := loggersMade s + 1\<rparr>) s)
      else s)"

text \<open>The macros: nothing is logged while there is no logger.\<close>

definition log_macro :: "bool \<Rightarrow> string \<Rightarrow> Logging \<Rightarrow> Logging" where
  "log_macro built msg s =
     (if built then (case logger s of None \<Rightarrow> s | Some l \<Rightarrow> s\<lparr>lines := lines s @ [(l, msg)]\<rparr>) else s)"

text \<open>The logger is made once for every call, not once: a second \<^verbatim>\<open>startLoop\<close> replaces
  the logger.\<close>

lemma init_logger_each_time:
  "loggersMade ((initLogger True ^^ k) initialLogging) = k"
  "logger ((initLogger True ^^ Suc k) initialLogging) = Some k"
proof -
  show m: "loggersMade ((initLogger True ^^ k) initialLogging) = k" for k
    by (induction k) (simp_all add: initLogger_def call_once_def initialLogging_def)
  show "logger ((initLogger True ^^ Suc k) initialLogging) = Some k"
    using m [of k] by (simp add: initLogger_def call_once_def)
qed

text \<open>Messages before the first call, those of the constructors for example, are dropped.\<close>

lemma silent_before_init: "lines (fold (log_macro built) ms initialLogging) = []"
proof -
  have "log_macro built m initialLogging = initialLogging" for m
    by (simp add: log_macro_def initialLogging_def)
  then have "fold (log_macro built) ms initialLogging = initialLogging" by (induction ms) simp_all
  then show ?thesis by (simp add: initialLogging_def)
qed

end
