(* ===== verification/TcpConnection.thy ===== *)
theory TcpConnection
  imports Channel EventLoop Events TimeWheel
begin

text \<open>
  An established connection (\<^verbatim>\<open>src/internal/handlers/TcpConnection.cpp\<close>) with what
  its handlers change: its epoll event and the loop's poller, the loop's set of handlers,
  the time wheel, the shared channel, the functors waiting for the loop and the events
  raised for the user. A weak pointer to the connection can be locked while the loop holds
  it; one to a wheel entry while the wheel holds it. The result of \<^verbatim>\<open>epoll_ctl\<close>
  is ignored by the poller, so it is fixed here.
\<close>

datatype TcpState = Closed | Listen | Connecting | Established | HalfClose

datatype event_arg = ChannelArg | CodeArg SocketError

datatype loop_functor = SendFunctor | CloseFunctor

record Connection =
  connId :: nat
  eventId :: nat
  m_state :: TcpState
  m_isWaitWriting :: bool
  m_epollEvent :: EpollEvent
  m_connectionBufferChannel :: TcpChannel
  idleConnectionWheel :: "nat option"
  halfCloseWheel :: "nat option"
  writeShutdown :: bool

record World =
  conn :: Connection
  loop :: EventLoopImpl
  wheel :: "TimeWheel option"
  nextEntry :: nat
  pending :: "loop_functor list"
  raised :: "(event_kind \<times> event_arg) list"

definition set_state :: "TcpState \<Rightarrow> World \<Rightarrow> World" where
  "set_state s W = W\<lparr>conn := (conn W)\<lparr>m_state := s\<rparr>\<rparr>"

definition set_waiting :: "bool \<Rightarrow> World \<Rightarrow> World" where
  "set_waiting b W = W\<lparr>conn := (conn W)\<lparr>m_isWaitWriting := b\<rparr>\<rparr>"

definition set_channel :: "TcpChannel \<Rightarrow> World \<Rightarrow> World" where
  "set_channel c W = W\<lparr>conn := (conn W)\<lparr>m_connectionBufferChannel := c\<rparr>\<rparr>"

definition raise_user :: "event_kind \<Rightarrow> event_arg \<Rightarrow> World \<Rightarrow> World" where
  "raise_user k a W = W\<lparr>raised := raised W @ [(k, a)]\<rparr>"

definition with_event :: "(EpollEvent \<times> Epoll \<Rightarrow> EpollEvent \<times> Epoll) \<Rightarrow> World \<Rightarrow> World" where
  "with_event f W = (let (e, p) = f (m_epollEvent (conn W), m_poll (loop W)) in
     W\<lparr>conn := (conn W)\<lparr>m_epollEvent := e\<rparr>, loop := (loop W)\<lparr>m_poll := p\<rparr>\<rparr>)"

definition conn_active :: "EpollEv list \<Rightarrow> World \<Rightarrow> World" where
  "conn_active evs W = with_event (event_active (eventId (conn W)) evs (SysOk 0)) W"

definition conn_deactivate :: "EpollEv list \<Rightarrow> World \<Rightarrow> World" where
  "conn_deactivate evs W = with_event (event_deactivate (eventId (conn W)) evs (SysOk 0)) W"

definition conn_alive :: "World \<Rightarrow> bool" where
  "conn_alive W \<longleftrightarrow> connId (conn W) \<in> m_handlers (loop W)"

subsection \<open>Wheel entries\<close>

definition weak_alive :: "nat option \<Rightarrow> TimeWheel \<Rightarrow> bool" where
  "weak_alive r w = (case r of None \<Rightarrow> False | Some e \<Rightarrow> in_wheel e w)"

definition remove_weak :: "nat option \<Rightarrow> TimeWheel \<Rightarrow> TimeWheel option" where
  "remove_weak r w = (case r of None \<Rightarrow> Some w | Some e \<Rightarrow> removeFromWheel (in_wheel e w) e w)"

definition renew_weak :: "nat option \<Rightarrow> TimeWheel \<Rightarrow> TimeWheel option" where
  "renew_weak r w = (case r of None \<Rightarrow> Some w | Some e \<Rightarrow> renew (in_wheel e w) e w)"

definition renewWheel :: "World \<Rightarrow> World option" where
  "renewWheel W = (case wheel W of
     None \<Rightarrow> Some W
   | Some w \<Rightarrow> do {
       w \<leftarrow> (if weak_alive (idleConnectionWheel (conn W)) w
             then renew_weak (idleConnectionWheel (conn W)) w else Some w);
       w \<leftarrow> (if weak_alive (halfCloseWheel (conn W)) w
             then renew_weak (idleConnectionWheel (conn W)) w else Some w);
       Some (W\<lparr>wheel := Some w\<rparr>)
     })"

text \<open>What \<^verbatim>\<open>forceClose\<close> does to the wheel.\<close>

definition forget_entries :: "Connection \<Rightarrow> TimeWheel \<Rightarrow> TimeWheel option" where
  "forget_entries c w = do {
     w \<leftarrow> remove_weak (idleConnectionWheel c) w;
     remove_weak (halfCloseWheel c) w
   }"

subsection \<open>Handlers\<close>

definition forceClose :: "World \<Rightarrow> World option" where
  "forceClose W = do {
     W \<leftarrow> (case wheel W of
        None \<Rightarrow> Some W
      | Some w \<Rightarrow> map_option (\<lambda>w. W\<lparr>wheel := Some w\<rparr>) (forget_entries (conn W) w));
     let W = raise_user Disconnect ChannelArg W;
     let W = with_event (event_disable (SysOk 0)) W;
     let W = W\<lparr>loop := remove_handler (connId (conn W)) (loop W)\<rparr>;
     Some (set_state Closed W)
   }"

definition handleIn :: "(nat \<Rightarrow> sysret) \<Rightarrow> byte list \<Rightarrow> World \<Rightarrow> World option" where
  "handleIn calls data W = do {
     W \<leftarrow> renewWheel W;
     r \<leftarrow> channel_receive calls data (m_connectionBufferChannel (conn W));
     case r of
       Inr c \<Rightarrow> Some (raise_user MessageReceived ChannelArg (set_channel c W))
     | Inl x \<Rightarrow>
         let W = raise_user ErrorEvent (CodeArg (getErrorCode x)) W in
         (case x of SocketException _ \<Rightarrow> forceClose W | ResourceLimitException _ \<Rightarrow> Some W)
   }"

definition handleOut :: "(nat \<Rightarrow> sysret) \<Rightarrow> World \<Rightarrow> World option" where
  "handleOut calls W = do {
     W \<leftarrow> renewWheel W;
     r \<leftarrow> channel_transmit calls (m_connectionBufferChannel (conn W));
     case r of
       Inr (writeCompleted, c) \<Rightarrow>
         let W = set_channel c W in
         if writeCompleted then
           let W = conn_deactivate [EV_OUT] W;
               W = raise_user WriteCompleted ChannelArg W;
               W = set_waiting False W
           in if m_state (conn W) = HalfClose then forceClose W else Some W
         else Some W
     | Inl x \<Rightarrow>
         let W = raise_user ErrorEvent (CodeArg (getErrorCode x)) W in
         (case x of SocketException _ \<Rightarrow> forceClose (set_waiting False W)
          | ResourceLimitException _ \<Rightarrow> Some W)
   }"

definition handleRdhup :: "World \<Rightarrow> World option" where
  "handleRdhup W =
     (let W = conn_deactivate [EV_RDHUP, EV_IN] W in
      if m_state (conn W) = Established then
        let W = set_state HalfClose W in
        if \<not> m_isWaitWriting (conn W) then forceClose W else Some W
      else Some W)"

definition sendInLoop :: "World \<Rightarrow> World" where
  "sendInLoop W = W\<lparr>pending := pending W @ [SendFunctor]\<rparr>"

definition closeAfterWriteCompleted :: "World \<Rightarrow> World" where
  "closeAfterWriteCompleted W = W\<lparr>pending := pending W @ [CloseFunctor]\<rparr>"

text \<open>The bodies of the two functors. A new wheel entry gets the next unused number.\<close>

definition run_send :: "World \<Rightarrow> World" where
  "run_send W = (if conn_alive W then conn_active [EV_OUT] (set_waiting True W) else W)"

definition run_close :: "World \<Rightarrow> World" where
  "run_close W =
     (if conn_alive W \<and> m_state (conn W) = Established then
        let W = set_state HalfClose W in
        if \<not> m_isWaitWriting (conn W) then
          let W = W\<lparr>conn := (conn W)\<lparr>writeShutdown := True\<rparr>\<rparr>;
              W = conn_deactivate [EV_RDHUP] W
          in case wheel W of
               None \<Rightarrow> W
             | Some w \<Rightarrow> W\<lparr>conn := (conn W)\<lparr>halfCloseWheel := Some (nextEntry W)\<rparr>,
                   wheel := Some (addToWheel (nextEntry W) w), nextEntry := nextEntry W + 1\<rparr>
        else W
      else W)"

fun run_functor :: "loop_functor \<Rightarrow> World \<Rightarrow> World" where
  "run_functor SendFunctor W = run_send W"
| "run_functor CloseFunctor W = run_close W"

text \<open>The entries' \<^verbatim>\<open>onTimeout\<close>.\<close>

definition idle_onTimeout :: "World \<Rightarrow> World" where
  "idle_onTimeout W = (if conn_alive W then closeAfterWriteCompleted W else W)"

definition halfClose_onTimeout :: "World \<Rightarrow> World option" where
  "halfClose_onTimeout W = (if conn_alive W then forceClose W else Some W)"

text \<open>\<^verbatim>\<open>makeTcpConnection\<close> for a socket with descriptor \<open>fd\<close>, in a loop with no
  functor waiting.\<close>

definition makeTcpConnection :: "nat \<Rightarrow> nat \<Rightarrow> int \<Rightarrow> EventLoopImpl \<Rightarrow> TimeWheel option \<Rightarrow> nat \<Rightarrow> World" where
  "makeTcpConnection cid eid fd l tw entry =
     (let c = \<lparr>connId = cid, eventId = eid, m_state = Established, m_isWaitWriting = False,
            m_epollEvent = newEpollEvent fd, m_connectionBufferChannel = newTcpChannel,
            idleConnectionWheel = None, halfCloseWheel = None, writeShutdown = False\<rparr>;
          W = \<lparr>conn = c, loop = add_handler cid l, wheel = tw, nextEntry = entry, pending = [], raised = []\<rparr>;
          W = conn_active [EV_IN, EV_RDHUP] W
      in case wheel W of
           None \<Rightarrow> W
         | Some w \<Rightarrow> W\<lparr>conn := (conn W)\<lparr>idleConnectionWheel := Some (nextEntry W)\<rparr>,
               wheel := Some (addToWheel (nextEntry W) w), nextEntry := nextEntry W + 1\<rparr>)"

subsection \<open>\<^verbatim>\<open>Channel\<close>\<close>

definition channel_send :: "World \<Rightarrow> World" where
  "channel_send W = (if conn_alive W then sendInLoop W else W)"

definition channel_close :: "World \<Rightarrow> World" where
  "channel_close W = (if conn_alive W then closeAfterWriteCompleted W else W)"

definition channelActive :: "World \<Rightarrow> bool" where
  "channelActive W \<longleftrightarrow> conn_alive W \<and> m_state (conn W) = Established"

definition channelId :: "World \<Rightarrow> int" where
  "channelId W = (if conn_alive W then watchingFd (m_epollEvent (conn W)) else - 1)"

subsection \<open>Events\<close>

text \<open>
  What the kernel does during one batch of ready events: the results of its receiving and
  sending calls and the bytes it stores. The loop runs the handlers of the batch in the order
  of \<^verbatim>\<open>EpollEvent::handleEvents\<close>, and holds the connection while they run.
\<close>

record kernel_io =
  recv_calls :: "nat \<Rightarrow> sysret"
  recv_data :: "byte list"
  send_calls :: "nat \<Rightarrow> sysret"

fun run_handler :: "kernel_io \<Rightarrow> handler_call \<Rightarrow> World \<Rightarrow> World option" where
  "run_handler io HandleRdhup W = handleRdhup W"
| "run_handler io HandleIn W = handleIn (recv_calls io) (recv_data io) W"
| "run_handler io HandleOut W = handleOut (send_calls io) W"
| "run_handler io HandleErr W = Some W"
| "run_handler io HandlePri W = Some W"
| "run_handler io HandleHup W = Some W"

fun run_handlers :: "kernel_io \<Rightarrow> handler_call list \<Rightarrow> World \<Rightarrow> World option" where
  "run_handlers io [] W = Some W"
| "run_handlers io (h # hs) W = do { W \<leftarrow> run_handler io h W; run_handlers io hs W }"

definition run_batch :: "32 word \<Rightarrow> kernel_io \<Rightarrow> World \<Rightarrow> World option" where
  "run_batch active io W =
     run_handlers io (handleEvents ((m_epollEvent (conn W))\<lparr>activeEvents := active, handlerAlive := conn_alive W\<rparr>)) W"

datatype conn_event =
    Batch "32 word" kernel_io | Send | Close | RunFunctor | IdleTimeout | HalfCloseTimeout
  | AppWrite "byte list" | AppRead nat

fun conn_step :: "World \<Rightarrow> conn_event \<Rightarrow> World option" where
  "conn_step W (Batch active io) = run_batch active io W"
| "conn_step W Send = Some (channel_send W)"
| "conn_step W Close = Some (channel_close W)"
| "conn_step W RunFunctor = (case pending W of [] \<Rightarrow> Some W | f # fs \<Rightarrow> Some (run_functor f (W\<lparr>pending := fs\<rparr>)))"
| "conn_step W IdleTimeout = Some (idle_onTimeout W)"
| "conn_step W HalfCloseTimeout = halfClose_onTimeout W"
| "conn_step W (AppWrite d) = map_option (\<lambda>c. set_channel c W) (channel_write d (m_connectionBufferChannel (conn W)))"
| "conn_step W (AppRead n) = map_option (\<lambda>(_, c). set_channel c W) (channel_read n (m_connectionBufferChannel (conn W)))"

definition conn_run :: "World option \<Rightarrow> conn_event \<Rightarrow> World option" where
  "conn_run s e = do { W \<leftarrow> s; conn_step W e }"

subsection \<open>The state machine\<close>

text \<open>The edges of the diagram in \<^verbatim>\<open>include/internal/handlers/TcpConnection.h\<close> and the
  paths along them.\<close>

fun state_path :: "TcpState \<Rightarrow> TcpState \<Rightarrow> bool" where
  "state_path Established s \<longleftrightarrow> s \<in> {Established, HalfClose, Closed}"
| "state_path HalfClose s \<longleftrightarrow> s \<in> {HalfClose, Closed}"
| "state_path Closed s \<longleftrightarrow> s = Closed"
| "state_path Listen s \<longleftrightarrow> False"
| "state_path Connecting s \<longleftrightarrow> False"

lemma state_path_trans: "state_path a b \<Longrightarrow> state_path b c \<Longrightarrow> state_path a c"
  by (cases a; cases b) auto

lemma state_path_refl: "s \<in> {Established, HalfClose, Closed} \<Longrightarrow> state_path s s"
  by auto

lemma state_path_closed: "state_path a b \<Longrightarrow> state_path a Closed"
  by (cases a) auto

text \<open>How far a handler moves the connection: its state, whether the loop holds it and the
  identity of both.\<close>

definition moves :: "World \<Rightarrow> World \<Rightarrow> bool" where
  "moves W W' \<longleftrightarrow> state_path (m_state (conn W)) (m_state (conn W'))
     \<and> (conn_alive W' \<longleftrightarrow> m_state (conn W') \<noteq> Closed)
     \<and> connId (conn W') = connId (conn W)
     \<and> ba_inv (m_readArray (m_connectionBufferChannel (conn W')))
     \<and> contents (m_readArray (m_connectionBufferChannel (conn W'))) = []"

definition conn_inv :: "World \<Rightarrow> bool" where
  "conn_inv W \<longleftrightarrow> moves W W"

lemma moves_self: "moves W W = conn_inv W"
  by (simp add: conn_inv_def)

lemma moves_inv: "moves W W' \<Longrightarrow> conn_inv W'"
proof -
  assume m: "moves W W'"
  then have "state_path (m_state (conn W')) (m_state (conn W'))"
    by (cases "m_state (conn W)") (auto simp: moves_def)
  with m show ?thesis by (simp add: conn_inv_def moves_def)
qed

lemma moves_trans: "moves W W' \<Longrightarrow> moves W' W'' \<Longrightarrow> moves W W''"
  unfolding moves_def by (auto intro: state_path_trans)

lemma world_ops [simp]:
  "conn (raise_user k a W) = conn W" "loop (raise_user k a W) = loop W" "wheel (raise_user k a W) = wheel W"
  "pending (raise_user k a W) = pending W" "raised (raise_user k a W) = raised W @ [(k, a)]"
  "m_state (conn (set_state s W)) = s" "loop (set_state s W) = loop W" "raised (set_state s W) = raised W"
  "connId (conn (set_state s W)) = connId (conn W)" "wheel (set_state s W) = wheel W"
  "m_isWaitWriting (conn (set_state s W)) = m_isWaitWriting (conn W)"
  "m_connectionBufferChannel (conn (set_state s W)) = m_connectionBufferChannel (conn W)"
  "m_state (conn (set_waiting b W)) = m_state (conn W)" "loop (set_waiting b W) = loop W"
  "m_isWaitWriting (conn (set_waiting b W)) = b" "raised (set_waiting b W) = raised W"
  "connId (conn (set_waiting b W)) = connId (conn W)" "wheel (set_waiting b W) = wheel W"
  "m_connectionBufferChannel (conn (set_waiting b W)) = m_connectionBufferChannel (conn W)"
  "m_state (conn (set_channel c W)) = m_state (conn W)" "loop (set_channel c W) = loop W"
  "m_isWaitWriting (conn (set_channel c W)) = m_isWaitWriting (conn W)" "raised (set_channel c W) = raised W"
  "connId (conn (set_channel c W)) = connId (conn W)" "wheel (set_channel c W) = wheel W"
  "m_connectionBufferChannel (conn (set_channel c W)) = c"
  by (simp_all add: raise_user_def set_state_def set_waiting_def set_channel_def)

lemma with_event_fields [simp]:
  "m_state (conn (with_event f W)) = m_state (conn W)"
  "m_isWaitWriting (conn (with_event f W)) = m_isWaitWriting (conn W)"
  "connId (conn (with_event f W)) = connId (conn W)"
  "m_connectionBufferChannel (conn (with_event f W)) = m_connectionBufferChannel (conn W)"
  "m_handlers (loop (with_event f W)) = m_handlers (loop W)"
  "wheel (with_event f W) = wheel W" "raised (with_event f W) = raised W"
  "idleConnectionWheel (conn (with_event f W)) = idleConnectionWheel (conn W)"
  "halfCloseWheel (conn (with_event f W)) = halfCloseWheel (conn W)"
  "nextEntry (with_event f W) = nextEntry W"
  by (simp_all add: with_event_def split_beta Let_def)

lemmas conn_event_defs = conn_active_def conn_deactivate_def

lemma forceClose_effect:
  assumes "forceClose W = Some W'"
  shows "m_state (conn W') = Closed" "\<not> conn_alive W'" "connId (conn W') = connId (conn W)"
    "m_connectionBufferChannel (conn W') = m_connectionBufferChannel (conn W)"
    "raised W' = raised W @ [(Disconnect, ChannelArg)]"
  using assms by (auto simp: forceClose_def Let_def conn_alive_def remove_handler_def
      split: bind_splits option.splits)

lemma forceClose_moves: "conn_inv W \<Longrightarrow> forceClose W = Some W' \<Longrightarrow> moves W W'"
  using forceClose_effect [of W W'] by (auto simp: conn_inv_def moves_def intro: state_path_closed)

lemma renewWheel_fields:
  assumes "renewWheel W = Some W'"
  shows "conn W' = conn W" "loop W' = loop W" "raised W' = raised W" "pending W' = pending W"
  using assms by (auto simp: renewWheel_def split: option.splits bind_splits)

text \<open>A change that keeps what \<^term>\<open>moves\<close> looks at.\<close>

lemma moves_same:
  assumes "conn_inv W" "m_state (conn W') = m_state (conn W)" "connId (conn W') = connId (conn W)"
    "m_handlers (loop W') = m_handlers (loop W)"
    "ba_inv (m_readArray (m_connectionBufferChannel (conn W')))"
    "contents (m_readArray (m_connectionBufferChannel (conn W'))) = []"
  shows "moves W W'"
  using assms by (simp add: conn_inv_def moves_def conn_alive_def)

lemma conn_inv_idle:
  "conn_inv W \<Longrightarrow> ba_inv (m_readArray (m_connectionBufferChannel (conn W)))
     \<and> contents (m_readArray (m_connectionBufferChannel (conn W))) = []"
  by (simp add: conn_inv_def moves_def)

lemma handleIn_moves:
  assumes "conn_inv W" "handleIn calls data W = Some W'"
  shows "moves W W'"
proof -
  obtain V r where V: "renewWheel W = Some V"
    and r: "channel_receive calls data (m_connectionBufferChannel (conn V)) = Some r"
    and W': "(case r of Inr c \<Rightarrow> Some (raise_user MessageReceived ChannelArg (set_channel c V))
      | Inl x \<Rightarrow> let U = raise_user ErrorEvent (CodeArg (getErrorCode x)) V in
          (case x of SocketException _ \<Rightarrow> forceClose U | ResourceLimitException _ \<Rightarrow> Some U)) = Some W'"
    using assms(2) by (auto simp: handleIn_def split: bind_splits)
  note V_eq = renewWheel_fields [OF V] and idle = conn_inv_idle [OF assms(1)]
  have inv: "conn_inv (raise_user ErrorEvent a V)" for a
    using assms(1) by (simp add: conn_inv_def moves_def conn_alive_def V_eq)
  have same: "moves W (raise_user ErrorEvent a V)" for a
    using idle by (intro moves_same [OF assms(1)]) (simp_all add: V_eq)
  show ?thesis
  proof (cases r)
    case (Inr c)
    have "m_readArray c = m_readArray (m_connectionBufferChannel (conn W))"
      using receive_read_array r Inr by (simp add: V_eq)
    then show ?thesis using W' Inr idle by (intro moves_same [OF assms(1)]) (auto simp: V_eq)
  next
    case (Inl x)
    then show ?thesis
      using W' same forceClose_moves [OF inv] by (cases x) (auto simp: Let_def intro: moves_trans)
  qed
qed

lemma handleOut_moves:
  assumes "conn_inv W" "handleOut calls W = Some W'"
  shows "moves W W'"
proof -
  obtain V r where V: "renewWheel W = Some V"
    and r: "channel_transmit calls (m_connectionBufferChannel (conn V)) = Some r"
    and W': "(case r of
       Inr (writeCompleted, c) \<Rightarrow>
         let U = set_channel c V in
         if writeCompleted then
           let U = conn_deactivate [EV_OUT] U;
               U = raise_user WriteCompleted ChannelArg U;
               U = set_waiting False U
           in if m_state (conn U) = HalfClose then forceClose U else Some U
         else Some U
     | Inl x \<Rightarrow>
         let U = raise_user ErrorEvent (CodeArg (getErrorCode x)) V in
         (case x of SocketException _ \<Rightarrow> forceClose (set_waiting False U)
          | ResourceLimitException _ \<Rightarrow> Some U)) = Some W'"
    using assms(2) by (auto simp: handleOut_def split: bind_splits)
  note V_eq = renewWheel_fields [OF V] and idle = conn_inv_idle [OF assms(1)]
  show ?thesis
  proof (cases r)
    case (Inr wc)
    obtain ok c where wc: "wc = (ok, c)" by (cases wc)
    have c: "ba_inv (m_readArray c)" "contents (m_readArray c) = []"
      using transmit_idle [of "m_connectionBufferChannel (conn W)"] idle r Inr wc by (auto simp: V_eq)
    let ?U = "set_waiting False (raise_user WriteCompleted ChannelArg (conn_deactivate [EV_OUT] (set_channel c V)))"
    have same: "moves W ?U" "moves W (set_channel c V)"
      using c by (auto intro!: moves_same [OF assms(1)] simp: V_eq conn_event_defs)
    show ?thesis
      using W' Inr wc same forceClose_moves [OF moves_inv [OF same(1)]]
      by (auto simp: Let_def split: if_splits intro: moves_trans)
  next
    case (Inl x)
    have same: "moves W (raise_user ErrorEvent a V)" "moves W (set_waiting False (raise_user ErrorEvent a V))" for a
      using idle by (auto intro!: moves_same [OF assms(1)] simp: V_eq)
    show ?thesis
    proof (cases x)
      case (ResourceLimitException e)
      then show ?thesis using W' Inl same(1) by auto
    next
      case (SocketException e)
      let ?U = "set_waiting False (raise_user ErrorEvent (CodeArg (getErrorCode x)) V)"
      have "forceClose ?U = Some W'" using W' Inl SocketException by simp
      then show ?thesis by (rule moves_trans [OF same(2) forceClose_moves [OF moves_inv [OF same(2)]]])
    qed
  qed
qed

lemma handleRdhup_moves:
  assumes "conn_inv W" "handleRdhup W = Some W'"
  shows "moves W W'"
proof -
  let ?V = "conn_deactivate [EV_RDHUP, EV_IN] W"
  note idle = conn_inv_idle [OF assms(1)]
  have V: "moves W ?V" using idle by (intro moves_same [OF assms(1)]) (simp_all add: conn_event_defs)
  have H: "moves W (set_state HalfClose ?V)" if "m_state (conn W) = Established"
    using that assms(1) idle by (simp add: moves_def conn_inv_def conn_event_defs conn_alive_def)
  have state: "m_state (conn ?V) = m_state (conn W)" by (simp add: conn_event_defs)
  show ?thesis
  proof (cases "m_state (conn W) = Established")
    case False
    then have "W' = ?V" using assms(2) state by (simp add: handleRdhup_def Let_def)
    then show ?thesis using V by simp
  next
    case True
    let ?U = "set_state HalfClose ?V"
    have "W' = ?U \<or> forceClose ?U = Some W'"
      using assms(2) state True by (simp add: handleRdhup_def Let_def split: if_splits)
    then show ?thesis
      using H [OF True] moves_trans [OF H [OF True] forceClose_moves [OF moves_inv [OF H [OF True]]]] by blast
  qed
qed

lemma run_handlers_moves:
  assumes "conn_inv W" "run_handlers io hs W = Some W'"
  shows "moves W W'"
  using assms
proof (induction hs arbitrary: W)
  case (Cons h hs)
  then obtain V where V: "run_handler io h W = Some V" "run_handlers io hs V = Some W'"
    by (auto split: bind_splits)
  then have "moves W V"
    using Cons.prems(1) handleIn_moves [OF Cons.prems(1)] handleOut_moves [OF Cons.prems(1)]
      handleRdhup_moves [OF Cons.prems(1)]
    by (cases h) (simp_all add: moves_self)
  then show ?case using Cons.IH [OF moves_inv V(2)] moves_trans by blast
qed (simp add: conn_inv_def)

lemma run_functor_moves:
  assumes "conn_inv W"
  shows "moves W (run_functor f (W\<lparr>pending := fs\<rparr>))"
proof (cases f)
  case SendFunctor
  then show ?thesis using conn_inv_idle [OF assms] assms
    by (auto intro!: moves_same [OF assms] simp: run_send_def conn_event_defs)
next
  case CloseFunctor
  then show ?thesis using conn_inv_idle [OF assms] assms
    by (auto simp: run_close_def Let_def conn_event_defs moves_def conn_inv_def conn_alive_def
        split: option.splits)
qed

lemma write_read_array: "channel_write d c = Some c' \<Longrightarrow> m_readArray c' = m_readArray c"
  by (auto simp: channel_write_def split: bind_splits)

lemma conn_step_moves:
  assumes "conn_inv W" "conn_step W e = Some W'"
  shows "moves W W'"
proof -
  note idle = conn_inv_idle [OF assms(1)] and same = moves_same [OF assms(1)]
  show ?thesis
  proof (cases e)
    case (Batch active io)
    then show ?thesis using assms run_handlers_moves by (auto simp: run_batch_def)
  next
    case RunFunctor
    then show ?thesis using assms run_functor_moves [OF assms(1)]
      by (auto simp: conn_inv_def split: list.splits)
  next
    case HalfCloseTimeout
    then show ?thesis using assms forceClose_moves
      by (auto simp: halfClose_onTimeout_def conn_inv_def split: if_splits)
  next
    case (AppWrite d)
    then obtain c where c: "channel_write d (m_connectionBufferChannel (conn W)) = Some c" "W' = set_channel c W"
      using assms(2) by auto
    then show ?thesis using idle write_read_array [OF c(1)] by (auto intro!: same)
  next
    case (AppRead n)
    then show ?thesis using assms(2) idle by (auto intro!: same simp: read_idle)
  qed (use assms idle in \<open>auto intro!: same simp: channel_send_def channel_close_def idle_onTimeout_def
      sendInLoop_def closeAfterWriteCompleted_def moves_self split: if_splits\<close>)
qed

definition run_inv_opt :: "World option \<Rightarrow> bool" where
  "run_inv_opt s \<longleftrightarrow> (case s of None \<Rightarrow> True | Some W \<Rightarrow> conn_inv W)"

definition fresh_connection :: "World \<Rightarrow> bool" where
  "fresh_connection W \<longleftrightarrow> (\<exists>cid eid fd l tw n. W = makeTcpConnection cid eid fd l tw n)"

lemma fresh_inv: "fresh_connection W \<Longrightarrow> conn_inv W"
  by (auto simp: fresh_connection_def makeTcpConnection_def Let_def conn_inv_def moves_def conn_alive_def
      conn_event_defs add_handler_def newTcpChannel_def ba_inv_new split: option.splits)

interpretation connection: machine "\<lambda>s. \<exists>W. s = Some W \<and> fresh_connection W" conn_run run_inv_opt
proof unfold_locales
  show "\<exists>W. s = Some W \<and> fresh_connection W \<Longrightarrow> run_inv_opt s" for s
    by (auto simp: run_inv_opt_def fresh_inv)
  show "run_inv_opt s \<Longrightarrow> run_inv_opt (conn_run s e)" for s e
    by (auto simp: run_inv_opt_def conn_run_def split: option.splits dest: conn_step_moves moves_inv)
qed

lemma run_from:
  "run_steps conn_run (Some W) es = Some W' \<Longrightarrow> conn_inv W \<Longrightarrow> conn_inv W' \<and> moves W W'"
proof (induction es arbitrary: W)
  case Nil
  then show ?case by (simp add: moves_self)
next
  case (Cons e es)
  have none: "run_steps conn_run None xs = None" for xs
    by (induction xs) (simp_all add: conn_run_def)
  obtain V where V: "conn_step W e = Some V" "run_steps conn_run (Some V) es = Some W'"
    using Cons.prems(1) none by (cases "conn_step W e") (simp_all add: conn_run_def [of "Some W"])
  have "moves W V" by (rule conn_step_moves [OF Cons.prems(2) V(1)])
  with Cons.IH [OF V(2) moves_inv] show ?case by (blast intro: moves_trans)
qed

text \<open>C10. In every run of a connection, whatever the kernel and the user do, the state only moves
  along the documented diagram (\<^verbatim>\<open>Established\<close>, \<^verbatim>\<open>HalfClose\<close>,
  \<^verbatim>\<open>Closed\<close>; no way back), and the loop holds the connection until it is closed
  and not after.\<close>

theorem connection_state_machine:
  assumes "fresh_connection W" "run_steps conn_run (Some W) es = Some V"
    and "run_steps conn_run (Some V) es' = Some V'"
  shows "m_state (conn V) \<in> {Established, HalfClose, Closed}
     \<and> state_path (m_state (conn V)) (m_state (conn V'))
     \<and> (conn_alive V \<longleftrightarrow> m_state (conn V) \<noteq> Closed)
     \<and> (channelActive V \<longleftrightarrow> m_state (conn V) = Established)"
proof -
  have V: "conn_inv V" using run_from [OF assms(2) fresh_inv [OF assms(1)]] by simp
  have "moves V V'" using run_from [OF assms(3) V] by simp
  moreover have "state_path (m_state (conn V)) (m_state (conn V))" "conn_alive V \<longleftrightarrow> m_state (conn V) \<noteq> Closed"
    using V by (simp_all add: conn_inv_def moves_def)
  ultimately show ?thesis
    by (cases "m_state (conn V)") (auto simp: moves_def channelActive_def)
qed

subsection \<open>What the user sees\<close>

lemma forceClose_no_wheel:
  assumes "wheel W = None"
  shows "\<exists>W'. forceClose W = Some W' \<and> wheel W' = None \<and> m_state (conn W') = Closed
    \<and> raised W' = raised W @ [(Disconnect, ChannelArg)]
    \<and> m_connectionBufferChannel (conn W') = m_connectionBufferChannel (conn W)"
  using assms by (simp add: forceClose_def Let_def)

lemma handleRdhup_closes:
  assumes "wheel W = None" "m_state (conn W) = Established" "\<not> m_isWaitWriting (conn W)"
  shows "\<exists>W'. handleRdhup W = Some W' \<and> wheel W' = None \<and> m_state (conn W') = Closed
    \<and> raised W' = raised W @ [(Disconnect, ChannelArg)]
    \<and> m_connectionBufferChannel (conn W') = m_connectionBufferChannel (conn W)"
  using forceClose_no_wheel [of "set_state HalfClose (conn_deactivate [EV_RDHUP, EV_IN] W)"] assms
  by (simp add: handleRdhup_def Let_def conn_event_defs)

lemma handleIn_no_wheel:
  assumes "wheel W = None" "channel_receive calls d (m_connectionBufferChannel (conn W)) = Some (Inr c)"
  shows "handleIn calls d W = Some (raise_user MessageReceived ChannelArg (set_channel c W))"
  using assms by (simp add: handleIn_def renewWheel_def)

lemma rdhup_in_calls:
  "handleEvents (e\<lparr>activeEvents := 0x2001, handlerAlive := True\<rparr>) = [HandleRdhup, HandleIn]"
  by (simp add: handleEvents_def)

text \<open>When the peer closes, the kernel reports \<^verbatim>\<open>EPOLLRDHUP\<close> together with
  \<^verbatim>\<open>EPOLLIN\<close>; an idle established connection then tells its user about the
  disconnection first and about a received message after it.\<close>

lemma message_after_disconnect:
  assumes "conn_alive W" "wheel W = None" "m_state (conn W) = Established" "\<not> m_isWaitWriting (conn W)"
    and "channel_receive (recv_calls io) (recv_data io) (m_connectionBufferChannel (conn W)) = Some (Inr c)"
  shows "\<exists>W'. run_batch 0x2001 io W = Some W' \<and> m_state (conn W') = Closed
     \<and> raised W' = raised W @ [(Disconnect, ChannelArg), (MessageReceived, ChannelArg)]"
proof -
  obtain V where V: "handleRdhup W = Some V" "wheel V = None" "m_state (conn V) = Closed"
    "raised V = raised W @ [(Disconnect, ChannelArg)]"
    "m_connectionBufferChannel (conn V) = m_connectionBufferChannel (conn W)"
    using handleRdhup_closes [OF assms(2-4)] by blast
  have "handleEvents ((m_epollEvent (conn W))\<lparr>activeEvents := 0x2001, handlerAlive := conn_alive W\<rparr>)
      = [HandleRdhup, HandleIn]"
    using assms(1) rdhup_in_calls [of "m_epollEvent (conn W)"] by simp
  moreover have "handleIn (recv_calls io) (recv_data io) V
      = Some (raise_user MessageReceived ChannelArg (set_channel c V))"
    using assms(5) V by (intro handleIn_no_wheel) simp_all
  ultimately show ?thesis using V by (simp add: run_batch_def)
qed

text \<open>A connection without a wheel, as made, and the kernel's answers at the end of the
  stream.\<close>

definition sample_world :: World where
  "sample_world = makeTcpConnection 1 2 7 newEventLoop None 0"

definition eof_io :: kernel_io where
  "eof_io = \<lparr>recv_calls = (\<lambda>_. SysOk 0), recv_data = [], send_calls = (\<lambda>_. SysOk 0)\<rparr>"

lemma sample_world_fields [simp]:
  "conn_alive sample_world" "wheel sample_world = None" "m_state (conn sample_world) = Established"
  "\<not> m_isWaitWriting (conn sample_world)" "m_connectionBufferChannel (conn sample_world) = newTcpChannel"
  "raised sample_world = []" "pending sample_world = []"
  by (simp_all add: sample_world_def makeTcpConnection_def Let_def conn_event_defs conn_alive_def
      add_handler_def with_event_def split_beta)

text \<open>A connection that the user closes, after a send: each call has queued its functor, then both run.\<close>

lemma connection_state_machine_witness:
  "\<exists>V V'. run_steps conn_run (Some sample_world) [Send, Close] = Some V
     \<and> run_steps conn_run (Some V) [RunFunctor, RunFunctor] = Some V'
     \<and> state_path (m_state (conn V)) (m_state (conn V')) \<and> m_state (conn V') = HalfClose
     \<and> conn_alive V' \<and> \<not> channelActive V'"
proof -
  let ?W = sample_world
  have fresh: "fresh_connection ?W"
    unfolding fresh_connection_def sample_world_def by (intro exI) (rule refl)
  obtain V where V: "run_steps conn_run (Some ?W) [Send, Close] = Some V" by (simp add: conn_run_def)
  then have "\<exists>V'. run_steps conn_run (Some V) [RunFunctor, RunFunctor] = Some V' \<and> m_state (conn V') = HalfClose"
    using sample_world_fields(1)
    by (auto simp: conn_run_def channel_send_def channel_close_def sendInLoop_def closeAfterWriteCompleted_def
        run_send_def run_close_def conn_alive_def Let_def conn_event_defs with_event_def split_beta
        set_waiting_def set_state_def)
  then obtain V' where V': "run_steps conn_run (Some V) [RunFunctor, RunFunctor] = Some V'" "m_state (conn V') = HalfClose"
    by blast
  have "run_steps conn_run (Some ?W) ([Send, Close] @ [RunFunctor, RunFunctor]) = Some V'"
    using V V'(1) by (simp only: run_steps_append)
  from connection_state_machine [OF fresh V V'(1)] connection_state_machine [OF fresh this, of "[]" V'] V V' show ?thesis
    by (intro exI [of _ V] exI [of _ V']) simp
qed

lemma message_after_disconnect_witness:
  "\<exists>W'. run_batch 0x2001 eof_io sample_world = Some W' \<and> m_state (conn W') = Closed
     \<and> raised W' = [(Disconnect, ChannelArg), (MessageReceived, ChannelArg)]"
proof -
  obtain c where "channel_receive (\<lambda>_. SysOk 0) [] newTcpChannel = Some (Inr c)"
    using receive_eof [of newTcpChannel] by (auto simp: newTcpChannel_def ba_inv_new)
  then show ?thesis
    using message_after_disconnect [of sample_world eof_io c] by (simp add: eof_io_def)
qed

subsection \<open>Closing\<close>

lemma run_send_effect:
  assumes "conn_alive W"
  shows "m_isWaitWriting (conn (run_send W))" "m_state (conn (run_send W)) = m_state (conn W)"
    "conn_alive (run_send W)" "wheel (run_send W) = wheel W" "raised (run_send W) = raised W"
    "m_connectionBufferChannel (conn (run_send W)) = m_connectionBufferChannel (conn W)"
  using assms by (simp_all add: run_send_def conn_event_defs conn_alive_def)

lemma handleOut_complete:
  assumes "wheel W = None" "channel_transmit calls (m_connectionBufferChannel (conn W)) = Some (Inr (True, c))"
    "m_state (conn W) = HalfClose"
  shows "\<exists>W'. handleOut calls W = Some W' \<and> m_state (conn W') = Closed \<and> \<not> conn_alive W'
     \<and> raised W' = raised W @ [(WriteCompleted, ChannelArg), (Disconnect, ChannelArg)]"
proof -
  let ?V = "set_waiting False (raise_user WriteCompleted ChannelArg (conn_deactivate [EV_OUT] (set_channel c W)))"
  obtain W' where W': "forceClose ?V = Some W'"
    using forceClose_no_wheel [of ?V] assms(1) by (auto simp: conn_event_defs)
  have "handleOut calls W = forceClose ?V"
    using assms by (simp add: handleOut_def renewWheel_def Let_def conn_event_defs)
  then show ?thesis using W' forceClose_effect [OF W'] by (simp add: conn_event_defs)
qed

text \<open>A close requested after a send waits for it: after both functors the connection is half
  closed and still in the loop, and the batch in which the write completes reports
  \<^verbatim>\<open>onWriteCompleted\<close>, then \<^verbatim>\<open>onDisconnect\<close>, and closes it.\<close>

theorem close_waits_for_write:
  assumes "conn_alive W" "wheel W = None" "m_state (conn W) = Established"
    and "channel_transmit (send_calls io) (m_connectionBufferChannel (conn W)) = Some (Inr (True, c))"
  shows "\<exists>V W'. V = run_close (run_send W) \<and> m_state (conn V) = HalfClose \<and> conn_alive V
     \<and> raised V = raised W \<and> run_batch 0x4 io V = Some W' \<and> m_state (conn W') = Closed
     \<and> raised W' = raised W @ [(WriteCompleted, ChannelArg), (Disconnect, ChannelArg)]"
proof -
  let ?V = "run_close (run_send W)"
  note S = run_send_effect [OF assms(1)]
  have V: "?V = set_state HalfClose (run_send W)"
    using S assms(3) by (simp add: run_close_def Let_def)
  have fields: "m_state (conn ?V) = HalfClose" "conn_alive ?V" "wheel ?V = None" "raised ?V = raised W"
      "m_connectionBufferChannel (conn ?V) = m_connectionBufferChannel (conn W)"
    using S assms(2) by (simp_all add: V conn_alive_def)
  have "handleEvents ((m_epollEvent (conn ?V))\<lparr>activeEvents := 0x4, handlerAlive := conn_alive ?V\<rparr>) = [HandleOut]"
    using fields(2) by (simp add: handleEvents_def)
  moreover obtain W' where "handleOut (send_calls io) ?V = Some W'" "m_state (conn W') = Closed"
      "raised W' = raised W @ [(WriteCompleted, ChannelArg), (Disconnect, ChannelArg)]"
    using handleOut_complete [of ?V "send_calls io" c] fields assms(4) by auto
  ultimately show ?thesis using fields by (auto simp: run_batch_def)
qed

lemma close_waits_for_write_witness:
  "\<exists>W'. run_batch 0x4 eof_io (run_close (run_send sample_world)) = Some W' \<and> m_state (conn W') = Closed"
proof -
  obtain c where "channel_transmit (\<lambda>_. SysOk 0) newTcpChannel = Some (Inr (True, c))"
    using transmit_nothing [of newTcpChannel] by (auto simp: newTcpChannel_def ba_inv_new)
  then show ?thesis
    using close_waits_for_write [of sample_world eof_io c] by (auto simp: eof_io_def)
qed

lemma run_none: "run_steps conn_run None es = None"
  by (induction es) (simp_all add: conn_run_def)

text \<open>After an active close the kernel reports the end of the stream and a hang-up.\<close>

lemma eof_batch:
  assumes "conn_alive W" "wheel W = None" "ba_inv (m_writeArray (m_connectionBufferChannel (conn W)))"
  shows "\<exists>V. conn_step W (Batch 0x11 eof_io) = Some V \<and> conn_alive V \<and> wheel V = None
     \<and> m_state (conn V) = m_state (conn W) \<and> raised V = raised W @ [(MessageReceived, ChannelArg)]
     \<and> ba_inv (m_writeArray (m_connectionBufferChannel (conn V)))"
proof -
  obtain c where c: "channel_receive (\<lambda>_. SysOk 0) [] (m_connectionBufferChannel (conn W)) = Some (Inr c)"
      "ba_inv (m_writeArray c)"
    using receive_eof [OF assms(3)] by blast
  have "handleEvents ((m_epollEvent (conn W))\<lparr>activeEvents := 0x11, handlerAlive := conn_alive W\<rparr>)
      = [HandleIn, HandleHup]"
    using assms(1) by (simp add: handleEvents_def)
  then have "conn_step W (Batch 0x11 eof_io) = Some (raise_user MessageReceived ChannelArg (set_channel c W))"
    using handleIn_no_wheel [OF assms(2) c(1)] by (simp add: run_batch_def eof_io_def)
  then show ?thesis using assms c(2) by (simp add: conn_alive_def)
qed

lemma eof_batches:
  assumes "conn_alive W" "wheel W = None" "ba_inv (m_writeArray (m_connectionBufferChannel (conn W)))"
  shows "\<exists>V. run_steps conn_run (Some W) (replicate n (Batch 0x11 eof_io)) = Some V \<and> conn_alive V
     \<and> m_state (conn V) = m_state (conn W)
     \<and> raised V = raised W @ replicate n (MessageReceived, ChannelArg)"
  using assms
proof (induction n arbitrary: W)
  case 0
  then show ?case by simp
next
  case (Suc n)
  obtain V where V: "conn_step W (Batch 0x11 eof_io) = Some V" "conn_alive V" "wheel V = None"
      "m_state (conn V) = m_state (conn W)" "raised V = raised W @ [(MessageReceived, ChannelArg)]"
      "ba_inv (m_writeArray (m_connectionBufferChannel (conn V)))"
    using eof_batch [OF Suc.prems] by blast
  have "run_steps conn_run (Some W) (replicate (Suc n) (Batch 0x11 eof_io))
      = run_steps conn_run (Some V) (replicate n (Batch 0x11 eof_io))"
    using V(1) by (simp add: conn_run_def [of "Some W"])
  with Suc.IH [OF V(2,3,6)] V(4,5) show ?case by (auto simp: replicate_append_same [symmetric])
qed

lemma run_close_no_wheel:
  assumes "conn_alive W" "wheel W = None" "m_state (conn W) = Established" "\<not> m_isWaitWriting (conn W)"
  shows "conn_alive (run_close W)" "wheel (run_close W) = None" "m_state (conn (run_close W)) = HalfClose"
    "m_connectionBufferChannel (conn (run_close W)) = m_connectionBufferChannel (conn W)"
    "raised (run_close W) = raised W"
  using assms by (simp_all add: run_close_def Let_def conn_event_defs conn_alive_def)

text \<open>C12. An established connection without a time wheel that the user closes while nothing is
  waiting to be written, and that from then on only hears of the end of the peer's stream (its
  descriptor is reported readable and hung up, and every read gives no bytes), never ends:
  after any number of such rounds it is still half closed and in its loop, and each round has
  been reported to the user as a received message. (With a write under way the completed
  write closes it, see above.)\<close>

theorem active_close_never_completes:
  assumes "conn_alive W" "wheel W = None" "m_state (conn W) = Established" "\<not> m_isWaitWriting (conn W)"
    and "ba_inv (m_writeArray (m_connectionBufferChannel (conn W)))"
  shows "\<exists>V. run_steps conn_run (Some (run_close W)) (replicate n (Batch 0x11 eof_io)) = Some V
     \<and> m_state (conn V) = HalfClose \<and> conn_alive V
     \<and> raised V = raised W @ replicate n (MessageReceived, ChannelArg)"
  using eof_batches [of "run_close W" n] run_close_no_wheel [OF assms(1-4)] assms(5) by auto

lemma active_close_never_completes_witness:
  "\<exists>V. run_steps conn_run (Some (run_close sample_world)) (replicate 3 (Batch 0x11 eof_io)) = Some V
     \<and> m_state (conn V) = HalfClose"
  using active_close_never_completes [of sample_world 3] by (auto simp: newTcpChannel_def ba_inv_new)

text \<open>When both directions of a broken connection are ready in one round, each handler reports
  its own error and force-closes, so the user is told twice that the connection is gone.\<close>

lemma io_error_disconnects_twice:
  assumes "conn_alive W" "wheel W = None" "e \<in> {ECONNREFUSED, ENOTCONN}" "e' \<in> {ECONNRESET, ENOTCONN, EPIPE}"
    and "conn_inv W" "ba_inv (m_writeArray (m_connectionBufferChannel (conn W)))"
  shows "\<exists>W'. run_batch 0x5 \<lparr>recv_calls = (\<lambda>_. SysErr e), recv_data = [], send_calls = (\<lambda>_. SysErr e')\<rparr> W = Some W'
     \<and> m_state (conn W') = Closed
     \<and> raised W' = raised W @ [(ErrorEvent, CodeArg (getError e)), (Disconnect, ChannelArg),
                              (ErrorEvent, CodeArg (getError e')), (Disconnect, ChannelArg)]"
proof -
  let ?c = "m_connectionBufferChannel (conn W)"
  have inv: "ba_inv (m_readArray ?c)" using conn_inv_idle [OF assms(5)] by simp
  have rd: "channel_receive (\<lambda>_. SysErr e) [] ?c = Some (Inl (SocketException e))"
    using reader_vec_contents [OF assms(6)] assms(3)
    by (auto simp: channel_receive_def SocketIO_read_def stub_recvmsg_def restart_stops recvmsg_switch_def)
  have wr: "channel_transmit (\<lambda>_. SysErr e') ?c = Some (Inl (SocketException e'))"
    using reader_vec_contents [OF inv] assms(4)
    by (auto simp: channel_transmit_def SocketIO_write_def stub_sendmsg_def restart_stops sendmsg_switch_def Let_def)
  let ?V = "raise_user ErrorEvent (CodeArg (getError e)) W"
  obtain V where V: "forceClose ?V = Some V" "wheel V = None" "raised V = raised ?V @ [(Disconnect, ChannelArg)]"
      "m_connectionBufferChannel (conn V) = ?c"
    using forceClose_no_wheel [of ?V] assms(2) by auto
  let ?U = "set_waiting False (raise_user ErrorEvent (CodeArg (getError e')) V)"
  obtain U where U: "forceClose ?U = Some U" "m_state (conn U) = Closed" "raised U = raised ?U @ [(Disconnect, ChannelArg)]"
    using forceClose_no_wheel [of ?U] V(2) by auto
  have "handleEvents ((m_epollEvent (conn W))\<lparr>activeEvents := 0x5, handlerAlive := conn_alive W\<rparr>)
      = [HandleIn, HandleOut]"
    using assms(1) by (simp add: handleEvents_def)
  moreover have "handleIn (\<lambda>_. SysErr e) [] W = Some V"
    using rd V(1) assms(2) by (simp add: handleIn_def renewWheel_def getErrorCode_def Let_def)
  moreover have "handleOut (\<lambda>_. SysErr e') V = Some U"
    using wr U(1) V(2,4) by (simp add: handleOut_def renewWheel_def getErrorCode_def Let_def)
  ultimately show ?thesis using U V(3) by (simp add: run_batch_def)
qed

lemma io_error_disconnects_twice_witness:
  "\<exists>W'. run_batch 0x5 \<lparr>recv_calls = (\<lambda>_. SysErr ENOTCONN), recv_data = [], send_calls = (\<lambda>_. SysErr EPIPE)\<rparr> sample_world = Some W'
     \<and> length (raised W') = 4"
proof -
  have "conn_inv sample_world"
    unfolding sample_world_def by (rule fresh_inv) (unfold fresh_connection_def, intro exI, rule refl)
  then show ?thesis
    using io_error_disconnects_twice [of sample_world ENOTCONN EPIPE] by (auto simp: newTcpChannel_def ba_inv_new)
qed

subsection \<open>Connections in the wheel\<close>

lemma remove_weak_ok:
  assumes "wheel_inv w"
  shows "\<exists>w'. remove_weak r w = Some w' \<and> wheel_inv w' \<and> (\<forall>f. in_wheel f w' \<longleftrightarrow> in_wheel f w \<and> r \<noteq> Some f)
     \<and> m_bucketSize w' = m_bucketSize w"
proof (cases r)
  case None
  then show ?thesis using assms by (simp add: remove_weak_def)
next
  case (Some e)
  then show ?thesis
    using take_out_inv [OF assms] take_out_gone [OF assms refl, of _ e] assms
    by (cases "in_wheel e w") (auto simp: remove_weak_def removeFromWheel_eq [OF assms])
qed

lemma forget_entries_ok:
  assumes "wheel_inv w"
  shows "\<exists>w'. forget_entries c w = Some w' \<and> wheel_inv w' \<and> m_bucketSize w' = m_bucketSize w
     \<and> (\<forall>f. in_wheel f w' \<longleftrightarrow> in_wheel f w \<and> idleConnectionWheel c \<noteq> Some f \<and> halfCloseWheel c \<noteq> Some f)"
proof -
  obtain w1 where w1: "remove_weak (idleConnectionWheel c) w = Some w1" "wheel_inv w1"
      "\<forall>f. in_wheel f w1 \<longleftrightarrow> in_wheel f w \<and> idleConnectionWheel c \<noteq> Some f" "m_bucketSize w1 = m_bucketSize w"
    using remove_weak_ok [OF assms] by blast
  obtain w2 where "remove_weak (halfCloseWheel c) w1 = Some w2" "wheel_inv w2"
      "\<forall>f. in_wheel f w2 \<longleftrightarrow> in_wheel f w1 \<and> halfCloseWheel c \<noteq> Some f" "m_bucketSize w2 = m_bucketSize w1"
    using remove_weak_ok [OF w1(2)] by blast
  then show ?thesis using w1 by (simp add: forget_entries_def)
qed

text \<open>C11. With a well-formed wheel a forced close always succeeds: both entries leave the wheel, all
  others stay, the event is removed from the poller and the user is told once.\<close>

theorem forceClose_cleans_up:
  assumes "wheel W = Some w" "wheel_inv w"
  shows "\<exists>W' w'. forceClose W = Some W' \<and> wheel W' = Some w' \<and> wheel_inv w' \<and> \<not> conn_alive W'
     \<and> m_state (conn W') = Closed \<and> raised W' = raised W @ [(Disconnect, ChannelArg)]
     \<and> poll_events (m_poll (loop W')) (watchingFd (m_epollEvent (conn W))) = None
     \<and> (\<forall>f. in_wheel f w' \<longleftrightarrow> in_wheel f w \<and> idleConnectionWheel (conn W) \<noteq> Some f \<and> halfCloseWheel (conn W) \<noteq> Some f)"
proof -
  obtain w' where w': "forget_entries (conn W) w = Some w'" "wheel_inv w'"
      "\<forall>f. in_wheel f w' \<longleftrightarrow> in_wheel f w \<and> idleConnectionWheel (conn W) \<noteq> Some f \<and> halfCloseWheel (conn W) \<noteq> Some f"
    using forget_entries_ok [OF assms(2)] by blast
  then obtain W' where W': "forceClose W = Some W'" "wheel W' = Some w'"
      "poll_events (m_poll (loop W')) (watchingFd (m_epollEvent (conn W))) = None"
    using assms(1)
    by (simp add: forceClose_def Let_def with_event_def event_disable_def removeEvent_def split_beta
        set_state_def remove_handler_def raise_user_def stub_epoll_ctl_def split: option.splits sum.splits)
  then show ?thesis using w' forceClose_effect [OF W'(1)] by blast
qed

text \<open>Data on a half-closed connection does not postpone its forced close, although the handlers
  renew "the wheel": \<^verbatim>\<open>renewWheel\<close> renews the idle entry twice and leaves the
  half-close entry where it is.\<close>

lemma half_close_not_renewed:
  assumes "wheel W = Some w" "wheel_inv w" "idleConnectionWheel (conn W) = Some i"
    and "halfCloseWheel (conn W) = Some h" "in_wheel i w" "in_wheel h w" "i \<noteq> h"
  shows "\<exists>W' w'. renewWheel W = Some W' \<and> wheel W' = Some w' \<and> wheel_inv w' \<and> in_wheel h w'
     \<and> m_indexInWheel w' h = m_indexInWheel w h \<and> m_indexInWheel w' i = latestIndex w"
proof -
  have step: "\<exists>v'. renew_weak (Some i) v = Some v' \<and> wheel_inv v' \<and> in_wheel i v' \<and> in_wheel h v'
      \<and> m_indexInWheel v' h = m_indexInWheel v h \<and> m_indexInWheel v' i = latestIndex v
      \<and> latestIndex v' = latestIndex v"
    if "wheel_inv v" "in_wheel i v" "in_wheel h v" for v
  proof (cases "m_indexInWheel v i = latestIndex v")
    case True
    then show ?thesis using that by (simp add: renew_weak_def renew_eq)
  next
    case False
    let ?v = "take_out i (m_indexInWheel v i) v"
    note T = take_out_inv [OF that(1), of i "m_indexInWheel v i"] take_out_gone [OF that(1) refl, of _ i]
    have "wheel_inv (put_latest i ?v)" using put_latest_inv [OF T(1)] T(2) by simp
    moreover have "latestIndex (put_latest i ?v) = latestIndex v" by (simp add: latestIndex_def)
    ultimately show ?thesis
      using that False assms(7) put_latest_in_wheel [OF T(1)] T(2)
      by (simp add: renew_weak_def renew_eq)
  qed
  obtain v where v: "renew_weak (Some i) w = Some v" "wheel_inv v" "in_wheel i v" "in_wheel h v"
      "m_indexInWheel v h = m_indexInWheel w h" "latestIndex v = latestIndex w"
    using step [OF assms(2,5,6)] by blast
  obtain u where "renew_weak (Some i) v = Some u" "wheel_inv u" "in_wheel h u"
      "m_indexInWheel u h = m_indexInWheel v h" "m_indexInWheel u i = latestIndex v"
    using step [OF v(2,3,4)] by blast
  then show ?thesis
    using v assms(1,3,4,5) by (simp add: renewWheel_def weak_alive_def)
qed

text \<open>When the half-close entry times out, its handler force-closes the connection, which takes
  the entry out of the bucket that \<^verbatim>\<open>tick\<close> is iterating: \<^verbatim>\<open>tick\<close> goes on
  with an invalid iterator.\<close>

lemma half_close_timeout_breaks_tick:
  assumes "wheel_inv w" "m_buckets w ! next_index w = h # es" "halfCloseWheel c = Some h"
    and "\<And>w'. cb h w' = forget_entries c w'"
  shows "tick cb er w = None"
proof -
  let ?w = "w\<lparr>m_timeOutBucketIndex := next_index w\<rparr>"
  have i: "next_index w < m_bucketSize w" using wheel_invD(1,5) [OF assms(1)] by (auto simp: next_index_def)
  then have "wheel_inv ?w" using assms(1) by (simp add: wheel_inv_def)
  then obtain w' where w': "forget_entries c ?w = Some w'" "wheel_inv w'" "m_bucketSize w' = m_bucketSize ?w"
      "\<forall>f. in_wheel f w' \<longleftrightarrow> in_wheel f ?w \<and> idleConnectionWheel c \<noteq> Some f \<and> halfCloseWheel c \<noteq> Some f"
    using forget_entries_ok by blast
  have "\<not> in_wheel h w'" using w'(4) assms(3) by simp
  then have "h \<notin> set (m_buckets w' ! next_index w)"
    using i w'(3) wheel_invD(2) [OF w'(2)] by (simp add: in_wheel_ex)
  then show ?thesis
    using w'(1) assms(4) by (intro tick_self_removal [OF assms(1,2)]) simp_all
qed

lemma add_new_inv:
  assumes "wheel_inv w" "\<not> in_wheel e w"
  shows "wheel_inv (addToWheel e w)" "in_wheel f (addToWheel e w) \<longleftrightarrow> in_wheel f w \<or> f = e"
  using put_latest_inv [OF assms] put_latest_in_wheel [OF assms(1)] wheel_invD(5) [OF assms(1)]
  by (simp_all add: addToWheel_def)

lemma new_wheel_empty: "\<not> in_wheel e (newTimeWheel n)"
  by (auto simp: in_wheel_def newTimeWheel_def)

lemma forceClose_cleans_up_witness:
  "\<exists>W'. forceClose (sample_world\<lparr>wheel := Some (newTimeWheel 3)\<rparr>) = Some W' \<and> \<not> conn_alive W'"
  using forceClose_cleans_up [of "sample_world\<lparr>wheel := Some (newTimeWheel 3)\<rparr>" "newTimeWheel 3"]
  by (auto simp: new_wheel_inv)

lemma half_close_not_renewed_witness:
  "\<exists>W' w'. renewWheel (sample_world\<lparr>conn := (conn sample_world)\<lparr>idleConnectionWheel := Some 5, halfCloseWheel := Some 6\<rparr>,
      wheel := Some (addToWheel 6 (addToWheel 5 (newTimeWheel 3)))\<rparr>) = Some W' \<and> wheel W' = Some w' \<and> in_wheel 6 w'"
proof -
  have "wheel_inv (newTimeWheel 3)" by (simp add: new_wheel_inv)
  note a = add_new_inv [OF this new_wheel_empty, where e = 5]
  have n: "\<not> in_wheel 6 (addToWheel 5 (newTimeWheel 3))" by (simp add: a(2) new_wheel_empty)
  note b = add_new_inv [OF a(1) n]
  show ?thesis
    using half_close_not_renewed [of "sample_world\<lparr>conn := (conn sample_world)\<lparr>idleConnectionWheel := Some 5,
        halfCloseWheel := Some 6\<rparr>, wheel := Some (addToWheel 6 (addToWheel 5 (newTimeWheel 3)))\<rparr>"
        "addToWheel 6 (addToWheel 5 (newTimeWheel 3))" 5 6] a b by auto
qed

lemma half_close_timeout_breaks_tick_witness:
  "tick (\<lambda>_. forget_entries ((conn sample_world)\<lparr>halfCloseWheel := Some 5\<rparr>)) (\<lambda>_. True)
     (addToWheel 5 (newTimeWheel 2)) = None"
proof (rule half_close_timeout_breaks_tick)
  show "wheel_inv (addToWheel 5 (newTimeWheel 2))"
    by (rule add_new_inv [OF new_wheel_inv new_wheel_empty]) simp
  show "m_buckets (addToWheel 5 (newTimeWheel 2)) ! next_index (addToWheel 5 (newTimeWheel 2)) = [5]"
    by (simp add: addToWheel_def put_latest_def newTimeWheel_def latestIndex_def next_index_def set_insert_def numeral_2_eq_2)
qed simp_all

end
