(* ===== verification/Kick.thy ===== *)
theory Kick
  imports TcpConnection
begin

text \<open>
  A connection and the time wheel of its loop together: \<^verbatim>\<open>TimeWheel::tick\<close> with the
  callbacks of \<^verbatim>\<open>src/internal/handlers/TcpConnection.cpp\<close> for the connection's two
  entries, which change the connection and the wheel. The callbacks of the entries of other
  connections are the parameter \<open>others\<close>, on the wheel alone.
\<close>

definition entry_onTimeout :: "(nat \<Rightarrow> TimeWheel \<Rightarrow> TimeWheel option) \<Rightarrow> nat \<Rightarrow> World \<Rightarrow> World option" where
  "entry_onTimeout others e W =
     (if idleConnectionWheel (conn W) = Some e then Some (idle_onTimeout W)
      else if halfCloseWheel (conn W) = Some e then halfClose_onTimeout W
      else do { w \<leftarrow> wheel W; w \<leftarrow> others e w; Some (W\<lparr>wheel := Some w\<rparr>) })"

text \<open>The loop of \<^verbatim>\<open>tick\<close>, as in \<^theory_text>\<open>tick_loop\<close>; both entries are erased on timeout.\<close>

fun world_tick_loop :: "(nat \<Rightarrow> TimeWheel \<Rightarrow> TimeWheel option) \<Rightarrow> nat \<Rightarrow> nat list \<Rightarrow> World \<Rightarrow> World option" where
  "world_tick_loop others i [] W = Some W"
| "world_tick_loop others i (e # es) W = do {
     w \<leftarrow> wheel W;
     if e \<in> set (m_buckets w ! i) then do {
       W \<leftarrow> entry_onTimeout others e W;
       w \<leftarrow> wheel W;
       if e \<in> set (m_buckets w ! i)
       then world_tick_loop others i es
              (W\<lparr>wheel := Some (w\<lparr>m_buckets := (m_buckets w)[i := removeAll e (m_buckets w ! i)]\<rparr>)\<rparr>)
       else None
     } else world_tick_loop others i es W
   }"

definition world_tick :: "(nat \<Rightarrow> TimeWheel \<Rightarrow> TimeWheel option) \<Rightarrow> World \<Rightarrow> World option" where
  "world_tick others W = do {
     w \<leftarrow> wheel W;
     let i = (if m_timeOutBucketIndex w + 1 = m_bucketSize w then 0 else m_timeOutBucketIndex w + 1);
     bucket \<leftarrow> nth_opt (m_buckets w) i;
     world_tick_loop others i bucket (W\<lparr>wheel := Some (w\<lparr>m_timeOutBucketIndex := i\<rparr>)\<rparr>)
   }"

fun world_ticks :: "(nat \<Rightarrow> TimeWheel \<Rightarrow> TimeWheel option) \<Rightarrow> nat \<Rightarrow> World \<Rightarrow> World option" where
  "world_ticks others 0 W = Some W"
| "world_ticks others (Suc k) W = do { W \<leftarrow> world_tick others W; world_ticks others k W }"

lemma world_ticks_add:
  "world_ticks others (j + k) W = do { W \<leftarrow> world_ticks others j W; world_ticks others k W }"
  by (induction j arbitrary: W) (auto split: Option.bind_splits)

definition own_entries :: "World \<Rightarrow> nat set" where
  "own_entries W = {e. idleConnectionWheel (conn W) = Some e \<or> halfCloseWheel (conn W) = Some e}"

text \<open>While no entry of the connection times out, a tick is one of the wheel alone.\<close>

lemma world_tick_loop_others:
  "wheel W = Some w \<Longrightarrow> set es \<inter> own_entries W = {} \<Longrightarrow>
   world_tick_loop others i es W = map_option (\<lambda>w. W\<lparr>wheel := Some w\<rparr>) (tick_loop others (\<lambda>_. True) i es w)"
proof (induction es arbitrary: W w)
  case Nil
  then show ?case by (cases W) simp
next
  case (Cons e es)
  show ?case
  proof (cases "e \<in> set (m_buckets w ! i)")
    case False
    with Cons show ?thesis by simp
  next
    case True
    have own: "own_entries (W\<lparr>wheel := x\<rparr>) = own_entries W" for x by (simp add: own_entries_def)
    have e: "entry_onTimeout others e W = map_option (\<lambda>w. W\<lparr>wheel := Some w\<rparr>) (others e w)"
      using Cons.prems by (auto simp: entry_onTimeout_def own_entries_def split: Option.bind_splits)
    show ?thesis
    proof (cases "others e w")
      case None
      then show ?thesis using True Cons.prems(1) e by simp
    next
      case (Some w1)
      then show ?thesis
        using True Cons.prems e
          Cons.IH [of "W\<lparr>wheel := Some (w1\<lparr>m_buckets := (m_buckets w1)[i := removeAll e (m_buckets w1 ! i)]\<rparr>)\<rparr>"]
        by (simp add: own)
    qed
  qed
qed

lemma world_tick_others:
  assumes "wheel W = Some w" "wheel_inv w" "set (m_buckets w ! next_index w) \<inter> own_entries W = {}"
  shows "world_tick others W = map_option (\<lambda>w. W\<lparr>wheel := Some w\<rparr>) (tick others (\<lambda>_. True) w)"
proof -
  have i: "next_index w < length (m_buckets w)"
    using wheel_invD(1,2,5) [OF assms(2)] by (auto simp: next_index_def)
  let ?w = "w\<lparr>m_timeOutBucketIndex := next_index w\<rparr>"
  have own: "own_entries (W\<lparr>wheel := x\<rparr>) = own_entries W" for x by (simp add: own_entries_def)
  show ?thesis
    using i world_tick_loop_others [of "W\<lparr>wheel := Some ?w\<rparr>" ?w "m_buckets w ! next_index w" others "next_index w"]
      assms(1,3)
    unfolding world_tick_def next_index_def [symmetric] tick_eq [OF assms(2)] by (simp add: own Let_def next_index_def [symmetric])
qed

text \<open>Entries of this connection that do not time out stay as they are.\<close>

lemma tick_keeps:
  assumes "benign f others" "wheel_inv w" "f \<notin> set (m_buckets w ! next_index w)" "tick others er w = Some w'"
  shows "wheel_inv w' \<and> m_bucketSize w' = m_bucketSize w \<and> m_timeOutBucketIndex w' = next_index w
     \<and> m_indexInWheel w' f = m_indexInWheel w f \<and> (in_wheel f w' \<longleftrightarrow> in_wheel f w)"
proof -
  let ?w = "w\<lparr>m_timeOutBucketIndex := next_index w\<rparr>"
  have i: "next_index w < m_bucketSize w" using wheel_invD(1,5) [OF assms(2)] by (auto simp: next_index_def)
  then have "wheel_inv ?w" using assms(2) by (simp add: wheel_inv_def)
  then have "same_for f ?w w'"
    using tick_loop_benign [OF assms(1) _ _ assms(3), of ?w "next_index w" er] i assms(4)
    by (auto simp: tick_eq [OF assms(2)])
  then show ?thesis by (simp add: same_for_def in_wheel_def)
qed

text \<open>The only entry of the connection in the wheel \<open>w\<close> is \<open>e\<close>.\<close>

definition only_entry :: "nat \<Rightarrow> World \<Rightarrow> TimeWheel \<Rightarrow> bool" where
  "only_entry e W w \<longleftrightarrow> wheel_inv w \<and> e \<in> own_entries W \<and> in_wheel e w
     \<and> (\<forall>f \<in> own_entries W - {e}. \<not> in_wheel f w)"

lemma own_entries_wheel [simp]: "own_entries (W\<lparr>wheel := x\<rparr>) = own_entries W"
  "own_entries (W\<lparr>pending := y\<rparr>) = own_entries W"
  by (simp_all add: own_entries_def)

lemma bucket_in_wheel:
  "wheel_inv w \<Longrightarrow> f \<in> set (m_buckets w ! next_index w) \<Longrightarrow> in_wheel f w \<and> m_indexInWheel w f = next_index w"
proof -
  assume w: "wheel_inv w" and f: "f \<in> set (m_buckets w ! next_index w)"
  have "next_index w < m_bucketSize w" using wheel_invD(1,5) [OF w] by (auto simp: next_index_def)
  then show ?thesis using f wheel_invD(2,4) [OF w] by (auto simp: in_wheel_ex)
qed

lemma world_tick_waits:
  assumes "wheel W = Some w" "only_entry e W w" "\<forall>f \<in> own_entries W. benign f others"
    and "m_indexInWheel w e \<noteq> next_index w"
  shows "\<exists>w'. world_tick others W = Some (W\<lparr>wheel := Some w'\<rparr>) \<and> only_entry e W w'
     \<and> m_bucketSize w' = m_bucketSize w \<and> m_timeOutBucketIndex w' = next_index w
     \<and> m_indexInWheel w' e = m_indexInWheel w e"
proof -
  have w: "wheel_inv w" "in_wheel e w" "e \<in> own_entries W" using assms(2) by (simp_all add: only_entry_def)
  have own: "f \<notin> set (m_buckets w ! next_index w)" if "f \<in> own_entries W" for f
    using bucket_in_wheel [OF w(1), of f] assms(2,4) that by (auto simp: only_entry_def)
  obtain w' where w': "tick others (\<lambda>_. True) w = Some w'"
    using tick_other [OF _ w(1,2) assms(4)] assms(3) w(3) by blast
  note K = tick_keeps [OF bspec [OF assms(3)] w(1) own w']
  have "world_tick others W = Some (W\<lparr>wheel := Some w'\<rparr>)"
    by (subst world_tick_others [OF assms(1) w(1)]) (use own w' in auto)
  then show ?thesis using K w assms(2) by (auto simp: only_entry_def)
qed

lemma world_ticks_wait:
  assumes "wheel W = Some w" "only_entry e W w" "\<forall>f \<in> own_entries W. benign f others" "distance e w = Suc k"
  shows "\<exists>w'. world_ticks others k W = Some (W\<lparr>wheel := Some w'\<rparr>) \<and> only_entry e W w'
     \<and> m_bucketSize w' = m_bucketSize w \<and> m_indexInWheel w' e = next_index w'"
  using assms
proof (induction k arbitrary: W w)
  case 0
  have w: "wheel_inv w" "in_wheel e w" using 0 by (simp_all add: only_entry_def)
  have "m_indexInWheel w e < m_bucketSize w" using w in_wheel_pos by blast
  with 0 wheel_invD(1) [OF w(1)] distance_one show ?case
    by (intro exI [of _ w]) (simp add: distance_def next_index_def)
next
  case (Suc k)
  have w: "wheel_inv w" "in_wheel e w" using Suc.prems by (simp_all add: only_entry_def)
  have pos: "m_indexInWheel w e < m_bucketSize w" using w in_wheel_pos by blast
  have d: "1 < (m_indexInWheel w e + m_bucketSize w - m_timeOutBucketIndex w) mod m_bucketSize w"
    using Suc.prems(4) by (simp add: distance_def)
  note step = distance_step [OF pos wheel_invD(1) [OF w(1)] d]
  obtain w1 where w1: "world_tick others W = Some (W\<lparr>wheel := Some w1\<rparr>)" "only_entry e W w1"
      "m_bucketSize w1 = m_bucketSize w" "m_timeOutBucketIndex w1 = next_index w"
      "m_indexInWheel w1 e = m_indexInWheel w e"
    using world_tick_waits [OF Suc.prems(1-3)] step(2) by (auto simp: next_index_def)
  then have "distance e w1 = Suc k"
    using step(1) Suc.prems(4) by (simp add: distance_def next_index_def)
  with Suc.IH [of "W\<lparr>wheel := Some w1\<rparr>" w1] w1 Suc.prems(3) show ?case
    by (auto simp: only_entry_def)
qed

lemma world_tick_loop_append:
  "world_tick_loop others i (xs @ ys) W
     = do { W \<leftarrow> world_tick_loop others i xs W; world_tick_loop others i ys W }"
  by (induction xs arbitrary: W) (auto split: Option.bind_splits)

text \<open>The tick on which \<open>e\<close> times out, up to the call of its callback.\<close>

lemma world_tick_reaches:
  assumes "wheel W = Some w" "only_entry e W w" "\<forall>f \<in> own_entries W. benign f others"
    and "m_indexInWheel w e = next_index w"
  obtains w1 ys where "world_tick others W = world_tick_loop others (next_index w) (e # ys) (W\<lparr>wheel := Some w1\<rparr>)"
    "only_entry e W w1" "m_bucketSize w1 = m_bucketSize w" "e \<in> set (m_buckets w1 ! next_index w)"
    "set ys \<inter> own_entries W = {}" "m_indexInWheel w1 e = next_index w" "next_index w < m_bucketSize w"
proof -
  have w: "wheel_inv w" "in_wheel e w" "e \<in> own_entries W" using assms(2) by (simp_all add: only_entry_def)
  have i: "next_index w < m_bucketSize w" "next_index w < length (m_buckets w)"
    using wheel_invD(1,2,5) [OF w(1)] by (auto simp: next_index_def)
  let ?i = "next_index w" and ?w = "w\<lparr>m_timeOutBucketIndex := next_index w\<rparr>"
  have inv: "wheel_inv ?w" using w(1) i(1) by (simp add: wheel_inv_def)
  have "e \<in> set (m_buckets w ! ?i)" using w assms(4) in_wheel_pos [OF w(1)] by metis
  then obtain xs ys where b: "m_buckets w ! ?i = xs @ e # ys" by (meson split_list)
  have d: "distinct (xs @ e # ys)" using wheel_invD(3) [OF w(1) i(1)] b by simp
  have own: "f = e" if "f \<in> own_entries W" "f \<in> set (xs @ e # ys)" for f
    using bucket_in_wheel [OF w(1), of f] assms(2) that b by (auto simp: only_entry_def)
  then have xs: "set xs \<inter> own_entries W = {}" and ys: "set ys \<inter> own_entries W = {}" using d by auto
  obtain w1 where w1: "tick_loop others (\<lambda>_. True) ?i xs ?w = Some w1"
    using tick_loop_benign [OF bspec [OF assms(3) w(3)] inv, of ?i xs] i(1) d by auto
  have same: "same_for f ?w w1" if "f \<in> own_entries W" for f
    using tick_loop_benign [OF bspec [OF assms(3) that] inv, of ?i xs "\<lambda>_. True"] i(1) w1 that xs by auto
  have only: "only_entry e W w1" using same w assms(2) by (auto simp: only_entry_def same_for_def in_wheel_def)
  have m: "m_bucketSize w1 = m_bucketSize w" "m_indexInWheel w1 e = ?i"
    using same [OF w(3)] assms(4) by (simp_all add: same_for_def)
  have "world_tick_loop others ?i xs (W\<lparr>wheel := Some ?w\<rparr>) = Some (W\<lparr>wheel := Some w1\<rparr>)"
    using world_tick_loop_others [of "W\<lparr>wheel := Some ?w\<rparr>" ?w xs others ?i] w1 xs by simp
  then have "world_tick others W = world_tick_loop others ?i (e # ys) (W\<lparr>wheel := Some w1\<rparr>)"
    using assms(1) i(2) b unfolding world_tick_def next_index_def [symmetric] Let_def
    by (simp add: world_tick_loop_append next_index_def [symmetric] del: world_tick_loop.simps)
  moreover have "e \<in> set (m_buckets w1 ! ?i)"
    using only m in_wheel_pos [of w1 e] by (simp add: only_entry_def)
  ultimately show thesis using that only m ys i(1) by blast
qed

subsection \<open>From idle to half closed\<close>

text \<open>When the idle entry times out, closing is queued and the entry is gone from the wheel.\<close>

lemma idle_tick:
  assumes "wheel W = Some w" "only_entry e W w" "\<forall>f \<in> own_entries W. benign f others"
    and "m_indexInWheel w e = next_index w" "idleConnectionWheel (conn W) = Some e" "conn_alive W"
  shows "\<exists>w'. world_tick others W = Some (W\<lparr>pending := pending W @ [CloseFunctor], wheel := Some w'\<rparr>)
     \<and> wheel_inv w' \<and> m_bucketSize w' = m_bucketSize w \<and> (\<forall>f \<in> own_entries W. \<not> in_wheel f w')"
proof -
  obtain w1 ys where r: "world_tick others W = world_tick_loop others (next_index w) (e # ys) (W\<lparr>wheel := Some w1\<rparr>)"
      "only_entry e W w1" "m_bucketSize w1 = m_bucketSize w" "e \<in> set (m_buckets w1 ! next_index w)"
      "set ys \<inter> own_entries W = {}" "m_indexInWheel w1 e = next_index w" "next_index w < m_bucketSize w"
    using world_tick_reaches [OF assms(1-4)] .
  let ?i = "next_index w" and ?w2 = "take_out e (next_index w) w1"
  have e: "e \<in> own_entries W" and inv: "wheel_inv w1" using r(2) by (simp_all add: only_entry_def)
  let ?W = "W\<lparr>pending := pending W @ [CloseFunctor]\<rparr>"
  have "entry_onTimeout others e (W\<lparr>wheel := Some w1\<rparr>) = Some (?W\<lparr>wheel := Some w1\<rparr>)"
    using assms(5,6)
    by (simp add: entry_onTimeout_def idle_onTimeout_def closeAfterWriteCompleted_def conn_alive_def)
  then have "world_tick others W = world_tick_loop others ?i ys (?W\<lparr>wheel := Some ?w2\<rparr>)"
    using r(1,4) by (simp add: take_out_def)
  also have "\<dots> = map_option (\<lambda>w. ?W\<lparr>wheel := Some w\<rparr>) (tick_loop others (\<lambda>_. True) ?i ys ?w2)"
    using r(5) by (subst world_tick_loop_others [of _ ?w2]) simp_all
  finally have tick: "world_tick others W
      = map_option (\<lambda>w. ?W\<lparr>wheel := Some w\<rparr>) (tick_loop others (\<lambda>_. True) ?i ys ?w2)" .
  note T = take_out_inv [OF inv, of e ?i] take_out_gone [OF inv r(6)]
  have gone: "\<not> in_wheel f ?w2" if "f \<in> own_entries W" for f
    using T(2) r(2) that by (auto simp: only_entry_def)
  obtain w3 where w3: "tick_loop others (\<lambda>_. True) ?i ys ?w2 = Some w3"
    using tick_loop_benign [OF bspec [OF assms(3) e], of ?w2 ?i ys "\<lambda>_. True"] T(1) r(3,5,7) e by auto
  have "same_for f ?w2 w3" if "f \<in> own_entries W" for f
    using tick_loop_benign [OF bspec [OF assms(3) that], of ?w2 ?i ys "\<lambda>_. True"] T(1) r(3,5,7) w3 that by auto
  then have "wheel_inv w3 \<and> m_bucketSize w3 = m_bucketSize w \<and> (\<forall>f \<in> own_entries W. \<not> in_wheel f w3)"
    using gone e r(3) by (auto simp: same_for_def)
  then show ?thesis using tick w3 by auto
qed

text \<open>When the half-close entry times out, its own removal invalidates the iterator of
  \<^verbatim>\<open>tick\<close>.\<close>

lemma half_close_tick:
  assumes "wheel W = Some w" "only_entry h W w" "\<forall>f \<in> own_entries W. benign f others"
    and "m_indexInWheel w h = next_index w" "halfCloseWheel (conn W) = Some h" "conn_alive W"
    and "idleConnectionWheel (conn W) \<noteq> Some h"
  shows "world_tick others W = None"
proof -
  obtain w1 ys where r: "world_tick others W = world_tick_loop others (next_index w) (h # ys) (W\<lparr>wheel := Some w1\<rparr>)"
      "only_entry h W w1" "m_bucketSize w1 = m_bucketSize w" "h \<in> set (m_buckets w1 ! next_index w)"
      "next_index w < m_bucketSize w"
    using world_tick_reaches [OF assms(1-4)] by metis
  have inv: "wheel_inv w1" using r(2) by (simp add: only_entry_def)
  have a: "entry_onTimeout others h (W\<lparr>wheel := Some w1\<rparr>) = forceClose (W\<lparr>wheel := Some w1\<rparr>)"
    using assms(5-7) by (simp add: entry_onTimeout_def halfClose_onTimeout_def conn_alive_def)
  obtain w' where w': "forget_entries (conn W) w1 = Some w'" "wheel_inv w'" "m_bucketSize w' = m_bucketSize w1"
      "\<not> in_wheel h w'"
    using forget_entries_ok [OF inv, of "conn W"] assms(5) by blast
  obtain W' where W': "forceClose (W\<lparr>wheel := Some w1\<rparr>) = Some W'" "wheel W' = Some w'"
    using w'(1) by (simp add: forceClose_def Let_def with_event_def split_beta set_state_def raise_user_def)
  have "h \<notin> set (m_buckets w' ! next_index w)"
    using w'(3,4) r(3,5) wheel_invD(2) [OF w'(2)] by (auto simp: in_wheel_ex)
  then show ?thesis using r(1,4) a W' by simp
qed

lemma new_entry_distance:
  assumes "wheel_inv w" "2 \<le> m_bucketSize w"
  shows "distance e (addToWheel e w) = Suc (m_bucketSize w - 2)" "m_bucketSize (addToWheel e w) = m_bucketSize w"
  using wheel_invD(1) [OF assms(1)] assms(2)
  by (auto simp: addToWheel_def distance_def latestIndex_def mod_if)

lemma new_only_entry:
  assumes "wheel_inv w" "\<not> in_wheel e w" "e \<in> own_entries W" "\<forall>f \<in> own_entries W - {e}. \<not> in_wheel f w"
  shows "only_entry e W (addToWheel e w)"
  using add_new_inv [OF assms(1,2)] assms(3,4) by (auto simp: only_entry_def)

lemma makeTcpConnection_wheel:
  fixes cid eid fd l w e
  defines "W \<equiv> makeTcpConnection cid eid fd l (Some w) e"
  shows "wheel W = Some (addToWheel e w)" "idleConnectionWheel (conn W) = Some e" "halfCloseWheel (conn W) = None"
    "pending W = []" "raised W = []" "conn_alive W" "m_state (conn W) = Established" "m_isWaitWriting (conn W) = False"
  by (simp_all add: W_def makeTcpConnection_def Let_def conn_active_def with_event_def event_active_def
      split_beta conn_alive_def add_handler_def)



text \<open>From half closed on, when nothing else happens, the forced close comes \<open>n - 1\<close> ticks later
  and leaves \<^verbatim>\<open>tick\<close> with an invalid iterator.\<close>

lemma half_closed_connection_breaks_wheel:
  assumes "wheel W = Some w" "wheel_inv w" "2 \<le> m_bucketSize w" "conn_alive W" "m_state (conn W) = Established"
    and "\<not> m_isWaitWriting (conn W)" "halfCloseWheel (conn W) = None" "idleConnectionWheel (conn W) = Some e"
    and "\<not> in_wheel e w" "\<not> in_wheel (nextEntry W) w" "e \<noteq> nextEntry W" "benign e others" "benign (nextEntry W) others"
  shows "world_ticks others (m_bucketSize w - 1) (run_functor CloseFunctor W) = None"
proof -
  let ?h = "nextEntry W" and ?W = "run_functor CloseFunctor W"
  have f: "wheel ?W = Some (addToWheel ?h w)" "halfCloseWheel (conn ?W) = Some ?h"
      "idleConnectionWheel (conn ?W) = Some e" "conn_alive ?W"
    using assms(1,4-8)
    by (simp_all add: run_close_def conn_alive_def Let_def set_state_def conn_deactivate_def with_event_def split_beta)
  have own: "own_entries ?W = {e, ?h}" using f(2,3) by (auto simp: own_entries_def)
  have only: "only_entry ?h ?W (addToWheel ?h w)"
    by (rule new_only_entry [OF assms(2,10)]) (use own assms(9) in auto)
  obtain w1 where w1: "world_ticks others (m_bucketSize w - 2) ?W = Some (?W\<lparr>wheel := Some w1\<rparr>)"
      "only_entry ?h ?W w1" "m_indexInWheel w1 ?h = next_index w1"
    using world_ticks_wait [OF f(1) only _ new_entry_distance(1) [OF assms(2,3)], of others] assms(12,13) own by auto
  have "world_tick others (?W\<lparr>wheel := Some w1\<rparr>) = None"
    by (rule half_close_tick [of _ w1 ?h]) (use f own w1 assms(11-13) in \<open>auto simp: only_entry_def conn_alive_def\<close>)
  moreover have "m_bucketSize w - 1 = (m_bucketSize w - 2) + Suc 0" using assms(3) by simp
  ultimately show ?thesis using w1(1) by (simp only: world_ticks_add) simp
qed

end
