(* ===== verification/Net.thy ===== *)
theory Net
  imports TcpConnection
begin

text \<open>
  The loops of a dispatcher as the handlers that create connections see them: the loops
  with their pollers and time wheels, the connections made so far with the loop each lives in,
  and the events raised for the user. Handlers, epoll events and wheel entries are numbered;
  \<open>nextId\<close> is the next unused number. A connection gets its loop by
  \<^verbatim>\<open>EventLoopDispatcher::dispatchEventLoop\<close>, so it can live in another loop than
  the handler that made it.
\<close>

record Net =
  dispatcher :: EventLoopDispatcher
  loops :: "nat \<Rightarrow> EventLoopImpl"
  wheels :: "nat \<Rightarrow> TimeWheel option"
  nextId :: nat
  made :: "(nat \<times> Connection) list"
  told :: "(event_kind \<times> event_arg) list"

definition newNet :: "nat \<Rightarrow> Net" where
  "newNet n = \<lparr>dispatcher = newDispatcher n, loops = (\<lambda>_. newEventLoop), wheels = (\<lambda>_. None),
     nextId = 0, made = [], told = []\<rparr>"

definition tell :: "event_kind \<Rightarrow> event_arg \<Rightarrow> Net \<Rightarrow> Net" where
  "tell k a N = N\<lparr>told := told N @ [(k, a)]\<rparr>"

definition on_loop :: "nat \<Rightarrow> (EventLoopImpl \<Rightarrow> EventLoopImpl) \<Rightarrow> Net \<Rightarrow> Net" where
  "on_loop i f N = N\<lparr>loops := (loops N)(i := f (loops N i))\<rparr>"

text \<open>An operation of an epoll event of a handler that lives in loop \<open>i\<close>.\<close>

definition on_event :: "nat \<Rightarrow> (EpollEvent \<times> Epoll \<Rightarrow> EpollEvent \<times> Epoll) \<Rightarrow> EpollEvent \<times> Net \<Rightarrow> EpollEvent \<times> Net" where
  "on_event i f s = (let (e, p) = f (fst s, m_poll (loops (snd s) i)) in
     (e, on_loop i (\<lambda>l. l\<lparr>m_poll := p\<rparr>) (snd s)))"

definition net_dispatch :: "Net \<Rightarrow> nat option \<times> Net" where
  "net_dispatch N = (let (i, d) = dispatchEventLoop (dispatcher N) in (i, N\<lparr>dispatcher := d\<rparr>))"

text \<open>\<^verbatim>\<open>TcpConnection::makeTcpConnection(_dispatcher->dispatchEventLoop(), socket, events)\<close>;
  without a loop the null pointer is followed.\<close>

definition net_connection :: "int \<Rightarrow> Net \<Rightarrow> Net option" where
  "net_connection fd N = (let (i, N) = net_dispatch N in do {
     i \<leftarrow> i;
     let W = makeTcpConnection (nextId N) (nextId N + 1) fd (loops N i) (wheels N i) (nextId N + 2);
     Some (N\<lparr>loops := (loops N)(i := loop W), wheels := (wheels N)(i := wheel W),
             nextId := nextId N + 3, made := made N @ [(i, conn W)]\<rparr>)
   })"

subsection \<open>Effects\<close>

lemma net_ops [simp]:
  "dispatcher (tell k a N) = dispatcher N" "loops (tell k a N) = loops N" "wheels (tell k a N) = wheels N"
  "nextId (tell k a N) = nextId N" "made (tell k a N) = made N" "told (tell k a N) = told N @ [(k, a)]"
  "dispatcher (on_loop i f N) = dispatcher N" "loops (on_loop i f N) = (loops N)(i := f (loops N i))"
  "wheels (on_loop i f N) = wheels N" "nextId (on_loop i f N) = nextId N" "made (on_loop i f N) = made N"
  "told (on_loop i f N) = told N"
  by (simp_all add: tell_def on_loop_def)

definition next_loop :: "Net \<Rightarrow> nat" where
  "next_loop N = Suc (m_dispatchIndex (dispatcher N)) mod m_loopCount (dispatcher N)"

definition net_ok :: "Net \<Rightarrow> bool" where
  "net_ok N \<longleftrightarrow> m_dispatchIndex (dispatcher N) < m_loopCount (dispatcher N)"

lemma net_dispatch_eq:
  "net_ok N \<Longrightarrow> net_dispatch N = (Some (next_loop N), N\<lparr>dispatcher := (dispatcher N)\<lparr>m_dispatchIndex := next_loop N\<rparr>\<rparr>)"
  by (simp add: net_dispatch_def net_ok_def next_loop_def dispatch_step)

lemma net_ok_ops [simp]:
  "net_ok (tell k a N) = net_ok N" "net_ok (on_loop i f N) = net_ok N"
  by (simp_all add: net_ok_def)

lemma newNet_ok: "0 < n \<Longrightarrow> net_ok (newNet n)"
  by (simp add: net_ok_def newNet_def newDispatcher_def)

text \<open>A new connection is established, lives in the next loop of the dispatcher, is held by it and
  watches its descriptor for data and for the end of the stream there; nothing else of the
  other loops changes.\<close>

lemma makeTcpConnection_effect:
  assumes "W = makeTcpConnection cid eid fd l tw entry"
  shows "connId (conn W) = cid" "eventId (conn W) = eid" "m_state (conn W) = Established"
    "watchingFd (m_epollEvent (conn W)) = fd" "m_handlers (loop W) = insert cid (m_handlers l)"
    "poll_events (m_poll (loop W)) = (poll_events (m_poll l))(fd \<mapsto> eid)"
    "watches (watchingEvents (m_epollEvent (conn W))) ev \<longleftrightarrow> ev \<in> {EV_IN, EV_RDHUP}"
    "m_loopRunning (loop W) = m_loopRunning l"
  using assms
  by (auto simp: makeTcpConnection_def Let_def conn_active_def with_event_def split_beta add_handler_def
      event_active_def newEpollEvent_def updateEvent_def stub_epoll_ctl_def watches_active
      split: option.splits) (simp_all add: watches_def)

lemma net_connection_effect:
  assumes "net_ok N"
  shows "\<exists>N' C. net_connection fd N = Some N' \<and> net_ok N' \<and> made N' = made N @ [(next_loop N, C)]
     \<and> told N' = told N \<and> nextId N < nextId N'
     \<and> m_state C = Established \<and> watchingFd (m_epollEvent C) = fd
     \<and> m_handlers (loops N' (next_loop N)) = insert (connId C) (m_handlers (loops N (next_loop N)))
     \<and> poll_events (m_poll (loops N' (next_loop N))) = (poll_events (m_poll (loops N (next_loop N))))(fd \<mapsto> eventId C)
     \<and> (\<forall>j. j \<noteq> next_loop N \<longrightarrow> loops N' j = loops N j)
     \<and> nextId N \<le> connId C \<and> connId C < nextId N'
     \<and> next_loop N' = Suc (next_loop N) mod m_loopCount (dispatcher N)
     \<and> m_loopCount (dispatcher N') = m_loopCount (dispatcher N)"
proof -
  let ?i = "next_loop N"
  let ?W = "makeTcpConnection (nextId N) (nextId N + 1) fd (loops N ?i) (wheels N ?i) (nextId N + 2)"
  have i: "?i < m_loopCount (dispatcher N)" using assms by (simp add: net_ok_def next_loop_def)
  let ?N' = "N\<lparr>dispatcher := (dispatcher N)\<lparr>m_dispatchIndex := ?i\<rparr>, loops := (loops N)(?i := loop ?W),
      wheels := (wheels N)(?i := wheel ?W), nextId := nextId N + 3, made := made N @ [(?i, conn ?W)]\<rparr>"
  have "net_connection fd N = Some ?N'"
    by (simp add: net_connection_def net_dispatch_eq [OF assms] Let_def)
  then show ?thesis
    using i makeTcpConnection_effect [of ?W, OF refl]
    by (intro exI [of _ ?N'] exI [of _ "conn ?W"]) (simp add: net_ok_def next_loop_def)
qed

end
