(* ===== verification/Connector.thy ===== *)
theory Connector
  imports Net Timer Socket
begin

text \<open>
  Connecting to a peer (\<^verbatim>\<open>src/internal/handlers/Connector.cpp\<close>) and the client on
  top of it (\<^verbatim>\<open>src/TcpClient.cpp\<close>): the connector's state and retry timer, the
  functors it hands to its loop, and the connection it makes. An operation is
  \<^term>\<open>None\<close> when a null pointer is followed or an exception leaves the event loop,
  which ends the loop. The timer's own handler is not part of the state.
\<close>

datatype connector_functor = ConnectFunctor | StopConnectFunctor

record 'addr Connector =
  connectorId :: nat
  connectorLoop :: nat
  m_socket :: "'addr Socket option"
  connectorEvent :: EpollEvent
  connectorEventId :: nat
  connectorState :: TcpState
  m_retryTimer :: "Timer option"
  m_connectionEstablished :: bool

record 'addr ConnectorWorld =
  connector :: "'addr Connector"
  net :: Net
  functors :: "connector_functor list"

definition upd_connector :: "('addr Connector \<Rightarrow> 'addr Connector) \<Rightarrow> 'addr ConnectorWorld \<Rightarrow> 'addr ConnectorWorld" where
  "upd_connector f W = W\<lparr>connector := f (connector W)\<rparr>"

definition upd_net :: "(Net \<Rightarrow> Net) \<Rightarrow> 'addr ConnectorWorld \<Rightarrow> 'addr ConnectorWorld" where
  "upd_net f W = W\<lparr>net := f (net W)\<rparr>"

definition connector_event :: "(EpollEvent \<times> Epoll \<Rightarrow> EpollEvent \<times> Epoll) \<Rightarrow> 'addr ConnectorWorld \<Rightarrow> 'addr ConnectorWorld" where
  "connector_event f W = (let (e, N) = on_event (connectorLoop (connector W)) f (connectorEvent (connector W), net W) in
     W\<lparr>connector := (connector W)\<lparr>connectorEvent := e\<rparr>, net := N\<rparr>)"

definition connector_active :: "EpollEv list \<Rightarrow> 'addr ConnectorWorld \<Rightarrow> 'addr ConnectorWorld" where
  "connector_active evs W = connector_event (event_active (connectorEventId (connector W)) evs (SysOk 0)) W"

definition connector_disable :: "'addr ConnectorWorld \<Rightarrow> 'addr ConnectorWorld" where
  "connector_disable W = connector_event (event_disable (SysOk 0)) W"

text \<open>\<^verbatim>\<open>makeConnector\<close>: the loop is dispatched first, but followed only after the
  socket has been created.\<close>

definition makeConnector :: "sysret \<Rightarrow> 'addr \<Rightarrow> Net \<Rightarrow> ('addr ConnectorWorld option \<times> Net) option" where
  "makeConnector socket_call addr N = (let (i, N) = net_dispatch N in
     case newSocket addr socket_call of
       Inl x \<Rightarrow> Some (None, tell ErrorEvent (CodeArg (getErrorCode x)) N)
     | Inr s \<Rightarrow> do {
         i \<leftarrow> i;
         let c = \<lparr>connectorId = nextId N, connectorLoop = i, m_socket = Some s,
                  connectorEvent = newEpollEvent (m_socketFd s), connectorEventId = nextId N + 1,
                  connectorState = Closed, m_retryTimer = None, m_connectionEstablished = False\<rparr>;
         let N = N\<lparr>nextId := nextId N + 2\<rparr>;
         Some (Some \<lparr>connector = c, net = N, functors = []\<rparr>, N)
       })"

definition connector_connect :: "'addr ConnectorWorld \<Rightarrow> 'addr ConnectorWorld" where
  "connector_connect W = W\<lparr>functors := functors W @ [ConnectFunctor]\<rparr>"

definition stopConnect :: "'addr ConnectorWorld \<Rightarrow> 'addr ConnectorWorld" where
  "stopConnect W = W\<lparr>functors := functors W @ [StopConnectFunctor]\<rparr>"

text \<open>The bodies of the two functors.\<close>

definition run_connect :: "sysret \<Rightarrow> 'addr ConnectorWorld \<Rightarrow> 'addr ConnectorWorld option" where
  "run_connect connect_call W =
     (if connectorState (connector W) = Closed then do {
        let W = upd_net (on_loop (connectorLoop (connector W)) (add_handler (connectorId (connector W)))) W;
        let W = connector_active [EV_OUT] W;
        s \<leftarrow> m_socket (connector W);
        (case socket_connect connect_call of
           Inr _ \<Rightarrow> Some (upd_connector (\<lambda>c. c\<lparr>connectorState := Connecting\<rparr>) W)
         | Inl (SocketException e) \<Rightarrow>
             if getError e \<noteq> E_INPROGRESS then Some (upd_net (tell ErrorEvent (CodeArg (getError e))) W) else Some W
         | Inl (ResourceLimitException e) \<Rightarrow> None)
      } else Some W)"

definition run_stopConnect :: "'addr ConnectorWorld \<Rightarrow> 'addr ConnectorWorld" where
  "run_stopConnect W =
     (if connectorState (connector W) = Connecting then
        let W = upd_connector (\<lambda>c. c\<lparr>m_retryTimer := None\<rparr>) W;
            W = connector_disable W;
            W = upd_net (on_loop (connectorLoop (connector W)) (remove_handler (connectorId (connector W)))) W
        in upd_connector (\<lambda>c. c\<lparr>connectorState := Closed\<rparr>) W
      else W)"

fun run_connector_functor :: "sysret \<Rightarrow> connector_functor \<Rightarrow> 'addr ConnectorWorld \<Rightarrow> 'addr ConnectorWorld option" where
  "run_connector_functor call ConnectFunctor W = run_connect call W"
| "run_connector_functor call StopConnectFunctor W = Some (run_stopConnect W)"

subsection \<open>Retrying\<close>

definition setupTimer :: "timespec \<Rightarrow> Timer \<Rightarrow> Timer" where
  "setupTimer now t = timer_start now (setInterval now 100 (setSingleShot now False t))"

definition retry_interval :: "timespec \<Rightarrow> Timer \<Rightarrow> Timer" where
  "retry_interval now t = (if m_interval t < 4000 then setInterval now (m_interval t * 2) t else t)"

definition reconnect :: "timespec \<Rightarrow> 'addr ConnectorWorld \<Rightarrow> 'addr ConnectorWorld option" where
  "reconnect now W = do {
     let W = connector_disable W;
     t \<leftarrow> m_retryTimer (connector W);
     Some (upd_connector (\<lambda>c. c\<lparr>m_retryTimer := Some (retry_interval now t)\<rparr>) W)
   }"

text \<open>The callback of the retry timer. The old epoll event is destroyed without being disabled.\<close>

definition retry_timeout :: "sysret \<Rightarrow> 'addr ConnectorWorld \<Rightarrow> 'addr ConnectorWorld option" where
  "retry_timeout socket_call W = do {
     old \<leftarrow> m_socket (connector W);
     (case newSocket (m_addr old) socket_call of
        Inl _ \<Rightarrow> None
      | Inr s \<Rightarrow>
          let W = upd_connector (\<lambda>c. c\<lparr>m_socket := Some s, connectorEvent := newEpollEvent (m_socketFd s),
                connectorEventId := nextId (net W)\<rparr>) W;
              W = upd_net (\<lambda>N. N\<lparr>nextId := nextId N + 1\<rparr>) W;
              W = connector_active [EV_OUT] W
          in Some (connector_connect W))
   }"

definition connector_handleOut :: "timespec \<Rightarrow> sysret \<Rightarrow> errno option \<Rightarrow> 'addr ConnectorWorld \<Rightarrow> 'addr ConnectorWorld option" where
  "connector_handleOut now getsockopt_call optval W = do {
     s \<leftarrow> m_socket (connector W);
     let err = socket_getError getsockopt_call optval;
     if err = E_TIMEDOUT \<or> err = E_CONNREFUSED then
       reconnect now (if m_retryTimer (connector W) = None
         then upd_connector (\<lambda>c. c\<lparr>m_retryTimer := Some (setupTimer now newTimer)\<rparr>) W else W)
     else if err = E_INPROGRESS then Some W
     else if err = E_NOERROR then do {
       let W = upd_connector (\<lambda>c. c\<lparr>m_retryTimer := None\<rparr>) W;
       let W = connector_disable W;
       N \<leftarrow> net_connection (m_socketFd s) (net W);
       let W = W\<lparr>connector := (connector W)\<lparr>m_socket := None, m_connectionEstablished := True\<rparr>, net := N\<rparr>;
       let W = upd_net (tell Connected ChannelArg) W;
       Some (upd_net (on_loop (connectorLoop (connector W)) (remove_handler (connectorId (connector W)))) W)
     }
     else Some (upd_net (tell ErrorEvent (CodeArg err)) W)
   }"

subsection \<open>Events\<close>

text \<open>The connector is alive while its loop holds it or a functor does.\<close>

definition connector_alive :: "'addr ConnectorWorld \<Rightarrow> bool" where
  "connector_alive W \<longleftrightarrow>
     connectorId (connector W) \<in> m_handlers (loops (net W) (connectorLoop (connector W))) \<or> functors W \<noteq> []"

definition connector_ready :: "32 word \<Rightarrow> timespec \<Rightarrow> sysret \<Rightarrow> errno option \<Rightarrow> 'addr ConnectorWorld \<Rightarrow> 'addr ConnectorWorld option" where
  "connector_ready active now call optval W =
     (if HandleOut \<in> set (handleEvents ((connectorEvent (connector W))\<lparr>activeEvents := active, handlerAlive := connector_alive W\<rparr>))
      then connector_handleOut now call optval W else Some W)"

datatype connector_call =
    Connect | StopConnect | RunConnectorFunctor sysret
  | ConnectorReady "32 word" timespec sysret "errno option" | RetryTimeout sysret

fun connector_step :: "'addr ConnectorWorld \<Rightarrow> connector_call \<Rightarrow> 'addr ConnectorWorld option" where
  "connector_step W Connect = Some (connector_connect W)"
| "connector_step W StopConnect = Some (stopConnect W)"
| "connector_step W (RunConnectorFunctor call) = (case functors W of
     [] \<Rightarrow> Some W | f # fs \<Rightarrow> run_connector_functor call f (W\<lparr>functors := fs\<rparr>))"
| "connector_step W (ConnectorReady active now call optval) = connector_ready active now call optval W"
| "connector_step W (RetryTimeout call) =
     (if m_retryTimer (connector W) = None then Some W else retry_timeout call W)"

definition connector_run :: "'addr ConnectorWorld option \<Rightarrow> connector_call \<Rightarrow> 'addr ConnectorWorld option" where
  "connector_run s e = do { W \<leftarrow> s; connector_step W e }"

subsection \<open>\<^verbatim>\<open>TcpClient\<close>\<close>

record 'addr TcpClient =
  client_addr :: 'addr
  m_connector :: "nat option"

definition newTcpClient :: "'addr \<Rightarrow> 'addr TcpClient" where
  "newTcpClient addr = \<lparr>client_addr = addr, m_connector = None\<rparr>"

definition client_connect :: "sysret \<Rightarrow> Net \<Rightarrow> 'addr TcpClient \<Rightarrow> ('addr ConnectorWorld \<times> 'addr TcpClient) option" where
  "client_connect socket_call N k = do {
     (c, N) \<leftarrow> makeConnector socket_call (client_addr k) N;
     W \<leftarrow> c;
     Some (connector_connect W, k)
   }"

text \<open>\<open>V\<close> is the connection that \<^verbatim>\<open>getConnection().lock()\<close> finds.\<close>

definition client_disconnect :: "World option \<Rightarrow> 'addr ConnectorWorld \<Rightarrow> 'addr TcpClient
    \<Rightarrow> World option \<times> 'addr ConnectorWorld \<times> 'addr TcpClient" where
  "client_disconnect V W k =
     (case m_connector k of
        None \<Rightarrow> (V, W, k)
      | Some _ \<Rightarrow>
          let k = k\<lparr>m_connector := None\<rparr> in
          if m_connectionEstablished (connector W) then (map_option closeAfterWriteCompleted V, W, k)
          else (V, stopConnect W, k))"


subsection \<open>Effects\<close>

lemma connector_event_effect [simp]:
  "connectorId (connector (connector_event f W)) = connectorId (connector W)"
  "connectorLoop (connector (connector_event f W)) = connectorLoop (connector W)"
  "m_socket (connector (connector_event f W)) = m_socket (connector W)"
  "connectorEventId (connector (connector_event f W)) = connectorEventId (connector W)"
  "connectorState (connector (connector_event f W)) = connectorState (connector W)"
  "m_retryTimer (connector (connector_event f W)) = m_retryTimer (connector W)"
  "m_connectionEstablished (connector (connector_event f W)) = m_connectionEstablished (connector W)"
  "made (net (connector_event f W)) = made (net W)" "told (net (connector_event f W)) = told (net W)"
  "nextId (net (connector_event f W)) = nextId (net W)" "dispatcher (net (connector_event f W)) = dispatcher (net W)"
  "functors (connector_event f W) = functors W" "net_ok (net (connector_event f W)) = net_ok (net W)"
  "m_handlers (loops (net (connector_event f W)) i) = m_handlers (loops (net W) i)"
  by (simp_all add: connector_event_def on_event_def split_beta)

lemma connector_event_fd [simp]:
  "watchingFd (connectorEvent (connector (connector_event (event_active i evs call) W)))
     = watchingFd (connectorEvent (connector W))"
  by (simp add: connector_event_def on_event_def split_beta event_active_def Let_def)

lemma upd_simps [simp]:
  "connector (upd_connector f W) = f (connector W)" "net (upd_connector f W) = net W"
  "functors (upd_connector f W) = functors W" "connector (upd_net g W) = connector W"
  "net (upd_net g W) = g (net W)" "functors (upd_net g W) = functors W"
  "connector (connector_connect W) = connector W" "net (connector_connect W) = net W"
  "functors (connector_connect W) = functors W @ [ConnectFunctor]"
  by (simp_all add: upd_connector_def upd_net_def connector_connect_def)

lemma connector_active_effect:
  "watchingFd (connectorEvent (connector (connector_active evs W))) = watchingFd (connectorEvent (connector W))"
  "m_poll (loops (net (connector_active evs W)) (connectorLoop (connector W)))
     = snd (event_active (connectorEventId (connector W)) evs (SysOk 0)
         (connectorEvent (connector W), m_poll (loops (net W) (connectorLoop (connector W)))))"
  by (simp_all add: connector_active_def connector_event_def on_event_def split_beta event_active_def Let_def)

lemma connector_disable_effect:
  "watchingFd (connectorEvent (connector (connector_disable W))) = watchingFd (connectorEvent (connector W))"
  "poll_events (m_poll (loops (net (connector_disable W)) (connectorLoop (connector W))))
      (watchingFd (connectorEvent (connector W))) = None"
  by (simp_all add: connector_disable_def connector_event_def on_event_def split_beta event_disable_def removeEvent_def
      Let_def stub_epoll_ctl_def split: option.splits)

lemmas connector_steps = run_connect_def run_stopConnect_def reconnect_def retry_timeout_def
  connector_handleOut_def connector_active_def connector_disable_def

subsection \<open>The retry timer\<close>

definition retrying :: "nat \<Rightarrow> Timer \<Rightarrow> bool" where
  "retrying n t \<longleftrightarrow> m_running t \<and> \<not> m_singleShot t \<and> m_interval t = 100 * 2 ^ min n 6
     \<and> it_interval (m_timerSpec t) = ms_time (m_interval t)"

lemma setupTimer_retrying: "retrying 0 (setupTimer now newTimer)"
  by (simp add: retrying_def setupTimer_def timer_ops newTimer_def)

lemma retry_interval_retrying: "retrying n t \<Longrightarrow> retrying (Suc n) (retry_interval now t)"
proof -
  assume t: "retrying n t"
  show ?thesis
  proof (cases "n < 6")
    case True
    then have "n \<in> {0, 1, 2, 3, 4, 5}" by auto
    with t show ?thesis by (auto simp: retrying_def retry_interval_def timer_ops)
  next
    case False
    with t show ?thesis by (simp add: retrying_def retry_interval_def)
  qed
qed

text \<open>The timer before the first failure counts as one that has seen none.\<close>

definition failed_times :: "nat \<Rightarrow> 'addr ConnectorWorld \<Rightarrow> bool" where
  "failed_times n W \<longleftrightarrow> (case m_retryTimer (connector W) of None \<Rightarrow> n = 0 | Some t \<Rightarrow> 0 < n \<and> retrying n t)"

definition retry_error :: "errno \<Rightarrow> bool" where
  "retry_error e \<longleftrightarrow> e \<in> {ETIMEDOUT, ECONNREFUSED}"

lemma failed_connect_effect:
  assumes "m_socket (connector W) = Some s" "failed_times n W" "retry_error e"
  shows "\<exists>W'. connector_handleOut now (SysOk 0) (Some e) W = Some W' \<and> failed_times (Suc n) W'
     \<and> m_socket (connector W') = Some s \<and> functors W' = functors W \<and> told (net W') = told (net W)
     \<and> made (net W') = made (net W) \<and> connectorState (connector W') = connectorState (connector W)
     \<and> poll_events (m_poll (loops (net W') (connectorLoop (connector W)))) (watchingFd (connectorEvent (connector W))) = None"
proof -
  let ?W = "if m_retryTimer (connector W) = None
     then upd_connector (\<lambda>c. c\<lparr>m_retryTimer := Some (setupTimer now newTimer)\<rparr>) W else W"
  have "socket_getError (SysOk 0) (Some e) \<in> {E_TIMEDOUT, E_CONNREFUSED}"
    using assms(3) by (auto simp: socket_getError_def stub_getsockopt_def retry_error_def)
  then have h: "connector_handleOut now (SysOk 0) (Some e) W = reconnect now ?W"
    using assms(1) by (auto simp: connector_handleOut_def Let_def)
  obtain t where t: "m_retryTimer (connector ?W) = Some t" "retrying n t"
    using assms(2) setupTimer_retrying [of now] by (auto simp: failed_times_def split: option.splits if_splits)
  have r: "reconnect now ?W
      = Some (upd_connector (\<lambda>c. c\<lparr>m_retryTimer := Some (retry_interval now t)\<rparr>) (connector_disable ?W))"
    using t(1) by (simp only: reconnect_def Let_def connector_disable_def connector_event_effect bind.bind_lunit)
  show ?thesis
    unfolding h r using assms(1) retry_interval_retrying [OF t(2), of now] connector_disable_effect(2) [of ?W]
    by (auto simp: failed_times_def connector_disable_def)
qed


text \<open>A connect call is under way, its outcome not yet known, after \<open>n\<close> failures; \<open>T\<close>
  and \<open>M\<close> are the events raised and the connections made.\<close>

definition in_progress :: "nat \<Rightarrow> (event_kind \<times> event_arg) list \<Rightarrow> (nat \<times> Connection) list \<Rightarrow> 'addr ConnectorWorld \<Rightarrow> bool" where
  "in_progress n T M W \<longleftrightarrow> connectorId (connector W) \<in> m_handlers (loops (net W) (connectorLoop (connector W)))
     \<and> functors W = [] \<and> connectorState (connector W) = Closed \<and> m_socket (connector W) \<noteq> None
     \<and> failed_times n W \<and> told (net W) = T \<and> made (net W) = M"

definition retry_round :: "timespec \<times> errno \<times> int \<Rightarrow> connector_call list" where
  "retry_round r = (case r of (now, e, fd) \<Rightarrow>
     [ConnectorReady 0x4 now (SysOk 0) (Some e), RetryTimeout (SysOk fd), RunConnectorFunctor (SysErr EINPROGRESS)])"

lemma ready_out:
  assumes "connectorId (connector W) \<in> m_handlers (loops (net W) (connectorLoop (connector W)))" "and m 0x4 \<noteq> (0 :: 32 word)"
  shows "connector_ready m now call optval W = connector_handleOut now call optval W"
  using assms by (simp add: connector_ready_def handleEvents_def connector_alive_def)

lemma run_connect_in_progress:
  assumes "connectorState (connector W) = Closed" "m_socket (connector W) = Some s"
  shows "\<exists>W'. run_connect (SysErr EINPROGRESS) W = Some W'
     \<and> connectorId (connector W') \<in> m_handlers (loops (net W') (connectorLoop (connector W')))
     \<and> functors W' = functors W \<and> connectorState (connector W') = Closed \<and> m_socket (connector W') = Some s
     \<and> m_retryTimer (connector W') = m_retryTimer (connector W)
     \<and> told (net W') = told (net W) \<and> made (net W') = made (net W)"
  using assms
  by (simp add: run_connect_def connector_active_def Let_def socket_connect_def stub_connect_def connect_switch_def
      add_handler_def)

lemma retry_timeout_effect:
  assumes "m_socket (connector W) = Some s"
  shows "\<exists>W' s'. retry_timeout (SysOk fd) W = Some W' \<and> m_socket (connector W') = Some s' \<and> m_socketFd s' = fd
     \<and> m_addr s' = m_addr s \<and> functors W' = functors W @ [ConnectFunctor]
     \<and> connectorState (connector W') = connectorState (connector W)
     \<and> m_retryTimer (connector W') = m_retryTimer (connector W) \<and> told (net W') = told (net W) \<and> made (net W') = made (net W)"
  using assms
  by (simp add: retry_timeout_def connector_active_def Let_def newSocket_def stub_socket_def)

lemma retry_round_effect:
  assumes "in_progress n T M W" "retry_error e"
  shows "\<exists>W'. run_steps connector_run (Some W) (retry_round (now, e, fd)) = Some W' \<and> in_progress (Suc n) T M W'"
proof -
  obtain s where s: "m_socket (connector W) = Some s" using assms(1) by (auto simp: in_progress_def)
  obtain A where A: "connector_handleOut now (SysOk 0) (Some e) W = Some A" "failed_times (Suc n) A"
      "m_socket (connector A) = Some s" "functors A = []" "told (net A) = T" "made (net A) = M"
      "connectorState (connector A) = Closed"
    using failed_connect_effect [OF s _ assms(2)] assms(1) unfolding in_progress_def by metis
  have a: "connector_step W (ConnectorReady 0x4 now (SysOk 0) (Some e)) = Some A"
    using assms(1) A(1) by (simp add: in_progress_def ready_out)
  obtain B s' where B: "retry_timeout (SysOk fd) A = Some B" "m_socket (connector B) = Some s'"
      "functors B = [ConnectFunctor]" "connectorState (connector B) = Closed"
      "m_retryTimer (connector B) = m_retryTimer (connector A)" "told (net B) = T" "made (net B) = M"
    using retry_timeout_effect [OF A(3), of fd] A(4-7) by auto
  have b: "connector_step A (RetryTimeout (SysOk fd)) = Some B"
    using A(2) B(1) by (auto simp: failed_times_def)
  obtain C where C: "run_connect (SysErr EINPROGRESS) (B\<lparr>functors := []\<rparr>) = Some C"
      "connectorId (connector C) \<in> m_handlers (loops (net C) (connectorLoop (connector C)))"
      "functors C = []" "connectorState (connector C) = Closed" "m_socket (connector C) = Some s'"
      "m_retryTimer (connector C) = m_retryTimer (connector B)" "told (net C) = T" "made (net C) = M"
    using run_connect_in_progress [of "B\<lparr>functors := []\<rparr>" s'] B by auto
  have c: "connector_step B (RunConnectorFunctor (SysErr EINPROGRESS)) = Some C"
    using B(3) C(1) by simp
  have "in_progress (Suc n) T M C"
    using A(2) B(5) C by (simp add: in_progress_def failed_times_def)
  with a b c show ?thesis by (simp add: retry_round_def connector_run_def)
qed

lemma retry_rounds_effect:
  "in_progress n T M W \<Longrightarrow> list_all (\<lambda>(now, e, fd). retry_error e) rs \<Longrightarrow>
   \<exists>W'. run_steps connector_run (Some W) (concat (map retry_round rs)) = Some W' \<and> in_progress (n + length rs) T M W'"
proof (induction rs arbitrary: n W)
  case (Cons r rs)
  obtain now e fd where r: "r = (now, e, fd)" by (cases r)
  obtain V where V: "run_steps connector_run (Some W) (retry_round r) = Some V" "in_progress (Suc n) T M V"
    using retry_round_effect [of n T M W e] Cons.prems r by auto
  show ?case using Cons.IH [OF V(2)] Cons.prems V(1) by (simp add: run_steps_append)
qed auto



text \<open>A connector on the only loop, before and after its first connect call.\<close>

definition fresh_connector :: "unit ConnectorWorld" where
  "fresh_connector = \<lparr>connector = \<lparr>connectorId = 0, connectorLoop = 0,
       m_socket = Some \<lparr>m_socketFd = 5, m_addr = ()\<rparr>, connectorEvent = newEpollEvent 5, connectorEventId = 1,
       connectorState = Closed, m_retryTimer = None, m_connectionEstablished = False\<rparr>,
     net = (newNet 1)\<lparr>nextId := 2\<rparr>, functors = []\<rparr>"

lemma fresh_connector_made:
  "map_option fst (makeConnector (SysOk 5) () (newNet 1)) = Some (Some fresh_connector)"
  by (simp add: makeConnector_def newSocket_def stub_socket_def net_dispatch_def newNet_def newDispatcher_def
      dispatchEventLoop_def fresh_connector_def Let_def)

lemma fresh_in_progress:
  "\<exists>W. run_connect (SysErr EINPROGRESS) fresh_connector = Some W \<and> in_progress 0 [] [] W"
proof -
  have "connectorState (connector fresh_connector) = Closed"
    "m_socket (connector fresh_connector) = Some \<lparr>m_socketFd = 5, m_addr = ()\<rparr>"
    "m_retryTimer (connector fresh_connector) = None" "functors fresh_connector = []"
    "told (net fresh_connector) = []" "made (net fresh_connector) = []"
    by (simp_all add: fresh_connector_def newNet_def)
  with run_connect_in_progress [of fresh_connector] show ?thesis
    by (auto simp: in_progress_def failed_times_def)
qed


subsection \<open>Runs of a connector\<close>

text \<open>The retry timer is periodic and running, and only there until the connection is made; the
  socket is there exactly until then; one connection is made, and none before.\<close>

definition connector_inv :: "nat \<Rightarrow> 'addr ConnectorWorld \<Rightarrow> bool" where
  "connector_inv k W \<longleftrightarrow> connectorState (connector W) \<in> {Closed, Connecting}
     \<and> (m_connectionEstablished (connector W) \<longleftrightarrow> m_socket (connector W) = None)
     \<and> (\<exists>n. failed_times n W) \<and> (m_socket (connector W) = None \<longrightarrow> m_retryTimer (connector W) = None)
     \<and> length (made (net W)) = k + (if m_connectionEstablished (connector W) then 1 else 0)"

lemma net_connection_made:
  "net_connection fd N = Some N' \<Longrightarrow> \<exists>i C. made N' = made N @ [(i, C)] \<and> told N' = told N"
  by (auto simp: net_connection_def net_dispatch_def Let_def split_beta bind_eq_Some_conv)

lemma handleOut_inv:
  assumes "connector_inv k W" "connector_handleOut now call optval W = Some W'"
  shows "connector_inv k W'"
proof -
  obtain s where s: "m_socket (connector W) = Some s"
    using assms(2) by (auto simp: connector_handleOut_def bind_eq_Some_conv)
  consider (retry) "socket_getError call optval \<in> {E_TIMEDOUT, E_CONNREFUSED}"
    | (ok) "socket_getError call optval = E_NOERROR"
    | (other) "socket_getError call optval \<notin> {E_TIMEDOUT, E_CONNREFUSED, E_NOERROR}" by blast
  then show ?thesis
  proof cases
    case retry
    let ?W = "if m_retryTimer (connector W) = None
       then upd_connector (\<lambda>c. c\<lparr>m_retryTimer := Some (setupTimer now newTimer)\<rparr>) W else W"
    obtain n t where t: "m_retryTimer (connector ?W) = Some t" "retrying n t"
      using assms(1) setupTimer_retrying [of now]
      by (auto simp: connector_inv_def failed_times_def split: option.splits if_splits)
    have "W' = upd_connector (\<lambda>c. c\<lparr>m_retryTimer := Some (retry_interval now t)\<rparr>) (connector_disable ?W)"
      using assms(2) s retry t(1) by (auto simp: connector_handleOut_def reconnect_def Let_def connector_disable_def)
    moreover have "retrying (Suc n) (retry_interval now t)" by (rule retry_interval_retrying [OF t(2)])
    ultimately show ?thesis
      using assms(1) s by (auto simp: connector_inv_def failed_times_def connector_disable_def)
  next
    case ok
    then show ?thesis
      using assms s
      by (auto simp: connector_inv_def failed_times_def connector_handleOut_def Let_def bind_eq_Some_conv
          connector_disable_def dest!: net_connection_made)
  next
    case other
    then show ?thesis
      using assms s by (auto simp: connector_inv_def failed_times_def connector_handleOut_def Let_def split: if_splits)
  qed
qed

lemma retry_timeout_inv:
  assumes "connector_inv k W" "retry_timeout call W = Some W'"
  shows "connector_inv k W'"
proof -
  obtain old s where "m_socket (connector W) = Some old" "newSocket (m_addr old) call = Inr s"
    using assms(2) by (cases "newSocket (m_addr (the (m_socket (connector W)))) call") (auto simp: retry_timeout_def bind_eq_Some_conv)
  then show ?thesis
    using assms by (auto simp: connector_inv_def failed_times_def retry_timeout_def Let_def connector_active_def)
qed

lemma run_connect_inv:
  assumes "connector_inv k W" "run_connect call W = Some W'"
  shows "connector_inv k W'"
proof (cases "connectorState (connector W) = Closed")
  case True
  obtain s where "m_socket (connector W) = Some s"
    using assms(2) True by (auto simp: run_connect_def bind_eq_Some_conv connector_active_def Let_def)
  with True assms show ?thesis
    by (cases "socket_connect call")
       (auto simp: connector_inv_def failed_times_def run_connect_def Let_def connector_active_def
         split: netpp_exception.splits if_splits)
qed (use assms in \<open>simp add: run_connect_def\<close>)

lemma run_stopConnect_inv: "connector_inv k W \<Longrightarrow> connector_inv k (run_stopConnect W)"
  by (auto simp: connector_inv_def failed_times_def run_stopConnect_def Let_def connector_disable_def)

lemma connector_inv_functors [simp]: "connector_inv k (W\<lparr>functors := fs\<rparr>) = connector_inv k W"
  by (simp add: connector_inv_def failed_times_def)

lemma connector_step_inv: "connector_inv k W \<Longrightarrow> connector_step W e = Some W' \<Longrightarrow> connector_inv k W'"
proof (cases e)
  case (RunConnectorFunctor call)
  assume W: "connector_inv k W" and st: "connector_step W e = Some W'"
  show ?thesis
  proof (cases "functors W")
    case (Cons f fs)
    have fW: "connector_inv k (W\<lparr>functors := fs\<rparr>)" using W by simp
    show ?thesis
      using st RunConnectorFunctor Cons run_connect_inv [OF fW] run_stopConnect_inv [OF fW] by (cases f) auto
  qed (use W st RunConnectorFunctor in simp)
qed (auto simp: connector_ready_def stopConnect_def connector_connect_def
    intro: handleOut_inv retry_timeout_inv split: if_splits)

interpretation connector: machine "\<lambda>s. \<exists>W. s = Some W \<and> connector_inv k W" connector_run
    "\<lambda>s. \<forall>W. s = Some W \<longrightarrow> connector_inv k W"
  by unfold_locales (auto simp: connector_run_def bind_eq_Some_conv intro: connector_step_inv)


lemma made_connector_inv:
  assumes "makeConnector call addr N = Some (Some W, N')"
  shows "connector_inv (length (made N)) W" "connectorState (connector W) = Closed"
  using assms
  by (auto simp: makeConnector_def Let_def split_beta net_dispatch_def bind_eq_Some_conv connector_inv_def
      failed_times_def split: sum.splits)

lemma retrying_intervals:
  "0 < n \<Longrightarrow> retrying n t \<Longrightarrow>
   m_running t \<and> \<not> m_singleShot t \<and> m_interval t \<in> {200, 400, 800, 1600, 3200, 6400}"
proof (cases "n < 6")
  case True
  assume "0 < n" "retrying n t"
  with True have "n \<in> {1, 2, 3, 4, 5}" "retrying n t" by auto
  then show ?thesis by (auto simp: retrying_def)
qed (simp add: retrying_def)

text \<open>C18. A connector makes at most one connection, and lets go of its socket exactly then; it is never in
  the state Established of its own diagram; and its retry timer, while there is one, repeats
  every 200 to 6400 ms.\<close>

theorem connector_connects_once:
  assumes "makeConnector call addr N = Some (Some W, N')" "run_steps connector_run (Some W) es = Some W'"
  shows "connectorState (connector W') \<in> {Closed, Connecting}
     \<and> (m_connectionEstablished (connector W') \<longleftrightarrow> m_socket (connector W') = None)
     \<and> length (made (net W')) = length (made N) + (if m_connectionEstablished (connector W') then 1 else 0)
     \<and> (case m_retryTimer (connector W') of None \<Rightarrow> True
        | Some t \<Rightarrow> \<not> m_connectionEstablished (connector W') \<and> m_running t \<and> \<not> m_singleShot t
            \<and> m_interval t \<in> {200, 400, 800, 1600, 3200, 6400})"
proof -
  have inv: "connector_inv (length (made N)) W'"
    using connector.run_inv [of "Some W" "length (made N)" es] made_connector_inv(1) [OF assms(1)] assms(2) by simp
  show ?thesis
  proof (cases "m_retryTimer (connector W')")
    case None
    then show ?thesis using inv by (simp add: connector_inv_def)
  next
    case (Some t)
    with inv obtain n where "0 < n" "retrying n t" "m_socket (connector W') \<noteq> None"
      by (auto simp: connector_inv_def failed_times_def)
    with Some inv retrying_intervals [of n t] show ?thesis by (simp add: connector_inv_def)
  qed
qed

abbreviation sample_calls :: "connector_call list" where
  "sample_calls \<equiv> [Connect, RunConnectorFunctor (SysErr EINPROGRESS)]"

lemma fresh_run:
  obtains N' W' where "makeConnector (SysOk 5) () (newNet 1) = Some (Some fresh_connector, N')"
     "run_steps connector_run (Some fresh_connector) sample_calls = Some W'" "in_progress 0 [] [] W'"
proof -
  obtain N' where N': "makeConnector (SysOk 5) () (newNet 1) = Some (Some fresh_connector, N')"
    using fresh_connector_made by auto
  obtain W' where W': "run_connect (SysErr EINPROGRESS) fresh_connector = Some W'" "in_progress 0 [] [] W'"
    using fresh_in_progress by blast
  have "functors fresh_connector = []" by (simp add: fresh_connector_def)
  then have "(connector_connect fresh_connector)\<lparr>functors := []\<rparr> = fresh_connector"
    "functors (connector_connect fresh_connector) = [ConnectFunctor]"
    by (simp_all add: connector_connect_def)
  then have "connector_step (connector_connect fresh_connector) (RunConnectorFunctor (SysErr EINPROGRESS)) = Some W'"
    using W'(1) by (simp only: connector_step.simps list.case run_connector_functor.simps)
  then have "run_steps connector_run (Some fresh_connector) sample_calls = Some W'"
    by (simp only: run_steps.simps connector_run_def bind.bind_lunit connector_step.simps(1))
  then show ?thesis using that N' W'(2) by blast
qed

lemma connector_connects_once_witness:
  "\<exists>W'. run_steps connector_run (Some fresh_connector) sample_calls = Some W'
     \<and> (m_connectionEstablished (connector W') \<longleftrightarrow> m_socket (connector W') = None)"
proof -
  obtain N' W' where "makeConnector (SysOk 5) () (newNet 1) = Some (Some fresh_connector, N')"
     "run_steps connector_run (Some fresh_connector) sample_calls = Some W'"
    by (rule fresh_run)
  from this(2) connector_connects_once [OF this] show ?thesis by simp
qed

subsection \<open>Stopping\<close>

definition connect_fails :: "connector_call \<Rightarrow> bool" where
  "connect_fails e = (case e of
     RunConnectorFunctor (SysErr x) \<Rightarrow> connect_switch x \<noteq> None | RunConnectorFunctor (SysOk n) \<Rightarrow> False | _ \<Rightarrow> True)"

lemma handleOut_keeps_state:
  "connector_handleOut now call optval W = Some W' \<Longrightarrow> connectorState (connector W') = connectorState (connector W)"
  by (auto simp: connector_handleOut_def reconnect_def connector_disable_def Let_def bind_eq_Some_conv split: if_splits)

lemma retry_keeps_state:
  "retry_timeout call W = Some W' \<Longrightarrow> connectorState (connector W') = connectorState (connector W)"
  by (cases "m_socket (connector W)"; cases "newSocket (m_addr (the (m_socket (connector W)))) call")
     (auto simp: retry_timeout_def connector_active_def Let_def)

lemma connect_error_keeps_closed:
  assumes "connectorState (connector W) = Closed" "connect_switch x \<noteq> None" "run_connect (SysErr x) W = Some W'"
  shows "connectorState (connector W') = Closed"
  using assms
  by (cases "m_socket (connector W)")
     (auto simp: run_connect_def connector_active_def Let_def socket_connect_def stub_connect_def
       split: option.splits netpp_exception.splits if_splits)

lemma closed_step:
  assumes "connectorState (connector W) = Closed" "connect_fails e" "connector_step W e = Some W'"
  shows "connectorState (connector W') = Closed"
proof (cases e)
  case (RunConnectorFunctor call)
  show ?thesis
  proof (cases "functors W")
    case (Cons f fs)
    let ?V = "W\<lparr>functors := fs\<rparr>"
    have V: "connectorState (connector ?V) = Closed" using assms(1) by simp
    show ?thesis
    proof (cases f)
      case ConnectFunctor
      then show ?thesis
        using assms(2,3) RunConnectorFunctor Cons connect_error_keeps_closed [OF V]
        by (cases call) (auto simp: connect_fails_def)
    next
      case StopConnectFunctor
      then show ?thesis using assms RunConnectorFunctor Cons V by (auto simp: run_stopConnect_def)
    qed
  qed (use assms RunConnectorFunctor in simp)
qed (use assms in \<open>auto simp: connector_ready_def stopConnect_def dest: handleOut_keeps_state retry_keeps_state split: if_splits\<close>)

lemma connector_run_None: "run_steps connector_run None es = None"
  by (induction es) (simp_all add: connector_run_def)

lemma closed_run:
  "connectorState (connector W) = Closed \<Longrightarrow> list_all connect_fails es \<Longrightarrow>
   run_steps connector_run (Some W) es = Some W' \<Longrightarrow> connectorState (connector W') = Closed"
proof (induction es arbitrary: W)
  case (Cons e es)
  obtain V where V: "connector_step W e = Some V"
    using Cons.prems(3) by (cases "connector_step W e") (auto simp: connector_run_None connector_run_def [of "Some W"])
  then have "connectorState (connector V) = Closed" using closed_step Cons.prems(1,2) by auto
  with Cons V show ?case by (simp add: connector_run_def [of "Some W"])
qed simp

text \<open>While every connect call fails, EINPROGRESS included, stopping the connector does nothing: it
  stays in its loop, its event stays armed and the retry timer goes on.\<close>

lemma stopConnect_ineffective:
  assumes "makeConnector call addr N = Some (Some W, N')" "run_steps connector_run (Some W) es = Some W'"
    and "list_all connect_fails es"
  shows "run_stopConnect W' = W'"
  using closed_run [OF made_connector_inv(2) [OF assms(1)] assms(3,2)] by (simp add: run_stopConnect_def)

lemma stopConnect_ineffective_witness:
  "\<exists>W'. run_steps connector_run (Some fresh_connector) sample_calls = Some W'
     \<and> run_stopConnect W' = W'"
proof -
  obtain N' W' where W': "makeConnector (SysOk 5) () (newNet 1) = Some (Some fresh_connector, N')"
     "run_steps connector_run (Some fresh_connector) sample_calls = Some W'"
    by (rule fresh_run)
  have "list_all connect_fails sample_calls"
    by (simp add: connect_fails_def connect_switch_def)
  from stopConnect_ineffective [OF W' this] W'(2) show ?thesis by simp
qed


subsection \<open>Success\<close>

definition connector_ok :: "'addr ConnectorWorld \<Rightarrow> bool" where
  "connector_ok W \<longleftrightarrow> net_ok (net W) \<and> connectorId (connector W) < nextId (net W)
     \<and> (\<exists>s. m_socket (connector W) = Some s \<and> m_socketFd s = watchingFd (connectorEvent (connector W)))"

lemma next_loop_event [simp]: "next_loop (net (connector_event f W)) = next_loop (net W)"
  by (simp add: next_loop_def)

lemma handleOut_connects:
  assumes "connector_ok W" "socket_getError call optval = E_NOERROR"
  shows "\<exists>W' C. connector_handleOut now call optval W = Some W'
     \<and> made (net W') = made (net W) @ [(next_loop (net W), C)] \<and> m_state C = Established
     \<and> watchingFd (m_epollEvent C) = watchingFd (connectorEvent (connector W))
     \<and> connId C \<in> m_handlers (loops (net W') (next_loop (net W)))
     \<and> poll_events (m_poll (loops (net W') (next_loop (net W)))) (watchingFd (m_epollEvent C)) = Some (eventId C)
     \<and> told (net W') = told (net W) @ [(Connected, ChannelArg)]
     \<and> m_connectionEstablished (connector W') \<and> m_retryTimer (connector W') = None
     \<and> functors W' = functors W
     \<and> connectorId (connector W) \<notin> m_handlers (loops (net W') (connectorLoop (connector W)))"
proof -
  obtain s where s: "m_socket (connector W) = Some s" "m_socketFd s = watchingFd (connectorEvent (connector W))"
    using assms(1) by (auto simp: connector_ok_def)
  let ?V = "connector_disable (upd_connector (\<lambda>c. c\<lparr>m_retryTimer := None\<rparr>) W)"
  have V: "net_ok (net ?V)" "next_loop (net ?V) = next_loop (net W)" "nextId (net ?V) = nextId (net W)"
    "made (net ?V) = made (net W)" "told (net ?V) = told (net W)"
    "connectorId (connector ?V) = connectorId (connector W)" "connectorLoop (connector ?V) = connectorLoop (connector W)"
    "functors ?V = functors W" "m_retryTimer (connector ?V) = None"
    using assms(1) by (simp_all add: connector_ok_def connector_disable_def)
  obtain N C where N: "net_connection (m_socketFd s) (net ?V) = Some N" "made N = made (net W) @ [(next_loop (net W), C)]"
      "told N = told (net W)" "m_state C = Established" "watchingFd (m_epollEvent C) = m_socketFd s"
      "connId C \<in> m_handlers (loops N (next_loop (net W)))"
      "poll_events (m_poll (loops N (next_loop (net W)))) (m_socketFd s) = Some (eventId C)" "nextId (net W) \<le> connId C"
    using net_connection_effect [OF V(1), of "m_socketFd s"] V(2-5) by auto
  have ne: "connId C \<noteq> connectorId (connector W)" using N(8) assms(1) by (auto simp: connector_ok_def)
  let ?U = "?V\<lparr>connector := (connector ?V)\<lparr>m_socket := None, m_connectionEstablished := True\<rparr>, net := N\<rparr>"
  let ?T = "upd_net (tell Connected ChannelArg) ?U"
  have "connector_handleOut now call optval W
      = Some (upd_net (on_loop (connectorLoop (connector ?T)) (remove_handler (connectorId (connector ?T)))) ?T)"
    using s(1) assms(2) N(1) by (simp add: connector_handleOut_def Let_def)
  then show ?thesis
    using N(2-7) V(6-9) ne s(2) by (auto simp: remove_handler_def)
qed


text \<open>When the descriptor gets writable without a pending error the connector hands it to a new,
  established connection on the next loop of the dispatcher, where it is registered for the
  connection's event; it tells the user once, drops its timer and leaves its own loop.\<close>

theorem connector_succeeds:
  assumes "connector_ok W" "in_progress n T M W" "socket_getError call optval = E_NOERROR"
  shows "\<exists>W' C. connector_step W (ConnectorReady 0x4 now call optval) = Some W'
     \<and> made (net W') = M @ [(next_loop (net W), C)] \<and> m_state C = Established
     \<and> watchingFd (m_epollEvent C) = watchingFd (connectorEvent (connector W))
     \<and> connId C \<in> m_handlers (loops (net W') (next_loop (net W)))
     \<and> poll_events (m_poll (loops (net W') (next_loop (net W)))) (watchingFd (m_epollEvent C)) = Some (eventId C)
     \<and> told (net W') = T @ [(Connected, ChannelArg)]
     \<and> m_retryTimer (connector W') = None \<and> \<not> connector_alive W'"
proof -
  have "connector_step W (ConnectorReady 0x4 now call optval) = connector_handleOut now call optval W"
    using assms(2) by (simp add: in_progress_def ready_out)
  moreover obtain W' C where W': "connector_handleOut now call optval W = Some W'"
     "made (net W') = made (net W) @ [(next_loop (net W), C)]" "m_state C = Established"
     "watchingFd (m_epollEvent C) = watchingFd (connectorEvent (connector W))"
     "connId C \<in> m_handlers (loops (net W') (next_loop (net W)))"
     "poll_events (m_poll (loops (net W') (next_loop (net W)))) (watchingFd (m_epollEvent C)) = Some (eventId C)"
     "told (net W') = told (net W) @ [(Connected, ChannelArg)]" "m_retryTimer (connector W') = None"
     "functors W' = functors W" "connectorId (connector W) \<notin> m_handlers (loops (net W') (connectorLoop (connector W)))"
    using handleOut_connects [OF assms(1,3)] by blast
  moreover have "connectorId (connector W') = connectorId (connector W)" "connectorLoop (connector W') = connectorLoop (connector W)"
    using W'(1) assms(3)
    by (auto simp: connector_handleOut_def Let_def bind_eq_Some_conv connector_disable_def)
  ultimately show ?thesis using assms(2) by (auto simp: in_progress_def connector_alive_def)
qed

lemma fresh_connector_ok: "connector_ok fresh_connector"
  by (simp add: connector_ok_def fresh_connector_def newNet_def net_ok_def newDispatcher_def newEpollEvent_def)

lemma run_connect_ok:
  assumes "connector_ok W" "run_connect call W = Some W'"
  shows "connector_ok W'"
proof (cases "connectorState (connector W) = Closed")
  case True
  obtain s where "m_socket (connector W) = Some s" using assms(1) by (auto simp: connector_ok_def)
  with True assms show ?thesis
    by (cases "socket_connect call")
       (auto simp: connector_ok_def run_connect_def Let_def connector_active_def split: netpp_exception.splits if_splits)
qed (use assms in \<open>simp add: run_connect_def\<close>)

lemma connector_succeeds_witness:
  "\<exists>W W' :: unit ConnectorWorld. connector_step W (ConnectorReady 0x4 zero_time (SysOk 0) None) = Some W'
     \<and> told (net W') = [(Connected, ChannelArg)]"
proof -
  obtain W where "run_connect (SysErr EINPROGRESS) fresh_connector = Some W" "in_progress 0 [] [] W"
    using fresh_in_progress by blast
  moreover from this(1) have "connector_ok W" by (rule run_connect_ok [OF fresh_connector_ok])
  ultimately show ?thesis
    using connector_succeeds [of W 0 "[]" "[]" "SysOk 0" None zero_time]
    by (fastforce simp: socket_getError_def stub_getsockopt_def)
qed

text \<open>A connect call that is refused at once is reported as an error, but the event stays armed: when
  the unconnected socket is then reported writable and hung up, with no pending error left,
  the user is told that the connection is there.\<close>

lemma refused_then_connected:
  assumes "connector_ok W" "connectorState (connector W) = Closed" "functors W = []"
    and "e \<in> {EADDRINUSE, EADDRNOTAVAIL, ECONNREFUSED, ENETUNREACH, ETIMEDOUT}"
  shows "\<exists>V W'. run_connect (SysErr e) W = Some V
     \<and> connector_step V (ConnectorReady 0x14 now (SysOk 0) None) = Some W'
     \<and> told (net W') = told (net W) @ [(ErrorEvent, CodeArg (getError e)), (Connected, ChannelArg)]
     \<and> length (made (net W')) = Suc (length (made (net W)))"
proof -
  obtain s where s: "m_socket (connector W) = Some s" using assms(1) by (auto simp: connector_ok_def)
  obtain V where V: "run_connect (SysErr e) W = Some V" "told (net V) = told (net W) @ [(ErrorEvent, CodeArg (getError e))]"
      "made (net V) = made (net W)" "connectorId (connector V) \<in> m_handlers (loops (net V) (connectorLoop (connector V)))"
    using assms(2,4) s
    by (auto simp: run_connect_def Let_def connector_active_def socket_connect_def stub_connect_def connect_switch_def
        add_handler_def)
  have "connector_ok V" by (rule run_connect_ok [OF assms(1) V(1)])
  moreover have "connector_step V (ConnectorReady 0x14 now (SysOk 0) None) = connector_handleOut now (SysOk 0) None V"
    using V(4) by (simp add: ready_out)
  moreover have "socket_getError (SysOk 0) None = E_NOERROR" by (simp add: socket_getError_def stub_getsockopt_def)
  ultimately show ?thesis
    using handleOut_connects [of V "SysOk 0" None now] V(1-3) by auto
qed

lemma refused_then_connected_witness:
  "\<exists>V W'. run_connect (SysErr ECONNREFUSED) fresh_connector = Some V
     \<and> connector_step V (ConnectorReady 0x14 zero_time (SysOk 0) None) = Some W'
     \<and> told (net W') = [(ErrorEvent, CodeArg E_CONNREFUSED), (Connected, ChannelArg)]"
  using refused_then_connected [OF fresh_connector_ok, of ECONNREFUSED zero_time]
  by (auto simp: fresh_connector_def newNet_def)


subsection \<open>Registrations left behind\<close>

abbreviation connector_poll :: "'addr ConnectorWorld \<Rightarrow> Epoll" where
  "connector_poll W \<equiv> m_poll (loops (net W) (connectorLoop (connector W)))"

text \<open>What one timeout of the retry timer does to the poller: the new descriptor is registered or
  modified, and every other registration, that of the destroyed event included, stays.\<close>

lemma retry_timeout_poll:
  assumes "m_socket (connector W) = Some s"
  shows "\<exists>V s'. retry_timeout (SysOk fd) W = Some V \<and> m_socket (connector V) = Some s'
     \<and> connectorLoop (connector V) = connectorLoop (connector W) \<and> m_retryTimer (connector V) = m_retryTimer (connector W)
     \<and> functors V = functors W @ [ConnectFunctor] \<and> connectorState (connector V) = connectorState (connector W)
     \<and> watchingFd (connectorEvent (connector V)) = fd \<and> watchingEvents (connectorEvent (connector V)) = 0x4
     \<and> poll_events (connector_poll V) = (poll_events (connector_poll W))(fd \<mapsto> nextId (net W))
     \<and> connectorEventId (connector V) = nextId (net W)
     \<and> ctl_log (connector_poll V) = ctl_log (connector_poll W)
         @ [(if poll_events (connector_poll W) fd = None then CTL_ADD else CTL_MOD, fd, 0x4)]"
  using assms
  by (auto simp: retry_timeout_def newSocket_def stub_socket_def Let_def connector_active_def connector_event_def
      on_event_def split_beta event_active_def newEpollEvent_def mask_active_def updateEvent_def stub_epoll_ctl_def
      split: option.splits)

lemma connect_functor_poll:
  assumes "connectorState (connector W) = Closed" "m_socket (connector W) = Some s"
    "poll_events (connector_poll W) (watchingFd (connectorEvent (connector W))) = Some (connectorEventId (connector W))"
    "watchingEvents (connectorEvent (connector W)) = 0x4"
  shows "\<exists>V. run_connect (SysErr EINPROGRESS) W = Some V \<and> m_socket (connector V) = Some s
     \<and> m_retryTimer (connector V) = m_retryTimer (connector W)
     \<and> poll_events (connector_poll V) = poll_events (connector_poll W)
     \<and> ctl_log (connector_poll V) = ctl_log (connector_poll W)
         @ [(CTL_MOD, watchingFd (connectorEvent (connector W)), 0x4)]"
  using assms
  by (auto simp: run_connect_def Let_def connector_active_def connector_event_def on_event_def split_beta
      event_active_def mask_active_def updateEvent_def stub_epoll_ctl_def socket_connect_def stub_connect_def
      connect_switch_def add_handler_def)

text \<open>The retry timer replaces socket and event without disabling the old event, and closes the old
  descriptor. When it fires again and the new socket gets that descriptor's number, the
  poller, which still has the number in its map, asks the kernel to modify a registration
  that went away with the closed socket, instead of adding one.\<close>

lemma retry_modifies_closed_descriptor:
  assumes "m_socket (connector W) = Some s" "m_retryTimer (connector W) \<noteq> None" "functors W = []"
    and "connectorState (connector W) = Closed" "m_socketFd s = a" "a \<noteq> b"
    and "poll_events (connector_poll W) a = Some i" "poll_events (connector_poll W) b = None"
  shows "\<exists>V. run_steps connector_run (Some W)
       [RetryTimeout (SysOk b), RunConnectorFunctor (SysErr EINPROGRESS), RetryTimeout (SysOk a)] = Some V
     \<and> ctl_log (connector_poll V) = ctl_log (connector_poll W)
         @ [(CTL_ADD, b, 0x4), (CTL_MOD, b, 0x4), (CTL_MOD, a, 0x4)]
     \<and> poll_events (connector_poll V) b \<noteq> None"
proof -
  obtain A s1 where A: "retry_timeout (SysOk b) W = Some A" "m_socket (connector A) = Some s1"
      "m_retryTimer (connector A) = m_retryTimer (connector W)" "functors A = [ConnectFunctor]"
      "connectorState (connector A) = Closed" "watchingFd (connectorEvent (connector A)) = b"
      "watchingEvents (connectorEvent (connector A)) = 0x4" "connectorEventId (connector A) = nextId (net W)"
      "poll_events (connector_poll A) = (poll_events (connector_poll W))(b \<mapsto> nextId (net W))"
      "ctl_log (connector_poll A) = ctl_log (connector_poll W) @ [(CTL_ADD, b, 0x4)]"
    using retry_timeout_poll [OF assms(1), of b] assms(3,4,8) by auto
  obtain B where B: "run_connect (SysErr EINPROGRESS) (A\<lparr>functors := []\<rparr>) = Some B" "m_socket (connector B) = Some s1"
      "m_retryTimer (connector B) = m_retryTimer (connector W)"
      "poll_events (connector_poll B) = poll_events (connector_poll A)"
      "ctl_log (connector_poll B) = ctl_log (connector_poll A) @ [(CTL_MOD, b, 0x4)]"
    using connect_functor_poll [of "A\<lparr>functors := []\<rparr>" s1] A by auto
  obtain C where C: "retry_timeout (SysOk a) B = Some C"
      "poll_events (connector_poll C) = (poll_events (connector_poll B))(a \<mapsto> nextId (net B))"
      "ctl_log (connector_poll C) = ctl_log (connector_poll B) @ [(CTL_MOD, a, 0x4)]"
    using retry_timeout_poll [OF B(2), of a] B(4) A(9) assms(6,7) by auto
  have "run_steps connector_run (Some W)
       [RetryTimeout (SysOk b), RunConnectorFunctor (SysErr EINPROGRESS), RetryTimeout (SysOk a)] = Some C"
    using A(1,4) B(1,3) C(1) assms(2) by (auto simp: connector_run_def)
  then show ?thesis using C B A assms(6) by auto
qed

lemma retry_modifies_closed_descriptor_witness:
  "\<exists>W V :: unit ConnectorWorld. run_steps connector_run (Some W)
       [RetryTimeout (SysOk 6), RunConnectorFunctor (SysErr EINPROGRESS), RetryTimeout (SysOk 5)] = Some V
     \<and> last (ctl_log (connector_poll V)) = (CTL_MOD, 5, 0x4)"
proof -
  let ?p = "newEpoll\<lparr>poll_events := [5 \<mapsto> 1]\<rparr>"
  let ?W = "fresh_connector\<lparr>connector := (connector fresh_connector)\<lparr>m_retryTimer := Some newTimer\<rparr>,
    net := (net fresh_connector)\<lparr>loops := (\<lambda>_. newEventLoop\<lparr>m_poll := ?p\<rparr>)\<rparr>\<rparr>"
  have "m_socket (connector ?W) = Some \<lparr>m_socketFd = 5, m_addr = ()\<rparr>" "m_retryTimer (connector ?W) \<noteq> None"
    "functors ?W = []" "connectorState (connector ?W) = Closed"
    "m_socketFd \<lparr>m_socketFd = 5, m_addr = ()\<rparr> = 5" "(5 :: int) \<noteq> 6"
    "poll_events (connector_poll ?W) 5 = Some 1" "poll_events (connector_poll ?W) 6 = None"
    by (simp_all add: fresh_connector_def)
  from retry_modifies_closed_descriptor [OF this] obtain V where V: "run_steps connector_run (Some ?W)
       [RetryTimeout (SysOk 6), RunConnectorFunctor (SysErr EINPROGRESS), RetryTimeout (SysOk 5)] = Some V"
     "ctl_log (connector_poll V) = ctl_log (connector_poll ?W) @ [(CTL_ADD, 6, 0x4), (CTL_MOD, 6, 0x4), (CTL_MOD, 5, 0x4)]"
    by blast
  then show ?thesis by (intro exI [of _ ?W] exI [of _ V] conjI) simp_all
qed

subsection \<open>The client\<close>

text \<open>\<^verbatim>\<open>TcpClient::connect\<close> follows the null pointer that \<^verbatim>\<open>makeConnector\<close>
  returns when no socket can be created, and never remembers the connector: whatever happened
  since, \<^verbatim>\<open>disconnect\<close> changes nothing.\<close>

lemma client_forgets_connector:
  "(net_ok N \<longrightarrow> (client_connect call N (newTcpClient addr) = None \<longleftrightarrow>
      (\<exists>e \<in> {EACCES, EAFNOSUPPORT, EMFILE, ENFILE, ENOBUFS, ENOMEM}. call = SysErr e)))
   \<and> (client_connect call N (newTcpClient addr) = Some (W, k) \<longrightarrow> client_disconnect V W' k = (V, W', k))"
proof (intro conjI impI)
  assume N: "net_ok N"
  show "client_connect call N (newTcpClient addr) = None \<longleftrightarrow>
      (\<exists>e \<in> {EACCES, EAFNOSUPPORT, EMFILE, ENFILE, ENOBUFS, ENOMEM}. call = SysErr e)"
    by (cases call)
       (auto simp: client_connect_def makeConnector_def net_dispatch_eq [OF N] Let_def newSocket_def stub_socket_def
         socket_switch_def)
next
  assume "client_connect call N (newTcpClient addr) = Some (W, k)"
  then have "m_connector k = None"
    by (auto simp: client_connect_def newTcpClient_def bind_eq_Some_conv)
  then show "client_disconnect V W' k = (V, W', k)" by (simp add: client_disconnect_def)
qed

lemma client_forgets_connector_witness:
  "client_connect (SysErr EMFILE) (newNet 1) (newTcpClient ()) = None"
proof -
  have "net_ok (newNet 1)" by (rule newNet_ok) simp
  with client_forgets_connector [of "newNet 1" "SysErr EMFILE" "()"] show ?thesis by simp
qed

end
