(* ===== verification/Acceptor.thy ===== *)
theory Acceptor
  imports Net Socket
begin

text \<open>
  Accepting connections (\<^verbatim>\<open>src/internal/handlers/Acceptor.cpp\<close>) and the server on top
  of it (\<^verbatim>\<open>src/TcpServer.cpp\<close>). A server's acceptors are numbered; a functor
  waiting for a loop keeps its acceptor alive, and so does the loop that holds it. An
  operation is \<^term>\<open>None\<close> when a null pointer is followed or an exception leaves the
  event loop, which ends the loop.
\<close>

record 'addr Acceptor =
  acceptorId :: nat
  acceptorLoop :: nat
  listenSocket :: "'addr Socket"
  acceptorEvent :: EpollEvent
  acceptorEventId :: nat
  acceptorState :: TcpState

definition acceptor_event :: "(EpollEvent \<times> Epoll \<Rightarrow> EpollEvent \<times> Epoll) \<Rightarrow> 'addr Acceptor \<times> Net \<Rightarrow> 'addr Acceptor \<times> Net" where
  "acceptor_event f s = (let (e, N) = on_event (acceptorLoop (fst s)) f (acceptorEvent (fst s), snd s) in
     ((fst s)\<lparr>acceptorEvent := e\<rparr>, N))"

definition makeAcceptor :: "sysret \<Rightarrow> 'addr \<Rightarrow> Net \<Rightarrow> ('addr Acceptor option \<times> Net) option" where
  "makeAcceptor socket_call addr N = (let (i, N) = net_dispatch N in
     case newSocket addr socket_call of
       Inl x \<Rightarrow> Some (None, tell ErrorEvent (CodeArg (getErrorCode x)) N)
     | Inr s \<Rightarrow> do {
         i \<leftarrow> i;
         Some (Some \<lparr>acceptorId = nextId N, acceptorLoop = i, listenSocket = s,
                     acceptorEvent = newEpollEvent (m_socketFd s), acceptorEventId = nextId N + 1,
                     acceptorState = Closed\<rparr>,
               N\<lparr>nextId := nextId N + 2\<rparr>)
       })"

text \<open>The bodies of the functors of \<^verbatim>\<open>listen\<close> and \<^verbatim>\<open>stop\<close>.\<close>

definition run_listen :: "sysret \<Rightarrow> sysret \<Rightarrow> 'addr Acceptor \<times> Net \<Rightarrow> ('addr Acceptor \<times> Net) option" where
  "run_listen bind_call listen_call s =
     (if acceptorState (fst s) = Closed then
        let (a, N) = s;
            N = on_loop (acceptorLoop a) (add_handler (acceptorId a)) N;
            (a, N) = acceptor_event (event_active (acceptorEventId a) [EV_IN] (SysOk 0)) (a, N)
        in case socket_listen bind_call listen_call of
             Inr _ \<Rightarrow> Some (a\<lparr>acceptorState := Listen\<rparr>, N)
           | Inl (SocketException e) \<Rightarrow> Some (a, tell ErrorEvent (CodeArg (getError e)) N)
           | Inl (ResourceLimitException _) \<Rightarrow> None
      else Some s)"

definition run_stop :: "'addr Acceptor \<times> Net \<Rightarrow> 'addr Acceptor \<times> Net" where
  "run_stop s = (let (a, N) = acceptor_event (event_disable (SysOk 0)) s in
     (a\<lparr>acceptorState := Closed\<rparr>, on_loop (acceptorLoop a) (remove_handler (acceptorId a)) N))"

definition acceptor_handleIn :: "sysret \<Rightarrow> 'addr \<Rightarrow> 'addr Acceptor \<times> Net \<Rightarrow> ('addr Acceptor \<times> Net) option" where
  "acceptor_handleIn accept_call peer s = (let (a, N) = s in
     case socket_accept accept_call peer of
       Inr c \<Rightarrow> do {
         N \<leftarrow> net_connection (m_socketFd c) N;
         Some (a, tell Connected ChannelArg N)
       }
     | Inl x \<Rightarrow> Some (a, tell ErrorEvent (CodeArg (getErrorCode x)) N))"

subsection \<open>\<^verbatim>\<open>TcpServer\<close>\<close>

datatype acceptor_functor = ListenFunctor nat | StopFunctor nat

fun functor_target :: "acceptor_functor \<Rightarrow> nat" where
  "functor_target (ListenFunctor k) = k" | "functor_target (StopFunctor k) = k"

record 'addr ServerWorld =
  acceptors :: "'addr Acceptor list"
  server_net :: Net
  server_functors :: "acceptor_functor list"
  server_addr :: 'addr
  weak_acceptor :: "nat option"

definition newTcpServer :: "'addr \<Rightarrow> Net \<Rightarrow> 'addr ServerWorld" where
  "newTcpServer addr N = \<lparr>acceptors = [], server_net = N, server_functors = [], server_addr = addr, weak_acceptor = None\<rparr>"

definition acceptor_alive :: "'addr ServerWorld \<Rightarrow> nat \<Rightarrow> bool" where
  "acceptor_alive S k \<longleftrightarrow> k < length (acceptors S)
     \<and> (acceptorId (acceptors S ! k) \<in> m_handlers (loops (server_net S) (acceptorLoop (acceptors S ! k)))
        \<or> k \<in> functor_target ` set (server_functors S))"

definition server_listen :: "sysret \<Rightarrow> 'addr ServerWorld \<Rightarrow> 'addr ServerWorld option" where
  "server_listen socket_call S = do {
     (a, N) \<leftarrow> makeAcceptor socket_call (server_addr S) (server_net S);
     Some (case a of
       None \<Rightarrow> S\<lparr>server_net := N, weak_acceptor := None\<rparr>
     | Some a \<Rightarrow> S\<lparr>acceptors := acceptors S @ [a], server_net := N, weak_acceptor := Some (length (acceptors S)),
                   server_functors := server_functors S @ [ListenFunctor (length (acceptors S))]\<rparr>)
   }"

definition stopListen :: "'addr ServerWorld \<Rightarrow> 'addr ServerWorld" where
  "stopListen S = (case weak_acceptor S of
     None \<Rightarrow> S
   | Some k \<Rightarrow> if acceptor_alive S k then S\<lparr>server_functors := server_functors S @ [StopFunctor k]\<rparr> else S)"

definition on_acceptor :: "nat \<Rightarrow> ('addr Acceptor \<times> Net \<Rightarrow> ('addr Acceptor \<times> Net) option) \<Rightarrow> 'addr ServerWorld \<Rightarrow> 'addr ServerWorld option" where
  "on_acceptor k f S = do {
     a \<leftarrow> nth_opt (acceptors S) k;
     (a, N) \<leftarrow> f (a, server_net S);
     Some (S\<lparr>acceptors := (acceptors S)[k := a], server_net := N\<rparr>)
   }"

text \<open>The loops run the functors in the order of their submission; \<open>ready\<close> is an active mask for
  the event of acceptor \<open>k\<close>.\<close>

datatype 'addr server_call =
    ServerListen sysret | StopListen | RunServerFunctor sysret sysret | AcceptorReady nat "32 word" sysret 'addr

fun server_step :: "'addr ServerWorld \<Rightarrow> 'addr server_call \<Rightarrow> 'addr ServerWorld option" where
  "server_step S (ServerListen call) = server_listen call S"
| "server_step S StopListen = Some (stopListen S)"
| "server_step S (RunServerFunctor bind_call listen_call) = (case server_functors S of
     [] \<Rightarrow> Some S
   | ListenFunctor k # fs \<Rightarrow> on_acceptor k (run_listen bind_call listen_call) (S\<lparr>server_functors := fs\<rparr>)
   | StopFunctor k # fs \<Rightarrow> on_acceptor k (\<lambda>s. Some (run_stop s)) (S\<lparr>server_functors := fs\<rparr>))"
| "server_step S (AcceptorReady k m call peer) =
     (if k < length (acceptors S)
         \<and> HandleIn \<in> set (handleEvents ((acceptorEvent (acceptors S ! k))\<lparr>activeEvents := m, handlerAlive := acceptor_alive S k\<rparr>))
      then on_acceptor k (acceptor_handleIn call peer) S else Some S)"

definition server_run :: "'addr ServerWorld option \<Rightarrow> 'addr server_call \<Rightarrow> 'addr ServerWorld option" where
  "server_run s e = do { S \<leftarrow> s; server_step S e }"


subsection \<open>Accepting\<close>

text \<open>A failed accept, a spurious wake-up included, is told to the user as an error and changes
  nothing else; the codes that the wrapper does not know all become
  \<^verbatim>\<open>E_BADF\<close>.\<close>

lemma accept_failure_only_told:
  "acceptor_handleIn (SysErr e) peer (a, N) =
     Some (a, tell ErrorEvent (CodeArg
       (if e \<in> {ECONNABORTED, EMFILE, ENFILE, ENOBUFS, ENOMEM, EPERM} then getError e else E_BADF)) N)"
  by (auto simp: acceptor_handleIn_def socket_ops accept4_switch_def getErrorCode_def)

definition accept_one :: "('addr Acceptor \<times> Net) option \<Rightarrow> int \<times> 'addr \<Rightarrow> ('addr Acceptor \<times> Net) option" where
  "accept_one s x = do { s \<leftarrow> s; acceptor_handleIn (SysOk (fst x)) (snd x) s }"

lemma accept_one_effect:
  assumes "net_ok N" "fd \<noteq> - 1"
  shows "\<exists>N' C. accept_one (Some (a, N)) (fd, peer) = Some (a, N') \<and> net_ok N' \<and> made N' = made N @ [(next_loop N, C)]
     \<and> told N' = told N @ [(Connected, ChannelArg)] \<and> m_state C = Established \<and> watchingFd (m_epollEvent C) = fd
     \<and> connId C \<in> m_handlers (loops N' (next_loop N)) \<and> (\<forall>j. m_handlers (loops N j) \<subseteq> m_handlers (loops N' j))
     \<and> nextId N \<le> connId C \<and> connId C < nextId N'
     \<and> m_dispatchIndex (dispatcher N') = next_loop N \<and> m_loopCount (dispatcher N') = m_loopCount (dispatcher N)"
proof -
  obtain N' C where N': "net_connection fd N = Some N'" "net_ok N'" "made N' = made N @ [(next_loop N, C)]"
      "told N' = told N" "m_state C = Established" "watchingFd (m_epollEvent C) = fd"
      "m_handlers (loops N' (next_loop N)) = insert (connId C) (m_handlers (loops N (next_loop N)))"
      "\<forall>j. j \<noteq> next_loop N \<longrightarrow> loops N' j = loops N j" "nextId N \<le> connId C" "connId C < nextId N'"
      "m_loopCount (dispatcher N') = m_loopCount (dispatcher N)"
    using net_connection_effect [OF assms(1), of fd] by blast
  have d: "m_dispatchIndex (dispatcher N') = next_loop N"
    using N'(1) by (auto simp: net_connection_def net_dispatch_eq [OF assms(1)] Let_def)
  have "m_handlers (loops N j) \<subseteq> m_handlers (loops N' j)" for j
    using N'(7,8) by (cases "j = next_loop N") auto
  with N' d show ?thesis
    by (intro exI [of _ "tell Connected ChannelArg N'"] exI [of _ C])
       (simp add: accept_one_def acceptor_handleIn_def socket_accept_def stub_accept4_def socketOfFd_def assms(2))
qed

text \<open>The connections accepted by \<open>N'\<close> and not yet by \<open>N\<close>, with their loops.\<close>

definition accepted :: "nat \<Rightarrow> nat \<Rightarrow> int list \<Rightarrow> Net \<Rightarrow> (nat \<times> Connection) list \<Rightarrow> bool" where
  "accepted d n fds N' Cs \<longleftrightarrow> map fst Cs = map (\<lambda>j. (d + j) mod n) [1..<Suc (length fds)]
     \<and> map (\<lambda>C. watchingFd (m_epollEvent (snd C))) Cs = fds
     \<and> (\<forall>(i, C) \<in> set Cs. m_state C = Established \<and> connId C \<in> m_handlers (loops N' i))"

lemma accept_many:
  "net_ok N \<Longrightarrow> list_all (\<lambda>x. fst x \<noteq> - 1) xs \<Longrightarrow>
   \<exists>N' Cs. run_steps accept_one (Some (a, N)) xs = Some (a, N') \<and> made N' = made N @ Cs
     \<and> told N' = told N @ replicate (length xs) (Connected, ChannelArg)
     \<and> accepted (m_dispatchIndex (dispatcher N)) (m_loopCount (dispatcher N)) (map fst xs) N' Cs
     \<and> (\<forall>j. m_handlers (loops N j) \<subseteq> m_handlers (loops N' j))"
proof (induction xs arbitrary: N)
  case Nil
  then show ?case by (simp add: accepted_def)
next
  case (Cons x xs)
  obtain fd peer where x: "x = (fd, peer)" "fd \<noteq> - 1" using Cons.prems(2) by (cases x) auto
  obtain V C where V: "accept_one (Some (a, N)) x = Some (a, V)" "net_ok V" "made V = made N @ [(next_loop N, C)]"
     "told V = told N @ [(Connected, ChannelArg)]" "m_state C = Established" "watchingFd (m_epollEvent C) = fd"
     "connId C \<in> m_handlers (loops V (next_loop N))" "\<forall>j. m_handlers (loops N j) \<subseteq> m_handlers (loops V j)"
     "m_dispatchIndex (dispatcher V) = next_loop N" "m_loopCount (dispatcher V) = m_loopCount (dispatcher N)"
    using accept_one_effect [OF Cons.prems(1) x(2), of a peer] x(1) by blast
  let ?d = "m_dispatchIndex (dispatcher N)" and ?n = "m_loopCount (dispatcher N)"
  obtain N' Cs where N': "run_steps accept_one (Some (a, V)) xs = Some (a, N')" "made N' = made V @ Cs"
     "told N' = told V @ replicate (length xs) (Connected, ChannelArg)"
     "accepted (next_loop N) ?n (map fst xs) N' Cs" "\<forall>j. m_handlers (loops V j) \<subseteq> m_handlers (loops N' j)"
    using Cons.IH [OF V(2)] Cons.prems(2) V(9,10) by auto
  have "map (\<lambda>j. (Suc ?d mod ?n + j) mod ?n) [1..<Suc (length xs)]
      = map (\<lambda>j. (?d + j) mod ?n) [2..<Suc (Suc (length xs))]"
    by (simp add: map_Suc_upt [symmetric] numeral_2_eq_2 mod_simps del: upt_Suc)
  then have "accepted ?d ?n (map fst (x # xs)) N' ((next_loop N, C) # Cs)"
    using N'(4,5) V(5-7) x(1)
    by (auto simp: accepted_def next_loop_def upt_conv_Cons numeral_2_eq_2 simp del: upt_Suc)
  moreover have "\<forall>j. m_handlers (loops N j) \<subseteq> m_handlers (loops N' j)" using V(8) N'(5) by blast
  ultimately show ?case
    using V(1,3,4) N'(1-3) by (intro exI [of _ N'] exI [of _ "(next_loop N, C) # Cs"]) simp
qed

text \<open>C20. Accepting clients one after the other makes one established connection for each, on the loops of the
  dispatcher in turn, each held by its loop, and tells the user once for each; the
  acceptor itself does not change.\<close>

theorem accepts_round_robin:
  assumes "0 < n" "list_all (\<lambda>x. fst x \<noteq> - 1) xs"
  shows "\<exists>N' Cs. run_steps accept_one (Some (a, newNet n)) xs = Some (a, N')
     \<and> made N' = Cs \<and> told N' = replicate (length xs) (Connected, ChannelArg)
     \<and> map fst Cs = map (\<lambda>j. j mod n) [1..<Suc (length xs)]
     \<and> map (\<lambda>C. watchingFd (m_epollEvent (snd C))) Cs = map fst xs
     \<and> (\<forall>(i, C) \<in> set Cs. m_state C = Established \<and> connId C \<in> m_handlers (loops N' i))"
  using accept_many [OF newNet_ok [OF assms(1)] assms(2), of a]
  by (auto simp: accepted_def newNet_def newDispatcher_def split_beta simp del: upt_Suc)

definition fresh_acceptor :: "unit Acceptor" where
  "fresh_acceptor = \<lparr>acceptorId = 0, acceptorLoop = 0, listenSocket = \<lparr>m_socketFd = 5, m_addr = ()\<rparr>,
     acceptorEvent = newEpollEvent 5, acceptorEventId = 1, acceptorState = Closed\<rparr>"

lemma accepts_round_robin_witness:
  "\<exists>N'. run_steps accept_one (Some (fresh_acceptor, newNet 2)) [(7, ()), (8, ()), (9, ())] = Some (fresh_acceptor, N')
     \<and> map fst (made N') = [1, 0, 1]"
proof -
  let ?xs = "[(7, ()), (8, ()), (9, ())] :: (int \<times> unit) list"
  have eq: "map (\<lambda>j. j mod 2) [1..<Suc (length ?xs)] = [1, 0, 1 :: nat]" by code_simp
  have "0 < (2 :: nat)" "list_all (\<lambda>x. fst x \<noteq> - 1) ?xs" by simp_all
  from accepts_round_robin [OF this, of fresh_acceptor] show ?thesis unfolding eq by metis
qed


subsection \<open>Listening and stopping\<close>

lemma acceptor_event_effect [simp]:
  "acceptorId (fst (acceptor_event f s)) = acceptorId (fst s)" "acceptorLoop (fst (acceptor_event f s)) = acceptorLoop (fst s)"
  "listenSocket (fst (acceptor_event f s)) = listenSocket (fst s)" "acceptorState (fst (acceptor_event f s)) = acceptorState (fst s)"
  "acceptorEventId (fst (acceptor_event f s)) = acceptorEventId (fst s)"
  "told (snd (acceptor_event f s)) = told (snd s)" "made (snd (acceptor_event f s)) = made (snd s)"
  "nextId (snd (acceptor_event f s)) = nextId (snd s)" "net_ok (snd (acceptor_event f s)) = net_ok (snd s)"
  "m_handlers (loops (snd (acceptor_event f s)) i) = m_handlers (loops (snd s) i)"
  by (simp_all add: acceptor_event_def on_event_def split_beta)

text \<open>The handler and its event are set up before the socket listens: when the address is in use the user
  is told and the acceptor stays Closed, but its loop holds it and polls its descriptor; when
  the kernel has no memory for the socket the exception is not caught and leaves the loop.\<close>

lemma listen_failure_leaves_registration:
  assumes "acceptorState a = Closed"
  shows "run_listen (SysErr ENOMEM) c (a, N) = None \<and> run_listen (SysOk 0) (SysErr ENOBUFS) (a, N) = None
    \<and> (\<exists>a' N'. run_listen (SysErr EADDRINUSE) c (a, N) = Some (a', N') \<and> acceptorState a' = Closed
      \<and> told N' = told N @ [(ErrorEvent, CodeArg E_ADDRINUSE)]
      \<and> acceptorId a \<in> m_handlers (loops N' (acceptorLoop a))
      \<and> watches (watchingEvents (acceptorEvent a')) EV_IN
      \<and> poll_events (m_poll (loops N' (acceptorLoop a))) (watchingFd (acceptorEvent a)) = Some (acceptorEventId a))"
  using assms
  by (auto simp: run_listen_def socket_ops bind_switch_def listen_switch_def Let_def split_beta acceptor_event_def
      on_event_def event_active_def watches_active updateEvent_def stub_epoll_ctl_def add_handler_def
      split: option.splits)

lemma listen_failure_leaves_registration_witness:
  "run_listen (SysErr ENOMEM) (SysOk 0) (fresh_acceptor, newNet 1) = None"
  using listen_failure_leaves_registration [of fresh_acceptor] by (simp add: fresh_acceptor_def)

lemma run_listen_cases:
  assumes "run_listen b c (a, N) = Some (a', N')"
  shows "acceptorId a' = acceptorId a \<and> acceptorLoop a' = acceptorLoop a \<and> nextId N' = nextId N \<and> made N' = made N
     \<and> m_handlers (loops N j) \<subseteq> m_handlers (loops N' j)
     \<and> (acceptorState a' = acceptorState a \<or> acceptorState a' = Listen \<and> acceptorId a \<in> m_handlers (loops N' (acceptorLoop a)))"
proof (cases "acceptorState a = Closed")
  case True
  with assms show ?thesis
    by (cases "socket_listen b c")
       (auto simp: run_listen_def Let_def split_beta add_handler_def split: netpp_exception.splits)
qed (use assms in \<open>simp add: run_listen_def\<close>)

lemma run_stop_effect:
  "acceptorId (fst (run_stop s)) = acceptorId (fst s)" "acceptorLoop (fst (run_stop s)) = acceptorLoop (fst s)"
  "acceptorState (fst (run_stop s)) = Closed" "nextId (snd (run_stop s)) = nextId (snd s)"
  "made (snd (run_stop s)) = made (snd s)" "told (snd (run_stop s)) = told (snd s)"
  "m_handlers (loops (snd (run_stop s)) j)
     = (if j = acceptorLoop (fst s) then m_handlers (loops (snd s) j) - {acceptorId (fst s)} else m_handlers (loops (snd s) j))"
  "poll_events (m_poll (loops (snd (run_stop s)) (acceptorLoop (fst s)))) (watchingFd (acceptorEvent (fst s))) = None"
  by (auto simp: run_stop_def Let_def split_beta remove_handler_def acceptor_event_def on_event_def event_disable_def
      removeEvent_def stub_epoll_ctl_def split: option.splits)

lemma handleIn_cases:
  assumes "acceptor_handleIn call peer (a, N) = Some (a', N')"
  shows "a' = a \<and> nextId N \<le> nextId N' \<and> m_handlers (loops N j) \<subseteq> m_handlers (loops N' j)"
proof (cases "socket_accept call peer")
  case (Inr c)
  then obtain M where M: "net_connection (m_socketFd c) N = Some M" "N' = tell Connected ChannelArg M" "a' = a"
    using assms by (auto simp: acceptor_handleIn_def bind_eq_Some_conv)
  then obtain i where "fst (net_dispatch N) = Some i"
    by (auto simp: net_connection_def Let_def split_beta bind_eq_Some_conv)
  then show ?thesis
    using M makeTcpConnection_effect(5) [OF refl]
    by (auto simp: net_connection_def net_dispatch_def Let_def split_beta bind_eq_Some_conv)
qed (use assms in \<open>auto simp: acceptor_handleIn_def\<close>)


subsection \<open>Runs of a server\<close>

text \<open>An acceptor of the server that listens is held by its loop.\<close>

definition server_inv :: "'addr ServerWorld \<Rightarrow> bool" where
  "server_inv S \<longleftrightarrow> distinct (map acceptorId (acceptors S))
     \<and> (\<forall>a \<in> set (acceptors S). acceptorId a < nextId (server_net S) \<and> acceptorState a \<in> {Closed, Listen}
          \<and> (acceptorState a = Listen \<longrightarrow> acceptorId a \<in> m_handlers (loops (server_net S) (acceptorLoop a))))"

lemma on_acceptor_Some:
  assumes "on_acceptor k f S = Some S'"
  obtains a N where "k < length (acceptors S)" "f (acceptors S ! k, server_net S) = Some (a, N)"
    "S' = S\<lparr>acceptors := (acceptors S)[k := a], server_net := N\<rparr>"
  using assms by (auto simp: on_acceptor_def bind_eq_Some_conv nth_opt_eq_Some)

text \<open>One acceptor changes and keeps its identity; the others keep what they have.\<close>

lemma server_inv_update:
  assumes "server_inv S" "k < length (acceptors S)" "acceptorId a = acceptorId (acceptors S ! k)"
    and "acceptorState a \<in> {Closed, Listen}" "nextId (server_net S) \<le> nextId N"
    and "acceptorState a = Listen \<Longrightarrow> acceptorId a \<in> m_handlers (loops N (acceptorLoop a))"
    and "\<And>j. m_handlers (loops (server_net S) j) - {acceptorId a} \<subseteq> m_handlers (loops N j)"
  shows "server_inv (S\<lparr>acceptors := (acceptors S)[k := a], server_net := N\<rparr>)"
proof -
  have "map acceptorId ((acceptors S)[k := a]) = map acceptorId (acceptors S)"
    using assms(2,3) by (simp add: map_update list_update_same_conv)
  moreover have "acceptorId b < nextId N \<and> acceptorState b \<in> {Closed, Listen}
      \<and> (acceptorState b = Listen \<longrightarrow> acceptorId b \<in> m_handlers (loops N (acceptorLoop b)))"
    if b: "b \<in> set ((acceptors S)[k := a])" for b
  proof -
    from b obtain j where j: "j < length (acceptors S)" "b = (acceptors S)[k := a] ! j"
      by (auto simp: in_set_conv_nth)
    show ?thesis
    proof (cases "j = k")
      case True
      have "acceptors S ! k \<in> set (acceptors S)" using assms(2) by simp
      then have "acceptorId a < nextId (server_net S)" using assms(1,3) by (simp add: server_inv_def)
      with True j assms(4-6) show ?thesis by auto
    next
      case False
      then have b': "b = acceptors S ! j" "b \<in> set (acceptors S)" using j by simp_all
      moreover have "acceptorId b \<noteq> acceptorId a"
        using False j(1) b'(1) assms(1-3) by (simp add: server_inv_def nth_eq_iff_index_eq [symmetric] distinct_conv_nth)
      ultimately show ?thesis using assms(1,5,7) by (fastforce simp: server_inv_def)
    qed
  qed
  ultimately show ?thesis using assms(1) by (simp add: server_inv_def)
qed

lemma server_inv_functors [simp]:
  "server_inv (S\<lparr>server_functors := fs\<rparr>) = server_inv S" "server_inv (S\<lparr>weak_acceptor := w\<rparr>) = server_inv S"
  by (simp_all add: server_inv_def)

lemma on_acceptor_inv:
  assumes "server_inv S" "on_acceptor k f S = Some S'"
    and "f = run_listen b c \<or> f = (\<lambda>s. Some (run_stop s)) \<or> f = acceptor_handleIn call peer"
  shows "server_inv S'"
proof -
  obtain a N where k: "k < length (acceptors S)" and f: "f (acceptors S ! k, server_net S) = Some (a, N)"
      and S': "S' = S\<lparr>acceptors := (acceptors S)[k := a], server_net := N\<rparr>"
    by (rule on_acceptor_Some [OF assms(2)])
  let ?a = "acceptors S ! k"
  have "?a \<in> set (acceptors S)" using k by simp
  then have a: "acceptorState ?a \<in> {Closed, Listen}"
      "acceptorState ?a = Listen \<longrightarrow> acceptorId ?a \<in> m_handlers (loops (server_net S) (acceptorLoop ?a))"
    using assms(1) by (simp_all add: server_inv_def)
  from assms(3) show ?thesis
  proof (elim disjE)
    assume "f = run_listen b c"
    with f have "run_listen b c (?a, server_net S) = Some (a, N)" by simp
    note run_listen_cases [OF this]
    with a show ?thesis unfolding S' by (intro server_inv_update [OF assms(1) k]) (auto dest: subsetD)
  next
    assume "f = (\<lambda>s. Some (run_stop s))"
    with f have "a = fst (run_stop (?a, server_net S))" "N = snd (run_stop (?a, server_net S))" by simp_all
    then show ?thesis unfolding S' by (intro server_inv_update [OF assms(1) k]) (auto simp: run_stop_effect)
  next
    assume "f = acceptor_handleIn call peer"
    with f have "acceptor_handleIn call peer (?a, server_net S) = Some (a, N)" by simp
    note handleIn_cases [OF this]
    with a show ?thesis unfolding S' by (intro server_inv_update [OF assms(1) k]) (auto dest: subsetD)
  qed
qed

lemma server_listen_inv:
  assumes "server_inv S" "server_listen call S = Some S'"
  shows "server_inv S'"
  using assms
  by (auto simp: server_listen_def makeAcceptor_def net_dispatch_def Let_def split_beta bind_eq_Some_conv server_inv_def
      split: sum.splits) (fastforce simp: less_SucI)+


lemma stopListen_inv: "server_inv (stopListen S) = server_inv S"
  by (auto simp: stopListen_def split: option.splits)

lemma server_step_inv:
  assumes "server_inv S" "server_step S e = Some S'"
  shows "server_inv S'"
proof (cases e)
  case (RunServerFunctor b c)
  show ?thesis
  proof (cases "server_functors S")
    case (Cons f fs)
    have "server_inv (S\<lparr>server_functors := fs\<rparr>)" using assms(1) by simp
    note step = on_acceptor_inv [OF this]
    show ?thesis using assms(2) RunServerFunctor Cons by (cases f) (auto intro: step)
  qed (use assms RunServerFunctor in simp)
qed (use assms in \<open>auto simp: stopListen_inv intro: server_listen_inv on_acceptor_inv split: if_splits\<close>)

interpretation server: machine "\<lambda>s. \<exists>addr N. s = Some (newTcpServer addr N)" server_run
    "\<lambda>s. \<forall>S. s = Some S \<longrightarrow> server_inv S"
  by unfold_locales (auto simp: server_run_def bind_eq_Some_conv newTcpServer_def server_inv_def [of "\<lparr>acceptors = [], server_net = _,
      server_functors = _, server_addr = _, weak_acceptor = _\<rparr>"] intro: server_step_inv)

text \<open>In every run of a server its acceptors are closed or listening, and a listening one is held by the
  loop it was made for, so that it goes on accepting.\<close>

lemma listening_acceptors_held:
  assumes "run_steps server_run (Some (newTcpServer addr N)) es = Some S" "a \<in> set (acceptors S)"
  shows "acceptorState a \<in> {Closed, Listen}
     \<and> (acceptorState a = Listen \<longrightarrow> acceptorId a \<in> m_handlers (loops (server_net S) (acceptorLoop a)))"
  using server.run_initial_inv [of "Some (newTcpServer addr N)" es] assms by (auto simp: server_inv_def)

text \<open>Acceptor \<open>k\<close> listens, and neither the server's weak pointer nor a waiting functor leads to
  stopping it.\<close>

definition forgotten :: "nat \<Rightarrow> 'addr ServerWorld \<Rightarrow> bool" where
  "forgotten k S \<longleftrightarrow> server_inv S \<and> k < length (acceptors S) \<and> acceptorState (acceptors S ! k) = Listen
     \<and> weak_acceptor S \<noteq> Some k \<and> StopFunctor k \<notin> set (server_functors S)"

lemma server_listen_effect:
  assumes "server_listen call S = Some S'"
  shows "(acceptors S' = acceptors S \<and> weak_acceptor S' = None \<and> server_functors S' = server_functors S)
     \<or> (\<exists>a. acceptors S' = acceptors S @ [a] \<and> weak_acceptor S' = Some (length (acceptors S))
          \<and> server_functors S' = server_functors S @ [ListenFunctor (length (acceptors S))])"
  using assms by (auto simp: server_listen_def bind_eq_Some_conv split: option.splits)

lemma forgotten_step:
  assumes "forgotten k S" "server_step S e = Some S'"
  shows "forgotten k S'"
proof -
  have inv: "server_inv S'" using server_step_inv assms by (auto simp: forgotten_def)
  have k: "k < length (acceptors S)" "acceptorState (acceptors S ! k) = Listen" using assms(1) by (simp_all add: forgotten_def)
  show ?thesis
  proof (cases e)
    case (ServerListen call)
    with assms(2) have "server_listen call S = Some S'" by simp
    from server_listen_effect [OF this] inv assms(1) show ?thesis by (auto simp: forgotten_def nth_append)
  next
    case StopListen
    with assms inv show ?thesis by (auto simp: forgotten_def stopListen_def split: option.splits if_splits)
  next
    case (RunServerFunctor b c)
    show ?thesis
    proof (cases "server_functors S")
      case Nil
      with assms RunServerFunctor show ?thesis by simp
    next
      case (Cons f fs)
      let ?S = "S\<lparr>server_functors := fs\<rparr>"
      show ?thesis
      proof (cases f)
        case (ListenFunctor j)
        with assms(2) RunServerFunctor Cons have "on_acceptor j (run_listen b c) ?S = Some S'" by simp
        then obtain a N where a: "j < length (acceptors ?S)" "run_listen b c (acceptors ?S ! j, server_net ?S) = Some (a, N)"
            "S' = ?S\<lparr>acceptors := (acceptors ?S)[j := a], server_net := N\<rparr>" by (rule on_acceptor_Some)
        from run_listen_cases [OF a(2), of 0] a(1,3) inv assms(1) Cons show ?thesis
          by (auto simp: forgotten_def nth_list_update)
      next
        case (StopFunctor j)
        with assms(2) RunServerFunctor Cons have "on_acceptor j (\<lambda>s. Some (run_stop s)) ?S = Some S'" by simp
        then obtain a N where a: "S' = ?S\<lparr>acceptors := (acceptors ?S)[j := a], server_net := N\<rparr>" by (rule on_acceptor_Some)
        with inv assms(1) Cons StopFunctor show ?thesis by (auto simp: forgotten_def)
      qed
    qed
  next
    case (AcceptorReady j m call peer)
    show ?thesis
    proof (cases "S' = S")
      case False
      with assms(2) AcceptorReady have "on_acceptor j (acceptor_handleIn call peer) S = Some S'" by (auto split: if_splits)
      then obtain a N where a: "acceptor_handleIn call peer (acceptors S ! j, server_net S) = Some (a, N)"
          "S' = S\<lparr>acceptors := (acceptors S)[j := a], server_net := N\<rparr>" by (rule on_acceptor_Some)
      from handleIn_cases [OF a(1)] a(2) inv assms(1) show ?thesis by (auto simp: forgotten_def)
    qed (use assms in simp)
  qed
qed

interpretation forgotten: machine "\<lambda>s. \<exists>S. s = Some S \<and> forgotten k S" server_run "\<lambda>s. \<forall>S. s = Some S \<longrightarrow> forgotten k S" for k
  by unfold_locales (auto simp: server_run_def bind_eq_Some_conv intro: forgotten_step)

text \<open>Calling \<^verbatim>\<open>TcpServer::listen\<close> a second time makes the server forget its first acceptor: whatever
  is called and whatever happens afterwards, \<^verbatim>\<open>stopListen\<close> included, that acceptor
  goes on listening.\<close>

lemma second_listen_never_stopped:
  assumes "run_steps server_run (Some (newTcpServer addr N)) es = Some S" "k < length (acceptors S)"
    and "acceptorState (acceptors S ! k) = Listen" "StopFunctor k \<notin> set (server_functors S)"
    and "server_listen call S = Some S'" "run_steps server_run (Some S') es' = Some S''"
  shows "acceptorState (acceptors S'' ! k) = Listen \<and> acceptor_alive S'' k"
proof -
  have "server_inv S" using server.run_initial_inv [of "Some (newTcpServer addr N)" es] assms(1) by auto
  then have "server_inv S'" using server_listen_inv [OF _ assms(5)] by blast
  moreover have "acceptors S' = acceptors S \<or> (\<exists>a. acceptors S' = acceptors S @ [a])" "weak_acceptor S' \<noteq> Some k"
    "StopFunctor k \<notin> set (server_functors S')"
    using server_listen_effect [OF assms(5)] assms(2,4) by auto
  ultimately have "forgotten k S'" using assms(2,3) by (auto simp: forgotten_def nth_append)
  then have "\<exists>S. Some S' = Some S \<and> forgotten k S" by simp
  from forgotten.run_initial_inv [OF this, of es'] have "forgotten k S''" by (simp add: assms(6))
  then show ?thesis by (auto simp: forgotten_def acceptor_alive_def server_inv_def)
qed


subsection \<open>One listen and stop\<close>

lemma listen_once:
  assumes "net_ok N"
  shows "\<exists>S a. run_steps server_run (Some (newTcpServer addr N)) [ServerListen (SysOk fd), RunServerFunctor (SysOk 0) (SysOk 0)] = Some S
     \<and> acceptors S = [a] \<and> acceptorState a = Listen \<and> watchingFd (acceptorEvent a) = fd
     \<and> m_socketFd (listenSocket a) = fd
     \<and> acceptorId a \<in> m_handlers (loops (server_net S) (acceptorLoop a)) \<and> acceptorLoop a = next_loop N
     \<and> poll_events (m_poll (loops (server_net S) (acceptorLoop a))) fd = Some (acceptorEventId a)
     \<and> watches (watchingEvents (acceptorEvent a)) EV_IN
     \<and> server_functors S = [] \<and> weak_acceptor S = Some 0 \<and> net_ok (server_net S) \<and> told (server_net S) = told N"
proof -
  let ?a = "\<lparr>acceptorId = nextId N, acceptorLoop = next_loop N, listenSocket = \<lparr>m_socketFd = fd, m_addr = addr\<rparr>,
      acceptorEvent = newEpollEvent fd, acceptorEventId = nextId N + 1, acceptorState = Closed\<rparr>"
  let ?N = "N\<lparr>dispatcher := (dispatcher N)\<lparr>m_dispatchIndex := next_loop N\<rparr>, nextId := nextId N + 2\<rparr>"
  have ok: "net_ok ?N" using assms by (simp add: net_ok_def next_loop_def)
  have made: "server_step (newTcpServer addr N) (ServerListen (SysOk fd)) = Some ((newTcpServer addr N)\<lparr>acceptors := [?a],
      server_net := ?N, weak_acceptor := Some 0, server_functors := [ListenFunctor 0]\<rparr>)"
    by (simp add: server_listen_def makeAcceptor_def net_dispatch_eq [OF assms] newSocket_def stub_socket_def
        newTcpServer_def Let_def)
  obtain b M where b: "run_listen (SysOk 0) (SysOk 0) (?a, ?N) = Some (b, M)" "acceptorState b = Listen"
      "watchingFd (acceptorEvent b) = fd" "m_socketFd (listenSocket b) = fd" "acceptorLoop b = next_loop N"
      "acceptorId b \<in> m_handlers (loops M (acceptorLoop b))" "acceptorEventId b = nextId N + 1"
      "poll_events (m_poll (loops M (acceptorLoop b))) fd = Some (acceptorEventId b)"
      "watches (watchingEvents (acceptorEvent b)) EV_IN" "net_ok M" "told M = told N"
    using ok
    by (simp add: run_listen_def socket_ops Let_def split_beta acceptor_event_def on_event_def event_active_def
        watches_active updateEvent_def stub_epoll_ctl_def add_handler_def newEpollEvent_def split: option.splits)
  then show ?thesis
    using made by (simp add: server_run_def on_acceptor_def newTcpServer_def)
qed

text \<open>A server that listens and is then stopped: in between its acceptor listens on the next loop of the
  dispatcher and watches the descriptor for clients; afterwards it is closed, its descriptor is no longer
  polled and nothing keeps the acceptor alive, so that a second stop does nothing.\<close>

theorem listen_and_stop:
  assumes "net_ok N"
  shows "\<exists>S a S' a'. run_steps server_run (Some (newTcpServer addr N)) [ServerListen (SysOk fd), RunServerFunctor (SysOk 0) (SysOk 0)] = Some S
     \<and> acceptors S = [a] \<and> acceptorState a = Listen \<and> acceptorLoop a = next_loop N \<and> acceptor_alive S 0
     \<and> poll_events (m_poll (loops (server_net S) (acceptorLoop a))) fd = Some (acceptorEventId a)
     \<and> watches (watchingEvents (acceptorEvent a)) EV_IN
     \<and> run_steps server_run (Some S) [StopListen, RunServerFunctor b c] = Some S'
     \<and> acceptors S' = [a'] \<and> acceptorState a' = Closed \<and> \<not> acceptor_alive S' 0
     \<and> poll_events (m_poll (loops (server_net S') (acceptorLoop a))) fd = None
     \<and> told (server_net S') = told N \<and> stopListen S' = S'"
proof -
  obtain S a where S: "run_steps server_run (Some (newTcpServer addr N)) [ServerListen (SysOk fd), RunServerFunctor (SysOk 0) (SysOk 0)] = Some S"
      "acceptors S = [a]" "acceptorState a = Listen" "watchingFd (acceptorEvent a) = fd"
      "acceptorId a \<in> m_handlers (loops (server_net S) (acceptorLoop a))" "acceptorLoop a = next_loop N"
      "poll_events (m_poll (loops (server_net S) (acceptorLoop a))) fd = Some (acceptorEventId a)"
      "watches (watchingEvents (acceptorEvent a)) EV_IN"
      "server_functors S = []" "weak_acceptor S = Some 0" "told (server_net S) = told N"
    using listen_once [OF assms, of addr fd] by blast
  let ?r = "run_stop (a, server_net S)"
  let ?S' = "S\<lparr>server_functors := [], acceptors := [fst ?r], server_net := snd ?r\<rparr>"
  have alive: "acceptor_alive S 0" using S(2,5) by (simp add: acceptor_alive_def)
  have run: "run_steps server_run (Some S) [StopListen, RunServerFunctor b c] = Some ?S'"
    using S(2,9,10) alive by (simp add: server_run_def stopListen_def on_acceptor_def split_beta)
  have dead: "\<not> acceptor_alive ?S' 0" by (simp add: acceptor_alive_def run_stop_effect)
  then have "stopListen ?S' = ?S'" using S(10) by (simp add: stopListen_def)
  with run dead show ?thesis
    using S alive run_stop_effect [of "(a, server_net S)"]
    by (intro exI [of _ S] exI [of _ a] exI [of _ ?S'] exI [of _ "fst ?r"]) simp
qed

lemma listen_and_stop_witness:
  "\<exists>S'. run_steps server_run (Some (newTcpServer () (newNet 2)))
       ([ServerListen (SysOk 5), RunServerFunctor (SysOk 0) (SysOk 0)] @ [StopListen, RunServerFunctor (SysOk 0) (SysOk 0)]) = Some S'
     \<and> \<not> acceptor_alive S' 0"
proof -
  have "net_ok (newNet 2)" by (rule newNet_ok) simp
  from listen_and_stop [OF this, of "()" 5 "SysOk 0" "SysOk 0"] show ?thesis
    unfolding run_steps_append by fastforce
qed

lemma listening_acceptors_held_witness:
  "\<exists>S a. run_steps server_run (Some (newTcpServer () (newNet 1))) [ServerListen (SysOk 5), RunServerFunctor (SysOk 0) (SysOk 0)] = Some S
     \<and> a \<in> set (acceptors S) \<and> acceptorState a \<in> {Closed, Listen}"
proof -
  have "net_ok (newNet 1)" by (rule newNet_ok) simp
  from listen_once [OF this, of "()" 5] obtain S a where "acceptors S = [a]"
    "run_steps server_run (Some (newTcpServer () (newNet 1))) [ServerListen (SysOk 5), RunServerFunctor (SysOk 0) (SysOk 0)] = Some S"
    by blast
  with listening_acceptors_held [OF this(2), of a] show ?thesis by auto
qed

lemma second_listen_never_stopped_witness:
  "\<exists>S S' S'' :: unit ServerWorld. server_listen (SysOk 6) S = Some S'
     \<and> run_steps server_run (Some S') [StopListen, StopListen] = Some S''
     \<and> acceptorState (acceptors S'' ! 0) = Listen"
proof -
  have "net_ok (newNet 1)" by (rule newNet_ok) simp
  from listen_once [OF this, of "()" 5] obtain S a where S: "acceptors S = [a]" "acceptorState a = Listen"
    "run_steps server_run (Some (newTcpServer () (newNet 1))) [ServerListen (SysOk 5), RunServerFunctor (SysOk 0) (SysOk 0)] = Some S"
    "server_functors S = []" "net_ok (server_net S)"
    by blast
  obtain S' where S': "server_listen (SysOk 6) S = Some S'"
    by (simp add: server_listen_def makeAcceptor_def net_dispatch_eq [OF S(5)] newSocket_def stub_socket_def Let_def)
  have r: "run_steps server_run (Some S') [StopListen, StopListen] = Some (stopListen (stopListen S'))"
    by (simp add: server_run_def)
  have k: "0 < length (acceptors S)" "acceptorState (acceptors S ! 0) = Listen" "StopFunctor 0 \<notin> set (server_functors S)"
    using S(1,2,4) by simp_all
  from second_listen_never_stopped [OF S(3) k S' r] S' r show ?thesis by blast
qed

end
