(* ===== verification/StdMap.thy ===== *)
theory StdMap
  imports Prelude "HOL-Library.List_Lexorder" "HOL-Library.Char_ord"
begin

text \<open>
  \<^verbatim>\<open>std::map\<close> as far as the sources use it: the pairs in ascending order of their keys,
  \<^verbatim>\<open>emplace\<close>, which keeps the value of a key that is already there, and
  \<^verbatim>\<open>find\<close>. Strings are ordered by their bytes, as \<^verbatim>\<open>std::string\<close> compares
  them. The interface is that of a dictionary in which the first value given to a key stays.
\<close>

type_synonym ('k, 'v) std_map = "('k \<times> 'v) list"

fun map_emplace :: "'k::linorder \<Rightarrow> 'v \<Rightarrow> ('k, 'v) std_map \<Rightarrow> ('k, 'v) std_map" where
  "map_emplace k v [] = [(k, v)]"
| "map_emplace k v ((k', v') # m) =
     (if k < k' then (k, v) # (k', v') # m
      else if k = k' then (k', v') # m
      else (k', v') # map_emplace k v m)"

definition map_find :: "'k \<Rightarrow> ('k, 'v) std_map \<Rightarrow> 'v option" where
  "map_find k m = map_of m k"

definition map_ok :: "('k::linorder, 'v) std_map \<Rightarrow> bool" where
  "map_ok m \<longleftrightarrow> sorted_wrt (<) (map fst m)"

subsection \<open>First value stays\<close>

locale dictionary =
  fixes empty :: "'m"
    and emplace :: "'k \<Rightarrow> 'v \<Rightarrow> 'm \<Rightarrow> 'm"
    and find :: "'k \<Rightarrow> 'm \<Rightarrow> 'v option"
    and ok :: "'m \<Rightarrow> bool"
  assumes ok_empty: "ok empty"
    and ok_emplace: "ok m \<Longrightarrow> ok (emplace k v m)"
    and find_empty: "find k empty = None"
    and find_emplace: "ok m \<Longrightarrow>
      find k' (emplace k v m) = (if k' = k \<and> find k m = None then Some v else find k' m)"
begin

definition emplace_all :: "('k \<times> 'v) list \<Rightarrow> 'm \<Rightarrow> 'm" where
  "emplace_all kvs m = fold (\<lambda>(k, v). emplace k v) kvs m"

lemma emplace_all_simps [simp]:
  "emplace_all [] m = m" "emplace_all ((k, v) # kvs) m = emplace_all kvs (emplace k v m)"
  by (simp_all add: emplace_all_def)

lemma ok_emplace_all: "ok m \<Longrightarrow> ok (emplace_all kvs m)"
  by (induction kvs arbitrary: m) (auto simp: ok_emplace)

lemma find_emplace_all:
  "ok m \<Longrightarrow> find k (emplace_all kvs m) = (case find k m of Some v \<Rightarrow> Some v | None \<Rightarrow> map_of kvs k)"
proof (induction kvs arbitrary: m)
  case Nil
  then show ?case by (simp split: option.split)
next
  case (Cons kv kvs)
  then show ?case by (cases kv) (auto simp: ok_emplace find_emplace split: option.split)
qed

lemma find_all_empty: "find k (emplace_all kvs empty) = map_of kvs k"
  by (simp add: find_emplace_all ok_empty find_empty)

end

lemma map_of_keys: "k \<in> fst ` set kvs \<longleftrightarrow> map_of kvs k \<noteq> None"
  by (simp add: map_of_eq_None_iff)

lemma fst_map_emplace: "fst ` set (map_emplace k v m) = insert k (fst ` set m)"
  by (induction k v m rule: map_emplace.induct) auto

lemma map_emplace_ok: "map_ok m \<Longrightarrow> map_ok (map_emplace k v m)"
proof (induction k v m rule: map_emplace.induct)
  case (2 k v k' v' m)
  then show ?case using fst_map_emplace [of k v m] by (fastforce simp: map_ok_def image_iff)
qed (simp add: map_ok_def)

lemma map_find_emplace:
  "map_ok m \<Longrightarrow> map_find k' (map_emplace k v m) = (if k' = k \<and> map_find k m = None then Some v else map_find k' m)"
proof (induction k v m rule: map_emplace.induct)
  case (2 k v a b m)
  show ?case
  proof (cases "k < a")
    case True
    with "2.prems" have "k \<noteq> a" "map_of m k = None"
      by (auto simp: map_ok_def map_of_eq_None_iff)
    with True show ?thesis by (simp add: map_find_def)
  next
    case False
    with 2 show ?thesis by (cases "k = a") (auto simp: map_find_def map_ok_def)
  qed
qed (simp add: map_find_def)

interpretation std_map: dictionary "[] :: ('k::linorder, 'v) std_map" map_emplace map_find map_ok
  by unfold_locales
     (simp add: map_ok_def, erule map_emplace_ok, simp add: map_find_def, erule map_find_emplace)

text \<open>Two maps with the same entries are the same list, so the order of insertion of distinct
  keys is not visible.\<close>

lemma map_ok_rebuild:
  "map_ok m \<Longrightarrow> map (\<lambda>k. (k, the (map_find k m))) (map fst m) = m"
  by (auto simp: map_ok_def map_find_def strict_sorted_iff intro!: map_idI)

lemma map_ok_unique:
  fixes m m' :: "('k::linorder, 'v) std_map"
  assumes "map_ok m" "map_ok m'" "\<And>k. map_find k m = map_find k m'"
  shows "m = m'"
proof -
  have "dom (map_of m) = dom (map_of m')" using assms(3) by (simp add: dom_def map_find_def)
  then have "set (map fst m) = set (map fst m')" by (simp add: dom_map_of_conv_image_fst)
  then have "map fst m = map fst m'"
    using assms(1,2) by (intro strict_sorted_equal) (simp_all add: map_ok_def)
  then have "map (\<lambda>k. (k, the (map_find k m))) (map fst m) = map (\<lambda>k. (k, the (map_find k m'))) (map fst m')"
    by (simp only: assms(3))
  then show ?thesis by (simp only: map_ok_rebuild [OF assms(1)] map_ok_rebuild [OF assms(2)])
qed

end
