(* ===== verification/HttpCode.thy ===== *)
theory HttpCode
  imports StdMap
begin

text \<open>
  The enumerations of HTTP and their spellings (\<^verbatim>\<open>include/http/HttpCode.h\<close>,
  \<^verbatim>\<open>src/http/HttpCode.cpp\<close>). A \<^verbatim>\<open>StatusCode\<close> is cast from a number and can
  have any value, so it is an integer here; the other enumerations only have their own values.
\<close>

datatype (plugins only: code size) ProtocolVersion = UnkownProtocol | Http1_0 | Http1_1 | Http2_0

datatype (plugins only: code size) RequestMethod = UnknownHeader | Get | Head | Post | Put | Delete | Connect
  | Options | Trace | Patch

datatype (plugins only: code size) KnownHeader =
    CacheControl | Expect | Host | MaxForwards | Pragma | Range | TE | IfMatch | IfNoneMatch | IfModifiedSince
  | IfUnmodifiedSince | IfRange | Accept | AcceptCharset | AcceptEncoding | AcceptLanguage | Authorization
  | ProxyAuthorization | From | Referer | UserAgent | Age | Expires | Date | Location | RetryAfter | Vary | Warning
  | ETag | LastModified | WWWAuthenticate | ProxyAuthenticate | AcceptRanges | Allow | Server | ContentEncoding
  | ContentLength | ContentType

type_synonym StatusCode = int

fun getHeaderAsString :: "KnownHeader \<Rightarrow> string" where
  "getHeaderAsString CacheControl = ''Cache-Control''"
| "getHeaderAsString Expect = ''Expect''"
| "getHeaderAsString Host = ''Host''"
| "getHeaderAsString MaxForwards = ''Max-Forwards''"
| "getHeaderAsString Pragma = ''Pragma''"
| "getHeaderAsString Range = ''Range''"
| "getHeaderAsString TE = ''Te''"
| "getHeaderAsString IfMatch = ''If-Match''"
| "getHeaderAsString IfNoneMatch = ''If-None-Match''"
| "getHeaderAsString IfModifiedSince = ''If-Modified-Since''"
| "getHeaderAsString IfUnmodifiedSince = ''If-Unmodified-Since''"
| "getHeaderAsString IfRange = ''If-Range''"
| "getHeaderAsString Accept = ''Accept''"
| "getHeaderAsString AcceptCharset = ''Accept-Charset''"
| "getHeaderAsString AcceptEncoding = ''Accept-Encoding''"
| "getHeaderAsString AcceptLanguage = ''Accept-Language''"
| "getHeaderAsString Authorization = ''Authorization''"
| "getHeaderAsString ProxyAuthorization = ''Proxy-Authorization''"
| "getHeaderAsString From = ''From''"
| "getHeaderAsString Referer = ''Referer''"
| "getHeaderAsString UserAgent = ''User-Agent''"
| "getHeaderAsString Age = ''Age''"
| "getHeaderAsString Expires = ''Expires''"
| "getHeaderAsString Date = ''Date''"
| "getHeaderAsString Location = ''Location''"
| "getHeaderAsString RetryAfter = ''Retry-After''"
| "getHeaderAsString Vary = ''Vary''"
| "getHeaderAsString Warning = ''Warning''"
| "getHeaderAsString ETag = ''Etag''"
| "getHeaderAsString LastModified = ''Last-Modified''"
| "getHeaderAsString WWWAuthenticate = ''WWW-Authenticate''"
| "getHeaderAsString ProxyAuthenticate = ''Proxy-Authenticate''"
| "getHeaderAsString AcceptRanges = ''Accept-Ranges''"
| "getHeaderAsString Allow = ''Allow''"
| "getHeaderAsString Server = ''Server''"
| "getHeaderAsString ContentEncoding = ''Content-Encoding''"
| "getHeaderAsString ContentLength = ''Content-Length''"
| "getHeaderAsString ContentType = ''Content-Type''"

definition statusTable :: "(StatusCode \<times> string) list" where
  "statusTable = [(100, ''Continue''), (101, ''Switching Protocols''), (200, ''OK''), (201, ''Created''),
     (202, ''Accepted''), (203, ''Non-Authoritative Information''), (204, ''No Content''),
     (205, ''Reset Content''), (206, ''Partial Content''), (300, ''Multiple Choices''),
     (301, ''Moved Permanently''), (302, ''Found''), (303, ''See Other''), (304, ''Not Modified''),
     (305, ''Use Proxy''), (306, ''Unused''), (307, ''Temporary Redirect''), (400, ''Bad Request''),
     (401, ''Unauthorized''), (402, ''Payment Required''), (403, ''Forbidden''), (404, ''Not Found''),
     (405, ''Method Not Allowed''), (406, ''Not Acceptable''), (407, ''Proxy Authentication Required''),
     (408, ''Request Time-out''), (409, ''Conflict''), (410, ''Gone''), (411, ''Length Required''),
     (412, ''Precondition Failed''), (413, ''Request Entity Too Large''), (414, ''Request-URI Too Large''),
     (415, ''Unsupported Media Type''), (416, ''Requested range not satisfiable''),
     (417, ''Expectation Failed''), (500, ''Internal Server Error''), (501, ''Not Implemented''),
     (502, ''Bad Gateway''), (503, ''Service Unavailable''), (504, ''Gateway Time-out''),
     (505, ''HTTP Version not supported'')]"

definition getStatusAsString :: "StatusCode \<Rightarrow> string" where
  "getStatusAsString code = (case map_of statusTable code of Some s \<Rightarrow> s | None \<Rightarrow> ''OK'')"

fun getMethodAsString :: "RequestMethod \<Rightarrow> string" where
  "getMethodAsString UnknownHeader = ''UNKNOWN_HEADER''"
| "getMethodAsString Get = ''GET''"
| "getMethodAsString Head = ''HEAD''"
| "getMethodAsString Post = ''POST''"
| "getMethodAsString Put = ''PUT''"
| "getMethodAsString Delete = ''DELETE''"
| "getMethodAsString Connect = ''CONNECT''"
| "getMethodAsString Options = ''OPTIONS''"
| "getMethodAsString Trace = ''TRACE''"
| "getMethodAsString Patch = ''PATCH''"

text \<open>The macro joins \<^verbatim>\<open>"HTTP"\<close>, the major version, a dot and the minor version.\<close>

fun getHttpVersionAsString :: "ProtocolVersion \<Rightarrow> string" where
  "getHttpVersionAsString UnkownProtocol = ''HTTP0.0''"
| "getHttpVersionAsString Http1_0 = ''HTTP1.0''"
| "getHttpVersionAsString Http1_1 = ''HTTP1.1''"
| "getHttpVersionAsString Http2_0 = ''HTTP2.0''"

definition getHttpVersion :: "nat \<Rightarrow> nat \<Rightarrow> ProtocolVersion" where
  "getHttpVersion major minor =
     (if major * 10 + minor = 10 then Http1_0
      else if major * 10 + minor = 11 then Http1_1
      else if major * 10 + minor = 20 then Http2_0
      else UnkownProtocol)"

definition version_numbers :: "ProtocolVersion \<Rightarrow> nat \<times> nat" where
  "version_numbers v = (case v of UnkownProtocol \<Rightarrow> (0, 0) | Http1_0 \<Rightarrow> (1, 0) | Http1_1 \<Rightarrow> (1, 1) | Http2_0 \<Rightarrow> (2, 0))"

text \<open>A version is found again from its numbers, and for one-digit minor versions from no others.\<close>

lemma getHttpVersion_roundtrip:
  "getHttpVersion (fst (version_numbers v)) (snd (version_numbers v)) = v"
  by (cases v) (simp_all add: version_numbers_def getHttpVersion_def)

lemma getHttpVersion_exact:
  "minor < 10 \<Longrightarrow> v \<noteq> UnkownProtocol \<Longrightarrow> getHttpVersion major minor = v \<longleftrightarrow> version_numbers v = (major, minor)"
  by (cases v) (auto simp: version_numbers_def getHttpVersion_def, presburger+)

text \<open>No two headers have the same spelling, so that a known header is never confused with
  another.\<close>

definition known_headers :: "KnownHeader list" where
  "known_headers = [CacheControl, Expect, Host, MaxForwards, Pragma, Range, TE, IfMatch, IfNoneMatch, IfModifiedSince,
     IfUnmodifiedSince, IfRange, Accept, AcceptCharset, AcceptEncoding, AcceptLanguage, Authorization,
     ProxyAuthorization, From, Referer, UserAgent, Age, Expires, Date, Location, RetryAfter, Vary, Warning, ETag,
     LastModified, WWWAuthenticate, ProxyAuthenticate, AcceptRanges, Allow, Server, ContentEncoding, ContentLength,
     ContentType]"

lemma known_headers_complete: "h \<in> set known_headers"
  by (cases h) (simp_all add: known_headers_def)

lemma header_strings_distinct: "distinct (map getHeaderAsString known_headers)"
  unfolding known_headers_def by (simp only: list.map getHeaderAsString.simps) code_simp

lemma header_string_inj: "getHeaderAsString h = getHeaderAsString h' \<longleftrightarrow> h = h'"
  using header_strings_distinct known_headers_complete
  by (auto simp: distinct_map dest: inj_onD)

end
