(* ===== verification/Http.thy ===== *)
theory Http
  imports HttpCode ByteArrayIO
begin

text \<open>
  HTTP messages (\<^verbatim>\<open>src/http/HttpRequest.cpp\<close>), their encoding into byte arrays
  (\<^verbatim>\<open>HttpPackage\<close> in \<^verbatim>\<open>src/internal/http/HttpPackage.cpp\<close>) and the table of
  routes (\<^verbatim>\<open>src/internal/http/Route.cpp\<close>). Byte arrays are shared pointers: they are
  numbers of a list of arrays, the heap, and a null pointer is \<^term>\<open>None\<close>.
\<close>

type_synonym heap = "bytes list"

definition bytes_of :: "string \<Rightarrow> byte list" where
  "bytes_of s = map of_char s"

lemma bytes_of_simps [simp]: "bytes_of [] = []" "bytes_of (s @ t) = bytes_of s @ bytes_of t"
  by (simp_all add: bytes_of_def)

subsection \<open>Messages\<close>

record HttpBaseRequest =
  m_version :: ProtocolVersion
  m_header :: "(string, string) std_map"
  m_bodyBuffer :: "nat option"

record HttpRequest = HttpBaseRequest +
  m_method :: RequestMethod
  m_url :: string

record HttpResponse = HttpBaseRequest +
  m_statusCode :: StatusCode
  m_status :: string

definition newHttpRequest :: HttpRequest where
  "newHttpRequest = \<lparr>m_version = Http2_0, m_header = [], m_bodyBuffer = None, m_method = Get, m_url = []\<rparr>"

definition newHttpResponse :: HttpResponse where
  "newHttpResponse = \<lparr>m_version = Http2_0, m_header = [], m_bodyBuffer = None,
     m_statusCode = 200, m_status = getStatusAsString 200\<rparr>"

definition setHeader :: "(string, string) std_map \<Rightarrow> 'a HttpBaseRequest_scheme \<Rightarrow> 'a HttpBaseRequest_scheme" where
  "setHeader header r = r\<lparr>m_header := header\<rparr>"

definition addRawHeader :: "string \<Rightarrow> string \<Rightarrow> 'a HttpBaseRequest_scheme \<Rightarrow> 'a HttpBaseRequest_scheme" where
  "addRawHeader header value r = r\<lparr>m_header := map_emplace header value (m_header r)\<rparr>"

definition addHeader :: "KnownHeader \<Rightarrow> string \<Rightarrow> 'a HttpBaseRequest_scheme \<Rightarrow> 'a HttpBaseRequest_scheme" where
  "addHeader header value r = addRawHeader (getHeaderAsString header) value r"

definition getRawHeader :: "string \<Rightarrow> 'a HttpBaseRequest_scheme \<Rightarrow> string" where
  "getRawHeader header r = (case map_find header (m_header r) of Some v \<Rightarrow> v | None \<Rightarrow> [])"

definition getHeader :: "KnownHeader \<Rightarrow> 'a HttpBaseRequest_scheme \<Rightarrow> string" where
  "getHeader header r = getRawHeader (getHeaderAsString header) r"

definition hasRawHeader :: "string \<Rightarrow> 'a HttpBaseRequest_scheme \<Rightarrow> bool" where
  "hasRawHeader header r = (map_find header (m_header r) \<noteq> None)"

definition hasHeader :: "KnownHeader \<Rightarrow> 'a HttpBaseRequest_scheme \<Rightarrow> bool" where
  "hasHeader header r = hasRawHeader (getHeaderAsString header) r"

definition setBody :: "nat option \<Rightarrow> 'a HttpBaseRequest_scheme \<Rightarrow> 'a HttpBaseRequest_scheme" where
  "setBody body r = r\<lparr>m_bodyBuffer := body\<rparr>"

definition setStatus :: "StatusCode \<Rightarrow> HttpResponse \<Rightarrow> HttpResponse" where
  "setStatus code r = r\<lparr>m_statusCode := code, m_status := getStatusAsString code\<rparr>"

text \<open>A message keeps the first value that is added under each name and ignores every later one;
  names are compared byte for byte, and a known header is the header of its spelling only.\<close>

lemma first_header_stays:
  "(let r = fold (\<lambda>(k, v). addRawHeader k v) hs newHttpRequest in
     getRawHeader k r = (case map_of hs k of Some v \<Rightarrow> v | None \<Rightarrow> [])
   \<and> (hasRawHeader k r \<longleftrightarrow> k \<in> fst ` set hs)
   \<and> (hasHeader h (addHeader h' v newHttpRequest) \<longleftrightarrow> h = h'))"
proof -
  have "m_header (fold (\<lambda>(k, v). addRawHeader k v) hs r) = std_map.emplace_all hs (m_header r)" for r :: HttpRequest
    by (induction hs arbitrary: r) (auto simp: addRawHeader_def)
  then have "map_find k (m_header (fold (\<lambda>(k, v). addRawHeader k v) hs newHttpRequest)) = map_of hs k"
    by (simp add: newHttpRequest_def std_map.find_all_empty)
  then have find: "map_find k (m_header (fold (\<lambda>(k, v). addRawHeader k v) hs newHttpRequest)) = map_of hs k" .
  have "hasHeader h (addHeader h' v newHttpRequest) \<longleftrightarrow> h = h'"
    by (auto simp: hasHeader_def hasRawHeader_def addHeader_def addRawHeader_def newHttpRequest_def map_find_def header_string_inj)
  then show ?thesis by (simp add: getRawHeader_def hasRawHeader_def find map_of_keys)
qed

subsection \<open>Routes\<close>

text \<open>A handler is a number; \<^term>\<open>None\<close> is the empty function object.\<close>

type_synonym Route = "(string, nat) std_map"

definition addRoute :: "string \<Rightarrow> nat \<Rightarrow> Route \<Rightarrow> Route" where
  "addRoute route request m = map_emplace route request m"

definition findRequest :: "string \<Rightarrow> Route \<Rightarrow> nat option" where
  "findRequest route m = map_find route m"

interpretation routes: dictionary "[] :: Route" addRoute findRequest map_ok
  using std_map.dictionary_axioms by (simp add: addRoute_def [abs_def] findRequest_def [abs_def])

text \<open>The first handler that is added for a route handles it; an unknown route has none.\<close>

lemma first_route_handles:
  "findRequest route (fold (\<lambda>(k, v). addRoute k v) rs []) = map_of rs route"
  using routes.find_all_empty [of route rs] by (simp add: routes.emplace_all_def)

subsection \<open>\<^verbatim>\<open>HttpPackage\<close>\<close>

record HttpPackage =
  m_headerField :: "nat option"
  m_bodyField :: "nat option"

definition newHttpPackage :: HttpPackage where
  "newHttpPackage = \<lparr>m_headerField = None, m_bodyField = None\<rparr>"

text \<open>\<^verbatim>\<open>m_headerField->writeRaw\<close> and \<^verbatim>\<open>writeString\<close>.\<close>

definition put :: "HttpPackage \<Rightarrow> string \<Rightarrow> heap \<Rightarrow> heap option" where
  "put p s H = do {
     f \<leftarrow> m_headerField p;
     b \<leftarrow> nth_opt H f;
     b \<leftarrow> writeRaw (bytes_of s) b;
     Some (H[f := b])
   }"

definition CRLF :: string where
  "CRLF = [CHR 0x0D, CHR 0x0A]"

fun put_headers :: "HttpPackage \<Rightarrow> (string \<times> string) list \<Rightarrow> heap \<Rightarrow> heap option" where
  "put_headers p [] H = Some H"
| "put_headers p ((k, v) # hs) H = do {
     H \<leftarrow> put p k H;
     H \<leftarrow> put p v H;
     H \<leftarrow> put p CRLF H;
     put_headers p hs H
   }"

text \<open>The common end of both functions: headers, body and content length.\<close>

definition put_rest :: "HttpPackage \<Rightarrow> 'a HttpBaseRequest_scheme \<Rightarrow> heap \<Rightarrow> (HttpPackage \<times> heap) option" where
  "put_rest p r H = do {
     H \<leftarrow> put_headers p (m_header r) H;
     let p = p\<lparr>m_bodyField := m_bodyBuffer r\<rparr>;
     q \<leftarrow> m_bodyField p;
     body \<leftarrow> nth_opt H q;
     let contentLength = readableBytes body;
     H \<leftarrow> (if \<not> hasHeader ContentLength r \<and> contentLength \<noteq> 0
          then do { H \<leftarrow> put p (getHeaderAsString ContentLength) H; put p CRLF H } else Some H);
     H \<leftarrow> put p CRLF H;
     Some (p, H)
   }"

definition encode_request :: "HttpRequest \<Rightarrow> HttpPackage \<Rightarrow> heap \<Rightarrow> (HttpPackage \<times> heap) option" where
  "encode_request r p H = do {
     H \<leftarrow> put p (getMethodAsString (m_method r)) H;
     H \<leftarrow> put p '' '' H;
     let url = ''/'';
     H \<leftarrow> put p url H;
     H \<leftarrow> put p '' '' H;
     H \<leftarrow> put p (getHttpVersionAsString (m_version r)) H;
     H \<leftarrow> put p CRLF H;
     put_rest p r H
   }"

definition to_string :: "int \<Rightarrow> string" where
  "to_string n = (if n < 0 then CHR ''-'' # nat_digits (nat (- n)) else nat_digits (nat n))"

definition encode_response :: "HttpResponse \<Rightarrow> HttpPackage \<Rightarrow> heap \<Rightarrow> (HttpPackage \<times> heap) option" where
  "encode_response r p H = do {
     H \<leftarrow> put p (getHttpVersionAsString (m_version r)) H;
     H \<leftarrow> put p '' '' H;
     H \<leftarrow> put p (to_string (m_statusCode r)) H;
     H \<leftarrow> put p '' '' H;
     H \<leftarrow> put p (m_status r) H;
     H \<leftarrow> put p CRLF H;
     put_rest p r H
   }"

lemma put_rest_keeps: "put_rest p r H = Some (p', H') \<Longrightarrow> m_headerField p' = m_headerField p"
  by (auto simp: put_rest_def Let_def bind_eq_Some_conv split: if_splits)

text \<open>\<^verbatim>\<open>HttpPackage\<close> cannot encode anything: nothing ever gives it a header array, so every call
  of a new package follows a null pointer, and none makes it one that could.\<close>

lemma encode_never_returns:
  "encode_request q newHttpPackage H = None \<and> encode_response r newHttpPackage H = None
   \<and> (\<forall>p p' H'. encode_request q p H = Some (p', H') \<or> encode_response r p H = Some (p', H') \<longrightarrow>
        m_headerField p' = m_headerField p)"
  by (auto simp: encode_request_def encode_response_def newHttpPackage_def put_def [of "\<lparr>m_headerField = None, m_bodyField = None\<rparr>"]
      bind_eq_Some_conv Let_def dest: put_rest_keeps)

lemma encode_never_returns_witness: "encode_request newHttpRequest newHttpPackage [newByteArray] = None"
  using encode_never_returns by blast

subsection \<open>What an encoder with a header array would write\<close>

text \<open>The text of a message, and of its start line.\<close>

definition headers_text :: "nat \<Rightarrow> 'a HttpBaseRequest_scheme \<Rightarrow> string" where
  "headers_text len r = concat (map (\<lambda>(k, v). k @ v @ CRLF) (m_header r))
     @ (if \<not> hasHeader ContentLength r \<and> len \<noteq> 0 then getHeaderAsString ContentLength @ CRLF else []) @ CRLF"

definition request_line :: "HttpRequest \<Rightarrow> string" where
  "request_line r = getMethodAsString (m_method r) @ '' / '' @ getHttpVersionAsString (m_version r) @ CRLF"

definition status_line :: "HttpResponse \<Rightarrow> string" where
  "status_line r = getHttpVersionAsString (m_version r) @ '' '' @ to_string (m_statusCode r) @ '' '' @ m_status r @ CRLF"

text \<open>The arrays of the heap but the header array, and the state of that one.\<close>

definition wrote :: "nat \<Rightarrow> heap \<Rightarrow> string \<Rightarrow> heap \<Rightarrow> bool" where
  "wrote f H s H' \<longleftrightarrow> (\<exists>b. H' = H[f := b] \<and> ba_inv b \<and> contents b = contents (H ! f) @ bytes_of s)"

lemma wrote_refl: "f < length H \<Longrightarrow> ba_inv (H ! f) \<Longrightarrow> wrote f H [] H"
  by (auto simp: wrote_def intro!: exI [of _ "H ! f"])

lemma wrote_trans: "f < length H \<Longrightarrow> wrote f H s H' \<Longrightarrow> wrote f H' t H'' \<Longrightarrow> wrote f H (s @ t) H''"
  by (auto simp: wrote_def)

lemma wrote_inv: "f < length H \<Longrightarrow> wrote f H s H' \<Longrightarrow> f < length H' \<and> ba_inv (H' ! f)"
  by (auto simp: wrote_def)

lemma put_wrote:
  assumes "m_headerField p = Some f" "f < length H" "ba_inv (H ! f)"
  shows "\<exists>H'. put p s H = Some H' \<and> wrote f H s H'"
proof -
  obtain b where "writeRaw (bytes_of s) (H ! f) = Some b" "ba_inv b" "contents b = contents (H ! f) @ bytes_of s"
    using writeRaw_appends [OF assms(3)] by blast
  with assms show ?thesis by (auto simp: put_def wrote_def)
qed

lemma put_headers_wrote:
  "m_headerField p = Some f \<Longrightarrow> f < length H \<Longrightarrow> ba_inv (H ! f) \<Longrightarrow>
   \<exists>H'. put_headers p hs H = Some H' \<and> wrote f H (concat (map (\<lambda>(k, v). k @ v @ CRLF) hs)) H'"
proof (induction hs arbitrary: H)
  case Nil
  then show ?case by (simp add: wrote_refl)
next
  case (Cons h hs)
  obtain k v where h: "h = (k, v)" by (cases h)
  obtain H1 where H1: "put p k H = Some H1" "wrote f H k H1" using put_wrote Cons.prems by blast
  note i1 = wrote_inv [OF Cons.prems(2) H1(2)]
  obtain H2 where H2: "put p v H1 = Some H2" "wrote f H1 v H2" using put_wrote [OF Cons.prems(1)] i1 by blast
  note i2 = wrote_inv [OF _ H2(2)]
  obtain H3 where H3: "put p CRLF H2 = Some H3" "wrote f H2 CRLF H3" using put_wrote [OF Cons.prems(1)] i1 i2 by blast
  note i3 = wrote_inv [OF _ H3(2)]
  obtain H4 where "put_headers p hs H3 = Some H4" "wrote f H3 (concat (map (\<lambda>(k, v). k @ v @ CRLF) hs)) H4"
    using Cons.IH [OF Cons.prems(1), of H3] i1 i2 i3 by blast
  moreover from this(2) have "wrote f H (k @ v @ CRLF @ concat (map (\<lambda>(k, v). k @ v @ CRLF) hs)) H4"
    using H1(2) H2(2) H3(2) Cons.prems(2) i1 i2 by (metis wrote_trans)
  ultimately show ?case using H1(1) H2(1) H3(1) h by simp
qed


lemma put_rest_wrote:
  assumes "m_headerField p = Some f" "f < length H" "ba_inv (H ! f)"
    and "m_bodyBuffer r = Some q" "q < length H" "q \<noteq> f"
  shows "\<exists>H'. put_rest p r H = Some (p\<lparr>m_bodyField := Some q\<rparr>, H') \<and> wrote f H (headers_text (readableBytes (H ! q)) r) H'"
proof -
  let ?p = "p\<lparr>m_bodyField := Some q\<rparr>"
  let ?len = "if \<not> hasHeader ContentLength r \<and> readableBytes (H ! q) \<noteq> 0 then getHeaderAsString ContentLength @ CRLF else []"
  have p: "m_headerField ?p = Some f" using assms(1) by simp
  obtain H1 where H1: "put_headers p (m_header r) H = Some H1" "wrote f H (concat (map (\<lambda>(k, v). k @ v @ CRLF) (m_header r))) H1"
    using put_headers_wrote [OF assms(1-3)] by blast
  note i1 = wrote_inv [OF assms(2) H1(2)]
  have q: "nth_opt H1 q = Some (H ! q)" using H1(2) assms(5,6) by (auto simp: wrote_def)
  obtain H2 where H2: "(if \<not> hasHeader ContentLength r \<and> readableBytes (H ! q) \<noteq> 0
        then do { H \<leftarrow> put ?p (getHeaderAsString ContentLength) H1; put ?p CRLF H } else Some H1) = Some H2" "wrote f H1 ?len H2"
  proof (cases "\<not> hasHeader ContentLength r \<and> readableBytes (H ! q) \<noteq> 0")
    case True
    obtain A where A: "put ?p (getHeaderAsString ContentLength) H1 = Some A" "wrote f H1 (getHeaderAsString ContentLength) A"
      using put_wrote [OF p] i1 by blast
    obtain B where B: "put ?p CRLF A = Some B" "wrote f A CRLF B"
      using put_wrote [OF p] wrote_inv [OF _ A(2)] i1 by blast
    have "wrote f H1 (getHeaderAsString ContentLength @ CRLF) B" using wrote_trans [OF _ A(2) B(2)] i1 by blast
    with True A(1) B(1) show ?thesis using that by simp
  next
    case False
    then show ?thesis using that [of H1] wrote_refl i1 by auto
  qed
  note i2 = wrote_inv [OF _ H2(2)]
  obtain H3 where H3: "put ?p CRLF H2 = Some H3" "wrote f H2 CRLF H3" using put_wrote [OF p] i1 i2 by blast
  have "wrote f H (headers_text (readableBytes (H ! q)) r) H3"
    using wrote_trans [OF assms(2) wrote_trans [OF assms(2) H1(2) H2(2)] H3(2)] by (simp add: headers_text_def)
  then show ?thesis using H1(1) H2(1) H3(1) assms(4) q by (simp add: put_rest_def Let_def)
qed

text \<open>A writing step in front of the rest.\<close>

lemma put_then:
  assumes "m_headerField p = Some f" "f < length H" "ba_inv (H ! f)" "q < length H" "q \<noteq> f"
    and "\<And>H'. f < length H' \<Longrightarrow> ba_inv (H' ! f) \<Longrightarrow> q < length H' \<Longrightarrow> H' ! q = H ! q \<Longrightarrow>
       \<exists>H''. g H' = Some (p', H'') \<and> wrote f H' t H''"
  shows "\<exists>H''. put p s H \<bind> g = Some (p', H'') \<and> wrote f H (s @ t) H''"
proof -
  obtain H' where H': "put p s H = Some H'" "wrote f H s H'" using put_wrote [OF assms(1-3)] by blast
  have "q < length H'" "H' ! q = H ! q" using H'(2) assms(4,5) by (auto simp: wrote_def)
  then obtain H'' where "g H' = Some (p', H'')" "wrote f H' t H''"
    using assms(6) wrote_inv [OF assms(2) H'(2)] by blast
  with H' show ?thesis using wrote_trans [OF assms(2)] by fastforce
qed

lemma encode_request_wrote:
  assumes "m_headerField p = Some f" "f < length H" "ba_inv (H ! f)"
    and "m_bodyBuffer r = Some q" "q < length H" "q \<noteq> f"
  shows "\<exists>H'. encode_request r p H = Some (p\<lparr>m_bodyField := Some q\<rparr>, H')
     \<and> wrote f H (request_line r @ headers_text (readableBytes (H ! q)) r) H'"
proof -
  note step = put_then [OF assms(1) _ _ _ assms(6)]
  have rest: "\<exists>H''. put_rest p r H' = Some (p\<lparr>m_bodyField := Some q\<rparr>, H'')
      \<and> wrote f H' (headers_text (readableBytes (H ! q)) r) H''"
    if "f < length H'" "ba_inv (H' ! f)" "q < length H'" "H' ! q = H ! q" for H'
    using put_rest_wrote [OF assms(1) that(1,2) assms(4) that(3) assms(6)] that(4) by simp
  have "\<exists>H'. encode_request r p H = Some (p\<lparr>m_bodyField := Some q\<rparr>, H') \<and> wrote f H (getMethodAsString (m_method r)
      @ '' '' @ ''/'' @ '' '' @ getHttpVersionAsString (m_version r) @ CRLF @ headers_text (readableBytes (H ! q)) r) H'"
    unfolding encode_request_def Let_def
    by (intro step rest assms(2,3,5)) simp_all
  then show ?thesis by (simp add: request_line_def)
qed


lemma encode_response_wrote:
  assumes "m_headerField p = Some f" "f < length H" "ba_inv (H ! f)"
    and "m_bodyBuffer r = Some q" "q < length H" "q \<noteq> f"
  shows "\<exists>H'. encode_response r p H = Some (p\<lparr>m_bodyField := Some q\<rparr>, H')
     \<and> wrote f H (status_line r @ headers_text (readableBytes (H ! q)) r) H'"
proof -
  note step = put_then [OF assms(1) _ _ _ assms(6)]
  have rest: "\<exists>H''. put_rest p r H' = Some (p\<lparr>m_bodyField := Some q\<rparr>, H'')
      \<and> wrote f H' (headers_text (readableBytes (H ! q)) r) H''"
    if "f < length H'" "ba_inv (H' ! f)" "q < length H'" "H' ! q = H ! q" for H'
    using put_rest_wrote [OF assms(1) that(1,2) assms(4) that(3) assms(6)] that(4) by simp
  have "\<exists>H'. encode_response r p H = Some (p\<lparr>m_bodyField := Some q\<rparr>, H') \<and> wrote f H (getHttpVersionAsString (m_version r)
      @ '' '' @ to_string (m_statusCode r) @ '' '' @ m_status r @ CRLF @ headers_text (readableBytes (H ! q)) r) H'"
    unfolding encode_response_def
    by (intro step rest assms(2,3,5)) simp_all
  then show ?thesis by (simp add: status_line_def)
qed

text \<open>With a header array and a body, encoding appends to the array exactly the start line, the headers in
  the order of their names and an empty line, and changes no other array: a request is always for the path \<^verbatim>\<open>/\<close>, a
  header's name and value are not separated, and the content length is announced without its value.\<close>

theorem encode_appends_text:
  assumes "m_headerField p = Some f" "f < length H" "ba_inv (H ! f)" "q < length H" "q \<noteq> f"
    and "m_bodyBuffer x = Some q" "m_bodyBuffer y = Some q"
  shows "(\<exists>b. encode_request x p H = Some (p\<lparr>m_bodyField := Some q\<rparr>, H[f := b]) \<and> ba_inv b
      \<and> contents b = contents (H ! f) @ bytes_of (request_line x @ headers_text (readableBytes (H ! q)) x))
   \<and> (\<exists>b. encode_response y p H = Some (p\<lparr>m_bodyField := Some q\<rparr>, H[f := b]) \<and> ba_inv b
      \<and> contents b = contents (H ! f) @ bytes_of (status_line y @ headers_text (readableBytes (H ! q)) y))"
  using encode_request_wrote [OF assms(1-3,6,4,5)] encode_response_wrote [OF assms(1-3,7,4,5)]
  unfolding wrote_def by blast

lemma encode_appends_text_witness:
  "\<exists>b. encode_request (newHttpRequest\<lparr>m_header := [(''Host'', ''a'')], m_bodyBuffer := Some 1\<rparr>) \<lparr>m_headerField = Some 0, m_bodyField = None\<rparr>
       [newByteArray, newByteArray] = Some (\<lparr>m_headerField = Some 0, m_bodyField = Some 1\<rparr>, [b, newByteArray])
     \<and> contents b = bytes_of (''GET / HTTP2.0'' @ CRLF @ ''Hosta'' @ CRLF @ CRLF)"
proof -
  have "readableBytes newByteArray = 0" by (simp add: readableBytes_def newByteArray_def)
  then show ?thesis
    using encode_appends_text [of "\<lparr>m_headerField = Some 0, m_bodyField = None\<rparr>" 0 "[newByteArray, newByteArray]" 1
        "newHttpRequest\<lparr>m_header := [(''Host'', ''a'')], m_bodyBuffer := Some 1\<rparr>" "newHttpResponse\<lparr>m_bodyBuffer := Some 1\<rparr>"]
    by (auto simp: request_line_def headers_text_def newHttpRequest_def newHttpResponse_def)
qed

text \<open>Because nothing separates a header's name from its value, different messages have the same
  encoding: a character can move from the end of the name to the front of the value.\<close>

lemma headers_ambiguous:
  assumes "k @ x \<noteq> ''Content-Length''" "k \<noteq> ''Content-Length''"
  shows "headers_text n (r\<lparr>m_header := [(k @ x, v)]\<rparr>) = headers_text n (r\<lparr>m_header := [(k, x @ v)]\<rparr>)"
  using assms by (simp add: headers_text_def hasHeader_def hasRawHeader_def map_find_def)

end
