(* ===== verification/HttpParser.thy ===== *)
theory HttpParser
  imports Http SocketIO
begin

text \<open>
  Decoding HTTP messages (\<^verbatim>\<open>HttpParser\<close> and \<^verbatim>\<open>DecoderImpl\<close> in
  \<^verbatim>\<open>src/internal/http/HttpPackage.cpp\<close>) and the channel that holds their bytes
  (\<^verbatim>\<open>src/internal/http/channel/\<close>). The parser library llhttp is not part of the
  repository: it is the argument \<open>exec\<close>, which gives for the bytes handed to a freshly
  reset parser the callbacks that it runs, its result and the fields of its state that the
  decoder reads; \<open>error_pos\<close> is an offset from the first byte, \<^term>\<open>None\<close> for the
  null pointer. Callbacks that the decoder ignores are left out.
\<close>

datatype (plugins only: code size) llhttp_errno = HPE_OK | HPE_PAUSED_UPGRADE | HPE_INVALID_METHOD | HPE_INVALID_URL
  | HPE_INVALID_CONSTANT | HPE_INVALID_VERSION | HPE_INVALID_HEADER_TOKEN | HPE_INVALID_CONTENT_LENGTH
  | HPE_INVALID_CHUNK_SIZE | HPE_INVALID_STATUS | HPE_INVALID_EOF_STATE | HPE_INVALID_TRANSFER_ENCODING
  | HPE_OTHER nat

datatype ll_callback = OnUrl string | OnHeaderField string | OnHeaderValue string

datatype (plugins only: code size) llhttp_method = HTTP_DELETE | HTTP_GET | HTTP_HEAD | HTTP_POST | HTTP_PUT
  | HTTP_CONNECT | HTTP_OPTIONS | HTTP_TRACE | HTTP_PATCH | HTTP_OTHER nat

record llhttp =
  ll_errno :: llhttp_errno
  ll_callbacks :: "ll_callback list"
  ll_status_code :: int
  ll_http_major :: nat
  ll_http_minor :: nat
  ll_method :: llhttp_method
  ll_error_pos :: "int option"

subsection \<open>\<^verbatim>\<open>DecoderImpl\<close>\<close>

record DecoderImpl =
  headerField :: string
  d_method :: RequestMethod
  d_statusCode :: StatusCode
  d_url :: string
  d_version :: ProtocolVersion
  d_header :: "(string, string) std_map"

definition resetParse :: DecoderImpl where
  "resetParse = \<lparr>headerField = [], d_method = UnknownHeader, d_statusCode = 200, d_url = [],
     d_version = UnkownProtocol, d_header = []\<rparr>"

fun on_callback :: "ll_callback \<Rightarrow> DecoderImpl \<Rightarrow> DecoderImpl" where
  "on_callback (OnUrl s) d = d\<lparr>d_url := s\<rparr>"
| "on_callback (OnHeaderField s) d = d\<lparr>headerField := s\<rparr>"
| "on_callback (OnHeaderValue s) d = d\<lparr>d_header := map_emplace (headerField d) s (d_header d)\<rparr>"

definition getCodeAndProtocolVersion :: "llhttp \<Rightarrow> DecoderImpl \<Rightarrow> DecoderImpl" where
  "getCodeAndProtocolVersion r d =
     (let d = d\<lparr>d_statusCode := ll_status_code r, d_version := getHttpVersion (ll_http_major r) (ll_http_minor r)\<rparr> in
      case ll_method r of
        HTTP_DELETE \<Rightarrow> d\<lparr>d_method := Delete\<rparr>
      | HTTP_GET \<Rightarrow> d\<lparr>d_method := Get\<rparr>
      | HTTP_HEAD \<Rightarrow> d\<lparr>d_method := Head\<rparr>
      | HTTP_POST \<Rightarrow> d\<lparr>d_method := Post\<rparr>
      | HTTP_PUT \<Rightarrow> d\<lparr>d_method := Put\<rparr>
      | HTTP_CONNECT \<Rightarrow> d\<lparr>d_method := Connect\<rparr>
      | HTTP_OPTIONS \<Rightarrow> d\<lparr>d_method := Options\<rparr>
      | HTTP_TRACE \<Rightarrow> d\<lparr>d_method := Trace\<rparr>
      | HTTP_PATCH \<Rightarrow> d\<lparr>d_method := Patch\<rparr>
      | HTTP_OTHER _ \<Rightarrow> d)"

text \<open>A null \<^verbatim>\<open>error_pos\<close> lies before every buffer, so the difference is negative.\<close>

definition setByteArrayLength :: "llhttp \<Rightarrow> nat \<Rightarrow> bytes \<Rightarrow> bytes option" where
  "setByteArrayLength r len b = (case ll_error_pos r of
     None \<Rightarrow> Some b
   | Some parsedLength \<Rightarrow>
       if 0 < parsedLength \<and> nat parsedLength < len then reader_adjust (nat parsedLength) b else Some b)"

definition is_parsed :: "llhttp_errno \<Rightarrow> bool" where
  "is_parsed e \<longleftrightarrow> e = HPE_OK \<or> e = HPE_PAUSED_UPGRADE"

definition is_syntax_error :: "llhttp_errno \<Rightarrow> bool" where
  "is_syntax_error e \<longleftrightarrow> e \<in> {HPE_INVALID_METHOD, HPE_INVALID_URL, HPE_INVALID_CONSTANT, HPE_INVALID_VERSION,
     HPE_INVALID_HEADER_TOKEN, HPE_INVALID_CONTENT_LENGTH, HPE_INVALID_CHUNK_SIZE, HPE_INVALID_STATUS,
     HPE_INVALID_EOF_STATE, HPE_INVALID_TRANSFER_ENCODING}"

text \<open>The loop of the default branch: the first \<open>i\<close> blocks are copied into one buffer and parsed
  again; \<open>i\<close> is a \<^verbatim>\<open>std::size_t\<close>, and the subtraction in the comparison wraps
  around. \<open>blocks\<close> are the bytes of the memory blocks.\<close>

partial_function (option) copy_loop :: "(byte list \<Rightarrow> llhttp) \<Rightarrow> byte list list \<Rightarrow> nat \<Rightarrow> bool \<Rightarrow> DecoderImpl \<Rightarrow> bytes
    \<Rightarrow> (bool \<times> DecoderImpl \<times> bytes) option" where
  "copy_loop exec blocks i success d b =
     (if length blocks < i then Some (success, d, b)
      else let i = (if sub64 i (length blocks) < i * 2 mod 2 ^ 64 then length blocks else i);
               buffer = concat (take i blocks);
               r = exec buffer;
               d = fold on_callback (ll_callbacks r) d
           in if ll_errno r = HPE_PAUSED_UPGRADE then do {
                let d = getCodeAndProtocolVersion r d;
                b \<leftarrow> setByteArrayLength r (length buffer) b;
                copy_loop exec blocks (i * 2 mod 2 ^ 64) True d b
              }
              else copy_loop exec blocks (i * 2 mod 2 ^ 64) success d b)"

definition parse :: "(byte list \<Rightarrow> llhttp) \<Rightarrow> DecoderImpl \<Rightarrow> bytes \<Rightarrow> (bool \<times> DecoderImpl \<times> bytes) option" where
  "parse exec d b = do {
     vec \<leftarrow> reader_vec b;
     blocks \<leftarrow> those (map (\<lambda>v. gather [b] [v]) vec);
     case blocks of
       [] \<Rightarrow> Some (False, d, b)
     | first # _ \<Rightarrow>
         let r = exec first;
             d = fold on_callback (ll_callbacks r) d
         in if is_parsed (ll_errno r) then do {
              let d = getCodeAndProtocolVersion r d;
              b \<leftarrow> setByteArrayLength r (length first) b;
              Some (True, d, b)
            }
            else if is_syntax_error (ll_errno r) then Some (False, d, b)
            else copy_loop exec blocks 0 False d b
   }"

definition decodedRequest :: "DecoderImpl \<Rightarrow> HttpRequest" where
  "decodedRequest d = setHeader (d_header d) (newHttpRequest\<lparr>m_method := d_method d, m_url := d_url d, m_version := d_version d\<rparr>)"

definition decodedResponse :: "DecoderImpl \<Rightarrow> HttpResponse" where
  "decodedResponse d = setHeader (d_header d) ((setStatus (d_statusCode d) newHttpResponse)\<lparr>m_version := d_version d\<rparr>)"

subsection \<open>\<^verbatim>\<open>HttpParser\<close>\<close>

text \<open>The array number \<open>a\<close> of the heap is parsed; \<^verbatim>\<open>make_shared<ByteArray>()\<close> adds one.\<close>

definition body_for :: "nat \<Rightarrow> 'r HttpBaseRequest_scheme \<Rightarrow> heap \<Rightarrow> 'r HttpBaseRequest_scheme \<times> heap" where
  "body_for a r H =
     (if hasHeader ContentLength r then (setBody (Some a) r, H)
      else (setBody (Some (length H)) r, H @ [newByteArray]))"

definition decodeRequest :: "(byte list \<Rightarrow> llhttp) \<Rightarrow> nat \<Rightarrow> heap \<Rightarrow> (HttpRequest option \<times> heap) option" where
  "decodeRequest exec a H = do {
     b \<leftarrow> nth_opt H a;
     (parsed, d, b) \<leftarrow> parse exec resetParse b;
     let H = H[a := b];
     if parsed then let (r, H) = body_for a (decodedRequest d) H in Some (Some r, H)
     else Some (None, H)
   }"

definition decodeResponse :: "(byte list \<Rightarrow> llhttp) \<Rightarrow> nat \<Rightarrow> heap \<Rightarrow> (HttpResponse option \<times> heap) option" where
  "decodeResponse exec a H = do {
     b \<leftarrow> nth_opt H a;
     (parsed, d, b) \<leftarrow> parse exec resetParse b;
     let H = H[a := b];
     if parsed then let (r, H) = body_for a (decodedResponse d) H in Some (Some r, H)
     else Some (None, H)
   }"

subsection \<open>\<^verbatim>\<open>HttpChannel\<close>\<close>

record HttpChannel =
  m_receiveArray :: nat
  m_sendHeaderArray :: "nat option"
  m_sendBodyArray :: "nat option"

definition newHttpChannel :: "heap \<Rightarrow> HttpChannel \<times> heap" where
  "newHttpChannel H = (\<lparr>m_receiveArray = length H, m_sendHeaderArray = None, m_sendBodyArray = None\<rparr>, H @ [newByteArray])"

definition retrieveRequest :: "(byte list \<Rightarrow> llhttp) \<Rightarrow> HttpChannel \<Rightarrow> heap \<Rightarrow> (HttpRequest option \<times> heap) option" where
  "retrieveRequest exec c H = decodeRequest exec (m_receiveArray c) H"

definition retrieveResponse :: "(byte list \<Rightarrow> llhttp) \<Rightarrow> HttpChannel \<Rightarrow> heap \<Rightarrow> (HttpResponse option \<times> heap) option" where
  "retrieveResponse exec c H = decodeResponse exec (m_receiveArray c) H"

text \<open>The blocks that \<^verbatim>\<open>HttpChannelConversion\<close> gives for sending and for receiving.\<close>

definition http_readBufferConvert :: "HttpChannel \<Rightarrow> heap \<Rightarrow> iovec list option" where
  "http_readBufferConvert c H = do { b \<leftarrow> nth_opt H (m_receiveArray c); reader_vec b }"

definition http_writeBufferConvert :: "HttpChannel \<Rightarrow> heap \<Rightarrow> iovec list option" where
  "http_writeBufferConvert c H = do {
     h \<leftarrow> m_sendHeaderArray c;
     hb \<leftarrow> nth_opt H h;
     s \<leftarrow> m_sendBodyArray c;
     sb \<leftarrow> nth_opt H s;
     seq_vec [hb, sb]
   }"


subsection \<open>Blocks of a byte array\<close>

text \<open>The bytes of the node where reading starts: the first memory block, unless the node is empty.\<close>

definition first_block :: "bytes \<Rightarrow> byte list" where
  "first_block b = node_data (m_nodes b ! m_readNode b)"

lemma those_blocks:
  assumes "\<And>i. i \<in> set is \<Longrightarrow> i < length (m_nodes b) \<and> node_ok (m_nodes b ! i)"
  shows "those (map (\<lambda>v. gather [b] [v]) (concat (map (node_iov 0 b) is)))
     = Some (filter (\<lambda>d. d \<noteq> []) (map (\<lambda>i. node_data (m_nodes b ! i)) is))"
  using assms
proof (induction "is")
  case (Cons i "is")
  have g: "gather [b] (node_iov 0 b i) = Some (node_data (m_nodes b ! i))"
    using gather_node_iov [of 0 "[b]" i] Cons.prems by simp
  have ne: "node_data (m_nodes b ! i) = [] \<longleftrightarrow> node_start (m_nodes b ! i) = node_end (m_nodes b ! i)"
  proof -
    have ok: "node_ok (m_nodes b ! i)" using Cons.prems by simp
    then have "node_start (m_nodes b ! i) \<le> node_end (m_nodes b ! i)" by (simp add: node_ok_def)
    then show ?thesis using length_node_data [OF ok] by (auto simp flip: length_0_conv)
  qed
  show ?case
    using Cons g ne by (cases "node_start (m_nodes b ! i) = node_end (m_nodes b ! i)") (simp_all add: node_iov_def Let_def)
qed simp

lemma parse_blocks:
  assumes "ba_inv b" "first_block b \<noteq> []"
  shows "\<exists>vec ds. reader_vec b = Some vec \<and> those (map (\<lambda>v. gather [b] [v]) vec) = Some (first_block b # ds)"
proof -
  have shape: "ba_shape b" using assms(1) by (simp add: ba_inv_def)
  note D = ba_shapeD [OF shape]
  obtain e where e: "endOfReadNode b = Some e"
    "e = m_writeNode b + 1 \<or> e = m_writeNode b \<and> node_end (m_nodes b ! m_writeNode b) = 0"
    using endOfReadNode_shape [OF shape] by blast
  have "m_readNode b < e"
  proof (rule ccontr)
    assume "\<not> m_readNode b < e"
    then have "m_readNode b = m_writeNode b" "node_end (m_nodes b ! m_readNode b) = 0" using e(2) D(1) by auto
    with assms(2) D(3,4) show False by (simp add: first_block_def node_data_def)
  qed
  moreover have le: "e \<le> length (m_nodes b)" using e(2) D by auto
  ultimately have u: "[m_readNode b..<e] = m_readNode b # [Suc (m_readNode b)..<e]" by (simp add: upt_conv_Cons)
  have r: "reader_loop 0 b (m_readNode b) e = Some (concat (map (node_iov 0 b) [m_readNode b..<e]))"
    using le D(4) by (intro reader_loop_eq) auto
  have "length (concat (map (node_iov 0 b) is)) \<le> length is" for "is"
    by (induction "is") (auto simp: node_iov_def Let_def)
  then have "length (concat (map (node_iov 0 b) [m_readNode b..<e])) \<le> e - m_readNode b" by (metis length_upt)
  then have "reader_vec b = Some (concat (map (node_iov 0 b) [m_readNode b..<e]))"
    using e(1) r \<open>m_readNode b < e\<close> by (simp add: reader_vec_def)
  moreover have "those (map (\<lambda>v. gather [b] [v]) (concat (map (node_iov 0 b) [m_readNode b..<e])))
     = Some (filter (\<lambda>d. d \<noteq> []) (map (\<lambda>i. node_data (m_nodes b ! i)) [m_readNode b..<e]))"
    using le D(4) by (intro those_blocks) auto
  ultimately show ?thesis using assms(2) by (simp add: u first_block_def)
qed

subsection \<open>The default branch\<close>

lemma copy_loop_stuck:
  assumes "blocks \<noteq> []"
  shows "copy_loop exec blocks 0 success d b = None"
proof -
  have ne: "copy_loop exec bs i success d b = Some res \<Longrightarrow> bs = blocks \<longrightarrow> i \<noteq> 0" for bs i success d b res
  proof (erule copy_loop.raw_induct [of "\<lambda>e bs i s d b r. bs = blocks \<longrightarrow> i \<noteq> 0", rotated], intro impI notI)
    fix f :: "(byte list \<Rightarrow> llhttp) \<Rightarrow> byte list list \<Rightarrow> nat \<Rightarrow> bool \<Rightarrow> DecoderImpl \<Rightarrow> bytes \<Rightarrow> (bool \<times> DecoderImpl \<times> bytes) option"
      and exec bs i success d b res
    assume IH: "\<And>exec bs i success d b r. f exec bs i success d b = Some r \<Longrightarrow> bs = blocks \<longrightarrow> i \<noteq> 0"
      and step: "(if length bs < i then Some (success, d, b)
          else let i = (if sub64 i (length bs) < i * 2 mod 2 ^ 64 then length bs else i);
                   buffer = concat (take i bs);
                   r = exec buffer;
                   d = fold on_callback (ll_callbacks r) d
               in if ll_errno r = HPE_PAUSED_UPGRADE then do {
                    let d = getCodeAndProtocolVersion r d;
                    b \<leftarrow> setByteArrayLength r (length buffer) b;
                    f exec bs (i * 2 mod 2 ^ 64) True d b
                  }
                  else f exec bs (i * 2 mod 2 ^ 64) success d b) = Some res"
      and start: "bs = blocks" "i = 0"
    have "f exec blocks 0 s d b \<noteq> Some r" for exec s d b r using IH by blast
    with step start show False by (auto simp: Let_def bind_eq_Some_conv split: if_splits)
  qed
  show ?thesis
  proof (cases "copy_loop exec blocks 0 success d b")
    case (Some res)
    from ne [OF this] show ?thesis by simp
  qed
qed

lemma parse_first:
  assumes "ba_inv b" "first_block b \<noteq> []"
  obtains ds where "parse exec d b = (let r = exec (first_block b); d = fold on_callback (ll_callbacks r) d in
     if is_parsed (ll_errno r) then do {
       let d = getCodeAndProtocolVersion r d;
       b \<leftarrow> setByteArrayLength r (length (first_block b)) b;
       Some (True, d, b)
     }
     else if is_syntax_error (ll_errno r) then Some (False, d, b)
     else copy_loop exec (first_block b # ds) 0 False d b)"
  using parse_blocks [OF assms] by (auto simp: parse_def)

text \<open>C29. The default branch, meant to copy all the blocks and parse again, never returns: its index starts at
  0 and is only ever doubled. Any result of llhttp that the \<^verbatim>\<open>switch\<close> does not
  name, which the peer can provoke, blocks the decoder for ever.\<close>

theorem unnamed_error_never_returns:
  assumes "a < length H" "ba_inv (H ! a)" "first_block (H ! a) \<noteq> []" "ll_errno (exec (first_block (H ! a))) = HPE_OTHER n"
  shows "decodeRequest exec a H = None \<and> decodeResponse exec a H = None"
proof -
  obtain ds where "parse exec resetParse (H ! a) = (let r = exec (first_block (H ! a)); d = fold on_callback (ll_callbacks r) resetParse in
     if is_parsed (ll_errno r) then do {
       let d = getCodeAndProtocolVersion r d;
       b \<leftarrow> setByteArrayLength r (length (first_block (H ! a))) (H ! a);
       Some (True, d, b)
     }
     else if is_syntax_error (ll_errno r) then Some (False, d, H ! a)
     else copy_loop exec (first_block (H ! a) # ds) 0 False d (H ! a))"
    by (rule parse_first [OF assms(2,3)])
  then have "parse exec resetParse (H ! a) = None"
    using assms(4) by (simp add: is_parsed_def is_syntax_error_def copy_loop_stuck)
  then show ?thesis using assms(1) by (simp add: decodeRequest_def decodeResponse_def)
qed


subsection \<open>Decoded messages\<close>

text \<open>The name/value pairs that the callbacks report, in order, and the last path.\<close>

fun header_pairs :: "string \<Rightarrow> ll_callback list \<Rightarrow> (string \<times> string) list" where
  "header_pairs f [] = []"
| "header_pairs f (OnUrl s # cs) = header_pairs f cs"
| "header_pairs f (OnHeaderField s # cs) = header_pairs s cs"
| "header_pairs f (OnHeaderValue s # cs) = (f, s) # header_pairs f cs"

fun last_url :: "string \<Rightarrow> ll_callback list \<Rightarrow> string" where
  "last_url u [] = u"
| "last_url u (OnUrl s # cs) = last_url s cs"
| "last_url u (_ # cs) = last_url u cs"

lemma fold_callbacks:
  "d_header (fold on_callback cs d) = std_map.emplace_all (header_pairs (headerField d) cs) (d_header d)
   \<and> d_url (fold on_callback cs d) = last_url (d_url d) cs \<and> d_method (fold on_callback cs d) = d_method d"
proof (induction cs arbitrary: d)
  case (Cons c cs)
  then show ?case by (cases c) simp_all
qed simp

lemma decoded_fields [simp]:
  "m_header (decodedRequest d) = d_header d" "m_url (decodedRequest d) = d_url d" "m_method (decodedRequest d) = d_method d"
  "m_version (decodedRequest d) = d_version d" "m_header (decodedResponse d) = d_header d"
  "m_statusCode (decodedResponse d) = d_statusCode d" "m_status (decodedResponse d) = getStatusAsString (d_statusCode d)"
  by (simp_all add: decodedRequest_def decodedResponse_def setHeader_def setStatus_def)

lemma code_fields [simp]:
  "d_header (getCodeAndProtocolVersion r d) = d_header d" "d_url (getCodeAndProtocolVersion r d) = d_url d"
  "d_version (getCodeAndProtocolVersion r d) = getHttpVersion (ll_http_major r) (ll_http_minor r)"
  "d_statusCode (getCodeAndProtocolVersion r d) = ll_status_code r"
  by (simp_all add: getCodeAndProtocolVersion_def Let_def split: llhttp_method.split)

text \<open>How many bytes of the first block the decoder takes out of the array.\<close>

definition consumed :: "llhttp \<Rightarrow> byte list \<Rightarrow> nat" where
  "consumed r d = (case ll_error_pos r of None \<Rightarrow> 0 | Some k \<Rightarrow> if 0 < k \<and> nat k < length d then nat k else 0)"

lemma setByteArrayLength_consumed:
  assumes "ba_inv b" "first_block b \<noteq> []"
  shows "\<exists>b'. setByteArrayLength r (length (first_block b)) b = Some b' \<and> ba_inv b'
     \<and> contents b' = drop (consumed r (first_block b)) (contents b) \<and> (consumed r (first_block b) = 0 \<longrightarrow> b' = b)"
proof (cases "consumed r (first_block b) = 0")
  case True
  then have "setByteArrayLength r (length (first_block b)) b = Some b"
    by (auto simp: consumed_def setByteArrayLength_def split: option.splits if_splits)
  with True assms(1) show ?thesis by simp
next
  case False
  then obtain k where k: "ll_error_pos r = Some k" "0 < k" "nat k < length (first_block b)"
    by (auto simp: consumed_def split: option.splits if_splits)
  have shape: "ba_shape b" using assms(1) by (simp add: ba_inv_def)
  have ok: "node_ok (m_nodes b ! m_readNode b)" using ba_shapeD(3,4) [OF shape] by blast
  then have "nat k < BufferNodeSize" "nat k \<le> node_end (m_nodes b ! m_readNode b) - node_start (m_nodes b ! m_readNode b)"
    using k(3) length_node_data [OF ok] by (auto simp: first_block_def node_ok_def)
  then have "adjustable (nat k) b" by (simp add: adjustable_def Let_def)
  from reader_adjust_drop [OF assms(1) this] k show ?thesis
    by (auto simp: setByteArrayLength_def consumed_def)
qed

lemma parse_done:
  assumes "ba_inv b" "first_block b \<noteq> []" "is_parsed (ll_errno (exec (first_block b)))"
  shows "\<exists>b'. parse exec d b = Some (True, getCodeAndProtocolVersion (exec (first_block b))
       (fold on_callback (ll_callbacks (exec (first_block b))) d), b') \<and> ba_inv b'
     \<and> contents b' = drop (consumed (exec (first_block b)) (first_block b)) (contents b)
     \<and> (consumed (exec (first_block b)) (first_block b) = 0 \<longrightarrow> b' = b)"
proof -
  obtain b' where b': "setByteArrayLength (exec (first_block b)) (length (first_block b)) b = Some b'" "ba_inv b'"
      "contents b' = drop (consumed (exec (first_block b)) (first_block b)) (contents b)"
      "consumed (exec (first_block b)) (first_block b) = 0 \<longrightarrow> b' = b"
    using setByteArrayLength_consumed [OF assms(1,2)] by blast
  obtain ds where "parse exec d b = (let r = exec (first_block b); d = fold on_callback (ll_callbacks r) d in
     if is_parsed (ll_errno r) then do {
       let d = getCodeAndProtocolVersion r d;
       b \<leftarrow> setByteArrayLength r (length (first_block b)) b;
       Some (True, d, b)
     }
     else if is_syntax_error (ll_errno r) then Some (False, d, b)
     else copy_loop exec (first_block b # ds) 0 False d b)"
    by (rule parse_first [OF assms(1,2)])
  with assms(3) b' show ?thesis by (simp add: Let_def)
qed

text \<open>C28. A decoded request has the last path and, for each name, the first value that the parser reported; its body is
  the receive array itself when there is a header spelled \<^verbatim>\<open>Content-Length\<close> and a new
  empty array otherwise; the array loses the bytes up to the parser's position, if that lies inside the first
  block, and else none.\<close>

theorem decoded_request:
  assumes "a < length H" "ba_inv (H ! a)" "first_block (H ! a) \<noteq> []" "exec (first_block (H ! a)) = r" "is_parsed (ll_errno r)"
  shows "\<exists>q b. decodeRequest exec a H = Some (Some q,
        if ''Content-Length'' \<in> fst ` set (header_pairs [] (ll_callbacks r)) then H[a := b] else H[a := b] @ [newByteArray])
     \<and> m_url q = last_url [] (ll_callbacks r) \<and> m_version q = getHttpVersion (ll_http_major r) (ll_http_minor r)
     \<and> (\<forall>k. map_find k (m_header q) = map_of (header_pairs [] (ll_callbacks r)) k)
     \<and> m_bodyBuffer q = Some (if ''Content-Length'' \<in> fst ` set (header_pairs [] (ll_callbacks r)) then a else length H)
     \<and> ba_inv b \<and> contents b = drop (consumed r (first_block (H ! a))) (contents (H ! a))"
proof -
  let ?d = "getCodeAndProtocolVersion r (fold on_callback (ll_callbacks r) resetParse)"
  obtain b where b: "parse exec resetParse (H ! a) = Some (True, ?d, b)" "ba_inv b"
      "contents b = drop (consumed r (first_block (H ! a))) (contents (H ! a))"
    using parse_done [OF assms(2,3)] assms(4,5) by blast
  have header: "map_find k (d_header ?d) = map_of (header_pairs [] (ll_callbacks r)) k" for k
    by (simp add: fold_callbacks resetParse_def std_map.find_all_empty)
  have "hasHeader ContentLength (decodedRequest ?d) \<longleftrightarrow> ''Content-Length'' \<in> fst ` set (header_pairs [] (ll_callbacks r))"
    using header [of "''Content-Length''"] by (simp add: hasHeader_def hasRawHeader_def map_of_keys)
  then show ?thesis
    using assms(1) b header
    by (auto simp: decodeRequest_def body_for_def setBody_def fold_callbacks resetParse_def split_beta)
qed


text \<open>When llhttp has consumed the whole first block without an end of the headers, or finds their end exactly where
  the block ends, a request is delivered and not a byte of it is taken out of the array: the
  same request is delivered again, and again.\<close>

lemma request_delivered_again:
  assumes "a < length H" "ba_inv (H ! a)" "first_block (H ! a) \<noteq> []" "exec (first_block (H ! a)) = r"
    and "ll_errno r = HPE_OK \<and> ll_error_pos r = None
       \<or> ll_errno r = HPE_PAUSED_UPGRADE \<and> ll_error_pos r = Some (int (length (first_block (H ! a))))"
  shows "\<exists>q H' q' H''. decodeRequest exec a H = Some (Some q, H') \<and> H' ! a = H ! a
     \<and> decodeRequest exec a H' = Some (Some q', H'') \<and> H'' ! a = H ! a
     \<and> q' = q\<lparr>m_bodyBuffer := m_bodyBuffer q'\<rparr>"
proof -
  let ?d = "getCodeAndProtocolVersion r (fold on_callback (ll_callbacks r) resetParse)"
  have "is_parsed (ll_errno r)" "consumed r (first_block (H ! a)) = 0"
    using assms(5) by (auto simp: is_parsed_def consumed_def)
  then have p: "parse exec resetParse (H ! a) = Some (True, ?d, H ! a)"
    using parse_done [OF assms(2,3), of exec resetParse] assms(4) by auto
  have step: "\<exists>x H2. decodeRequest exec a H1 = Some (Some ((decodedRequest ?d)\<lparr>m_bodyBuffer := x\<rparr>), H2)
      \<and> H2 ! a = H ! a \<and> a < length H2"
    if "a < length H1" "H1 ! a = H ! a" for H1
    using that p
    by (cases "hasHeader ContentLength (decodedRequest ?d)")
       (auto simp: decodeRequest_def body_for_def setBody_def nth_append Let_def)
  obtain x H' where q: "decodeRequest exec a H = Some (Some ((decodedRequest ?d)\<lparr>m_bodyBuffer := x\<rparr>), H')"
      "H' ! a = H ! a" "a < length H'"
    using step [OF assms(1) refl] by blast
  obtain y H'' where "decodeRequest exec a H' = Some (Some ((decodedRequest ?d)\<lparr>m_bodyBuffer := y\<rparr>), H'')" "H'' ! a = H ! a"
    using step [OF q(3,2)] by blast
  with q show ?thesis by fastforce
qed

subsection \<open>The channel\<close>

text \<open>A new channel has no arrays to send, so nothing can be received: the conversion for receiving follows
  the null pointers of the arrays meant for sending. What it gives for sending is the array of received
  bytes.\<close>

lemma http_channel_conversions:
  assumes "newHttpChannel H = (c, H')"
  shows "http_writeBufferConvert c H'' = None \<and> http_readBufferConvert c H' = Some []"
  using assms by (auto simp: newHttpChannel_def http_writeBufferConvert_def http_readBufferConvert_def reader_vec_def
      endOfReadNode_def newByteArray_def newBufferNode_def reader_loop.simps)

subsection \<open>A parser\<close>

text \<open>A parser for the examples: it knows three inputs.\<close>

definition sample_exec :: "byte list \<Rightarrow> llhttp" where
  "sample_exec d = \<lparr>ll_errno = (if d = [71] then HPE_OK else if d = [71, 13] then HPE_OTHER 2 else HPE_PAUSED_UPGRADE),
     ll_callbacks = [OnUrl ''/a'', OnHeaderField ''Host'', OnHeaderValue ''x'', OnHeaderField ''Host'', OnHeaderValue ''y''],
     ll_status_code = 0, ll_http_major = 1, ll_http_minor = 1, ll_method = HTTP_GET,
     ll_error_pos = (if d = [71] then None else Some 2)\<rparr>"

lemma array_with:
  assumes "d \<noteq> []" "length d < BufferNodeSize"
  obtains b where "ba_inv b" "first_block b = d" "contents b = d"
proof -
  let ?b = "\<lparr>m_availableSizeToRead = length d, m_availableSizeToWrite = BufferNodeSize - length d, m_readNode = 0,
     m_writeNode = 0, m_nodes = [\<lparr>node_start = 0, node_end = length d,
       node_buffer = d @ replicate (BufferNodeSize - length d) 0\<rparr>]\<rparr>"
  have "ba_shape ?b" using assms(2) by (auto simp: ba_shape_def node_ok_def)
  moreover have "first_block ?b = d" "contents ?b = d" by (simp_all add: first_block_def contents_def node_data_def)
  ultimately show ?thesis using that [of ?b] by (simp add: ba_inv_def room_def)
qed

lemma unnamed_error_never_returns_witness: "\<exists>b. decodeRequest sample_exec 0 [b] = None"
proof -
  obtain b where b: "ba_inv b" "first_block b = [71, 13]" by (rule array_with [of "[71, 13]"]) (simp_all add: BufferNodeSize_def)
  then show ?thesis
    using unnamed_error_never_returns [of 0 "[b]" sample_exec 2] by (intro exI [of _ b]) (simp add: sample_exec_def)
qed

lemma decoded_request_witness:
  "\<exists>b q b'. decodeRequest sample_exec 0 [b] = Some (Some q, [b', newByteArray]) \<and> m_url q = ''/a''
     \<and> map_find ''Host'' (m_header q) = Some ''x'' \<and> contents b' = [3]"
proof -
  obtain b where b: "ba_inv b" "first_block b = [1, 2, 3]" "contents b = [1, 2, 3]"
    by (rule array_with [of "[1, 2, 3]"]) (simp_all add: BufferNodeSize_def)
  then show ?thesis
    using decoded_request [of 0 "[b]" sample_exec, OF _ _ _ refl]
    by (intro exI [of _ b]) (auto simp: sample_exec_def is_parsed_def consumed_def)
qed

lemma request_delivered_again_witness:
  "\<exists>b q H'. decodeRequest sample_exec 0 [b] = Some (Some q, H') \<and> H' ! 0 = b \<and> contents b = [71]"
proof -
  obtain b where b: "ba_inv b" "first_block b = [71]" "contents b = [71]"
    by (rule array_with [of "[71]"]) (simp_all add: BufferNodeSize_def)
  then show ?thesis
    using request_delivered_again [of 0 "[b]" sample_exec, OF _ _ _ refl]
    by (intro exI [of _ b]) (auto simp: sample_exec_def)
qed

end
