(* ===== verification/Address.thy ===== *)
theory Address
  imports ByteArrayIO
begin

text \<open>
  \<^verbatim>\<open>Address\<close> (\<^verbatim>\<open>src/Address.cpp\<close>): an IPv4 address and a port in the form the
  kernel uses, with both in network byte order. \<^verbatim>\<open>inet_addr\<close>, which accepts more
  notations than the dotted decimal one, is an argument; \<^verbatim>\<open>inet_ntoa\<close> prints the four
  bytes of an address as they lie in memory.
\<close>

record sockaddr_in =
  sin_family :: nat
  sin_port :: "16 word"
  sin_addr :: "32 word"

definition AF_INET :: nat where
  "AF_INET = 2"

definition zero_sockaddr :: sockaddr_in where
  "zero_sockaddr = \<lparr>sin_family = 0, sin_port = 0, sin_addr = 0\<rparr>"

text \<open>The port is converted to \<^verbatim>\<open>uint16_t\<close> by the call of \<^verbatim>\<open>htons\<close>.\<close>

definition newAddress :: "endian \<Rightarrow> (string \<Rightarrow> 32 word) \<Rightarrow> string \<Rightarrow> 32 word \<Rightarrow> sockaddr_in" where
  "newAddress host inet_addr ip port =
     (let a = zero_sockaddr\<lparr>sin_family := AF_INET\<rparr>;
          a = (if ip = ''0.0.0.0'' then a\<lparr>sin_addr := ucast (htobe host 2 (0 :: 16 word))\<rparr>
               else a\<lparr>sin_addr := inet_addr ip\<rparr>)
      in a\<lparr>sin_port := htobe host 2 (ucast port :: 16 word)\<rparr>)"

definition defaultAddress :: "endian \<Rightarrow> (string \<Rightarrow> 32 word) \<Rightarrow> sockaddr_in" where
  "defaultAddress host inet_addr = newAddress host inet_addr ''0.0.0.0'' 11111"

fun dotted :: "byte list \<Rightarrow> string" where
  "dotted [] = []"
| "dotted [b] = nat_digits (unat b)"
| "dotted (b # bs) = nat_digits (unat b) @ CHR ''.'' # dotted bs"

definition inet_ntoa :: "endian \<Rightarrow> 32 word \<Rightarrow> string" where
  "inet_ntoa host a = dotted (host_bytes host 4 a)"

definition address_ip :: "endian \<Rightarrow> sockaddr_in \<Rightarrow> string" where
  "address_ip host a = inet_ntoa host (sin_addr a)"

definition address_port :: "endian \<Rightarrow> sockaddr_in \<Rightarrow> 32 word" where
  "address_port host a = ucast (betoh host 2 (sin_port a))"

subsection \<open>What an address remembers\<close>

lemma betoh_htobe16: "betoh host 2 (htobe host 2 w) = (w :: 16 word)"
proof -
  have "be_bytes 2 (be_word (rev (be_bytes 2 w)) :: 16 word) = rev (be_bytes 2 w)"
    using be_bytes_word [of "rev (be_bytes 2 w)", where 'a = 16] by simp
  then show ?thesis by (simp add: betoh_def htobe_def split: endian.splits)
qed

lemma htobe_0: "htobe host 2 (0 :: 16 word) = 0"
  by (simp add: htobe_def be_word_def numeral_2_eq_2 split: endian.splits)

lemma host_bytes_host_word:
  assumes "8 * length bs \<le> LENGTH('a)"
  shows "host_bytes host (length bs) (host_word host bs :: 'a::len word) = bs"
  using be_bytes_word [of bs, where 'a = 'a] be_bytes_word [of "rev bs", where 'a = 'a] assms
  by (simp add: host_bytes_def host_word_def split: endian.splits)

lemma digits_0_255: "nat_digits 0 = ''0''" "nat_digits 255 = ''255''"
  by code_simp+

lemma inet_ntoa_0: "inet_ntoa host 0 = ''0.0.0.0''"
proof -
  have "be_bytes 4 (0 :: 32 word) = [0, 0, 0, 0]"
    by (simp add: numeral_nat)
  then show ?thesis
    by (cases host) (simp_all add: inet_ntoa_def host_bytes_def digits_0_255)
qed

lemma address_port_new: "address_port host (newAddress host inet_addr ip port) = ucast (ucast port :: 16 word)"
  by (simp add: address_port_def newAddress_def betoh_htobe16 Let_def)

lemma ucast_16_32: "unat (ucast (ucast (port :: 32 word) :: 16 word) :: 32 word) = unat port mod 65536"
  by (simp add: unsigned_ucast_eq take_bit_eq_mod mod_mod_cancel unat_mod_distrib)

text \<open>Reading an address back gives the text it was made from, for every dotted decimal
  address, on hosts of either byte order; the port comes back modulo 65536, so a larger
  number is silently another port.\<close>

lemma address_roundtrip:
  assumes "length bs = 4" "inet_addr (dotted bs) = host_word host bs"
  shows "address_ip host (newAddress host inet_addr (dotted bs) port) = dotted bs
     \<and> unat (address_port host (newAddress host inet_addr (dotted bs) port)) = unat port mod 65536"
proof -
  have "address_ip host (newAddress host inet_addr (dotted bs) port) = dotted bs"
  proof (cases "dotted bs = ''0.0.0.0''")
    case True
    then show ?thesis by (simp add: address_ip_def newAddress_def htobe_0 inet_ntoa_0)
  next
    case False
    then show ?thesis
      using host_bytes_host_word [of bs host, where 'a = 32] assms
      by (simp add: address_ip_def newAddress_def inet_ntoa_def)
  qed
  then show ?thesis by (simp add: address_port_new ucast_16_32)
qed

theorem address_roundtrip_witness:
  "address_ip LittleEndian (newAddress LittleEndian (\<lambda>_. host_word LittleEndian [127, 0, 0, 1]) (dotted [127, 0, 0, 1]) 80)
     = dotted [127, 0, 0, 1]"
  using address_roundtrip [of "[127, 0, 0, 1]" "\<lambda>_. host_word LittleEndian [127, 0, 0, 1]" LittleEndian 80] by simp

text \<open>A text that \<^verbatim>\<open>inet_addr\<close> does not accept makes it return \<^verbatim>\<open>INADDR_NONE\<close>,
  all ones, and the address is then the broadcast address.\<close>

lemma invalid_ip_is_broadcast:
  assumes "ip \<noteq> ''0.0.0.0''" "inet_addr ip = - 1"
  shows "address_ip host (newAddress host inet_addr ip port) = ''255.255.255.255''"
proof -
  have "be_bytes 4 (- 1 :: 32 word) = [255, 255, 255, 255]"
    by code_simp
  then show ?thesis
    using assms by (cases host) (simp_all add: address_ip_def newAddress_def inet_ntoa_def host_bytes_def digits_0_255)
qed

end
