(* ===== verification/Dns.thy ===== *)
theory Dns
  imports Address Timer Epoll Uri
begin

text \<open>
  Name resolution (\<^verbatim>\<open>src/internal/handlers/AsyncDnsHandler.cpp\<close>,
  \<^verbatim>\<open>src/dns/DnsResolver.cpp\<close>) over the resolver library c-ares, which is not part of
  the repository: what its functions return and what it hands to the callbacks are
  arguments. A null pointer is \<^term>\<open>None\<close>, and following it is \<^term>\<open>None\<close>.
\<close>

record timeval =
  tval_sec :: int
  tval_usec :: int

text \<open>\<^verbatim>\<open>toSecond\<close>: both parts are converted to \<^verbatim>\<open>unsigned\<close>, the second after a division.\<close>

definition toSecond :: "timeval \<Rightarrow> nat" where
  "toSecond tv = nat ((tval_sec tv mod 2 ^ 32 + tval_usec tv div 1000000 mod 2 ^ 32) mod 2 ^ 32)"

text \<open>\<open>dns_loop\<close> is the poller behind \<^verbatim>\<open>_loopThisHandlerLiveIn\<close>.\<close>

record AsyncDnsHandler =
  m_timeout :: "Timer option"
  m_aresSockFd :: int
  dns_loop :: "Epoll option"
  dns_event :: "EpollEvent option"

definition newAsyncDnsHandler :: "timespec \<Rightarrow> AsyncDnsHandler option" where
  "newAsyncDnsHandler now =
     (let h = \<lparr>m_timeout = None, m_aresSockFd = 0, dns_loop = None, dns_event = None\<rparr> in do {
        t \<leftarrow> m_timeout h;
        Some (h\<lparr>m_timeout := Some (setSingleShot now True t)\<rparr>)
      })"

text \<open>\<open>tvp\<close> is what \<^verbatim>\<open>ares_timeout\<close> returns.\<close>

definition dns_resolve :: "timespec \<Rightarrow> timeval option \<Rightarrow> AsyncDnsHandler \<Rightarrow> AsyncDnsHandler option" where
  "dns_resolve now tvp h = do {
     tv \<leftarrow> tvp;
     t \<leftarrow> m_timeout h;
     Some (h\<lparr>m_timeout := Some (setInterval now (toSecond tv) t)\<rparr>)
   }"

definition resolveTimeout :: "timespec \<Rightarrow> timeval option \<Rightarrow> AsyncDnsHandler \<Rightarrow> AsyncDnsHandler option" where
  "resolveTimeout now tvp h = (case tvp of None \<Rightarrow> Some h
     | Some tv \<Rightarrow> do {
         t \<leftarrow> m_timeout h;
         Some (h\<lparr>m_timeout := Some (setInterval now (toSecond tv) t)\<rparr>)
       })"

definition aresSockCreate :: "nat \<Rightarrow> int \<Rightarrow> AsyncDnsHandler \<Rightarrow> AsyncDnsHandler option" where
  "aresSockCreate i sock h =
     (let h = h\<lparr>m_aresSockFd := sock\<rparr> in do {
        p \<leftarrow> dns_loop h;
        let (e, p) = event_active i [EV_IN] (SysOk 0) (newEpollEvent sock, p);
        Some (h\<lparr>dns_event := Some e, dns_loop := Some p\<rparr>)
      })"

text \<open>The address given to the user's callback; \<open>hostent\<close> is the first address of the result.\<close>

definition aresHostResolvedCallback :: "int \<Rightarrow> 32 word option \<Rightarrow> sockaddr_in option" where
  "aresHostResolvedCallback status hostent =
     (let address = zero_sockaddr\<lparr>sin_family := AF_INET, sin_port := 0\<rparr> in
      if status \<noteq> 0 then map_option (\<lambda>a. address\<lparr>sin_addr := a\<rparr>) hostent else Some address)"

text \<open>\<^verbatim>\<open>DnsResolver\<close>: the names handed to the handler. No code sets the handler.\<close>

definition m_asyncDnsHandler :: "nat option" where
  "m_asyncDnsHandler = None"

definition resolver_resolve :: "nat option \<Rightarrow> string \<Rightarrow> (nat \<times> string) list" where
  "resolver_resolve handler host = (case handler of None \<Rightarrow> [] | Some h \<Rightarrow> [(h, host)])"

definition resolver_resolve_uri :: "nat option \<Rightarrow> Uri \<Rightarrow> (nat \<times> string) list" where
  "resolver_resolve_uri handler uri = resolver_resolve handler (m_host uri)"

subsection \<open>What a lookup does\<close>

text \<open>The status of a lookup is tested the wrong way round: a lookup that succeeds (status 0)
  gives the user the address 0.0.0.0 whatever was found, and one that fails, for which the
  library passes no result, follows a null pointer.\<close>

lemma lookup_result_inverted:
  "aresHostResolvedCallback 0 hostent = Some \<lparr>sin_family = AF_INET, sin_port = 0, sin_addr = 0\<rparr>
   \<and> (status \<noteq> 0 \<longrightarrow> aresHostResolvedCallback status None = None)"
  by (simp add: aresHostResolvedCallback_def zero_sockaddr_def Let_def)

theorem lookup_result_inverted_witness: "aresHostResolvedCallback 4 None = None"
  using lookup_result_inverted [of None 4] by simp

text \<open>
  Even with a timer, looking up a name never arms it: the interval is set, in seconds
  where milliseconds are meant, on a timer that nobody starts.
\<close>

lemma lookup_timeout_never_armed:
  assumes "m_timeout h = Some t" "\<not> m_running t" "timer_inv t"
    and "0 \<le> tval_sec tv" "tval_sec tv < 2 ^ 32" "0 \<le> tval_usec tv" "tval_usec tv < 1000000"
  shows "\<exists>h' t'. dns_resolve now (Some tv) h = Some h' \<and> m_timeout h' = Some t'
     \<and> int (m_interval t') = tval_sec tv \<and> m_timerSpec t' = zero_spec"
proof -
  have "int (toSecond tv) = tval_sec tv" using assms(4-7) by (simp add: toSecond_def)
  then show ?thesis using assms(1-3) by (simp add: dns_resolve_def setInterval_def timer_inv_def Let_def)
qed

text \<open>A name that is resolved at once leaves nothing to wait for, and the null pointer that
  \<^verbatim>\<open>ares_timeout\<close> returns then is followed.\<close>

lemma lookup_without_timeout: "dns_resolve now None h = None"
  by (simp add: dns_resolve_def)

text \<open>The parts fit together so that no lookup is ever made: the constructor of the handler
  follows the null pointer it has just set, and the resolver has no handler.\<close>

lemma no_lookup_is_made:
  "newAsyncDnsHandler now = None" "resolver_resolve_uri m_asyncDnsHandler uri = []"
  by (simp_all add: newAsyncDnsHandler_def resolver_resolve_uri_def resolver_resolve_def m_asyncDnsHandler_def)

end
