(* ===== verification/Threads.thy ===== *)
theory Threads
  imports Prelude
begin

text \<open>
  Threads that share state: a state, and for each thread the step that it can make, if any
  (a thread that has ended, or waits for a mutex, makes none). A schedule names the threads
  that make the steps, one after the other. The interface is what keeps threads from
  blocking one another for ever: while something is left to do some thread can go on, and
  no step can be repeated without end.
\<close>

fun schedule :: "('t \<Rightarrow> 's \<Rightarrow> 's option) \<Rightarrow> 't list \<Rightarrow> 's \<Rightarrow> 's option" where
  "schedule step [] s = Some s"
| "schedule step (t # ts) s = (case step t s of None \<Rightarrow> None | Some s' \<Rightarrow> schedule step ts s')"

lemma schedule_append:
  "schedule step (ts @ us) s = Option.bind (schedule step ts s) (schedule step us)"
  by (induction ts arbitrary: s) (auto split: option.splits)

lemma schedule_inv:
  assumes "\<And>t s s'. P s \<Longrightarrow> step t s = Some s' \<Longrightarrow> P s'"
  shows "P s \<Longrightarrow> schedule step ts s = Some s' \<Longrightarrow> P s'"
  by (induction ts arbitrary: s) (auto split: option.splits intro: assms)

text \<open>What all threads have left to do decreases when it does for the one that makes a step.\<close>

lemma sum_less_one:
  fixes f g :: "nat \<Rightarrow> nat"
  assumes "finite T" "t \<in> T" "\<And>u. u \<noteq> t \<Longrightarrow> g u = f u" "g t < f t"
  shows "sum g T < sum f T"
proof (rule sum_strict_mono_ex1 [OF assms(1)])
  have "g u \<le> f u" for u using assms(3) [of u] assms(4) by (cases "u = t") auto
  then show "\<forall>u\<in>T. g u \<le> f u" by blast
qed (use assms(2,4) in blast)

locale thread_system =
  fixes step :: "'t \<Rightarrow> 's \<Rightarrow> 's option"
    and inv :: "'s \<Rightarrow> bool"
    and finished :: "'s \<Rightarrow> bool"
    and less :: "('s \<times> 's) set"
  assumes wf_less: "wf less"
    and step_inv: "inv s \<Longrightarrow> step t s = Some s' \<Longrightarrow> inv s'"
    and step_less: "inv s \<Longrightarrow> step t s = Some s' \<Longrightarrow> (s', s) \<in> less"
    and progress: "inv s \<Longrightarrow> \<not> finished s \<Longrightarrow> \<exists>t s'. step t s = Some s'"
begin

lemma run_inv: "inv s \<Longrightarrow> schedule step ts s = Some s' \<Longrightarrow> inv s'"
  by (rule schedule_inv [of inv]) (rule step_inv)

lemma can_finish: "inv s \<Longrightarrow> \<exists>ts s'. schedule step ts s = Some s' \<and> inv s' \<and> finished s'"
proof (induction s rule: wf_induct_rule [OF wf_less])
  case (1 s)
  show ?case
  proof (cases "finished s")
    case True
    with 1 show ?thesis by (intro exI [of _ "[]"]) simp
  next
    case False
    then obtain t s1 where s1: "step t s = Some s1" using progress [OF 1(2)] by blast
    from 1(1) [OF step_less [OF 1(2) s1] step_inv [OF 1(2) s1]] obtain ts s' where
      "schedule step ts s1 = Some s'" "inv s'" "finished s'" by blast
    with s1 show ?thesis by (intro exI [of _ "t # ts"]) simp
  qed
qed

lemma no_endless_run: "inv s \<Longrightarrow> \<exists>n. schedule step (map f [0..<n]) s = None"
proof (induction s arbitrary: f rule: wf_induct_rule [OF wf_less])
  case (1 s)
  have first: "map f [0..<Suc n] = f 0 # map (f \<circ> Suc) [0..<n]" for n
    by (simp add: upt_conv_Cons map_Suc_upt [symmetric] del: upt_Suc)
  show ?case
  proof (cases "step (f 0) s")
    case None
    then show ?thesis by (intro exI [of _ 1]) simp
  next
    case (Some s1)
    from 1(1) [OF step_less [OF 1(2) Some] step_inv [OF 1(2) Some], of "f \<circ> Suc"] obtain n where
      "schedule step (map (f \<circ> Suc) [0..<n]) s1 = None" by blast
    then show ?thesis using Some by (intro exI [of _ "Suc n"]) (simp only: first schedule.simps option.case)
  qed
qed

end

end
