(* ===== verification/SharedArray.thy ===== *)
theory SharedArray
  imports ByteArray Threads
begin

text \<open>
  A byte array used by several threads (\<^verbatim>\<open>include/ByteArray.h\<close>: ``it's thread
  safe''). The theory \<^verbatim>\<open>ByteArray\<close> takes each method as one step; here a method is
  what the code does, a sequence of steps between the construction of its
  \<^verbatim>\<open>lock_guard\<close> and its destruction: growing the vector, one step for each node that is
  copied, and the change of the counters. Steps of different threads interleave; a thread
  waits when the mutex of the array that it calls is held. The result is that the methods
  behave as if each ran alone, in the order in which they gave the mutex back.

  The typed methods call one of these and convert outside of the mutex.
\<close>

datatype call = WriteRaw "byte list" | RetrieveRaw nat | ReadableBytes | WriteableBytes

datatype result = Wrote | Got "byte list" | Size nat

text \<open>Where a thread is inside a method. The arguments are the method's local variables:
  the index of the iterator, its end, what is left to copy, the length asked for, and what
  was copied.\<close>

datatype progress =
    WriteAlloc "byte list"
  | WriteNodes nat "byte list" nat
  | WriteCount nat nat
  | ReadCheck nat
  | ReadNodes nat nat nat nat "byte list"
  | ReadCount nat nat "byte list"
  | LoadReadable
  | LoadWriteable
  | Leave result
  | Undefined

fun entry :: "call \<Rightarrow> progress" where
  "entry (WriteRaw data) = WriteAlloc data"
| "entry (RetrieveRaw len) = ReadCheck len"
| "entry ReadableBytes = LoadReadable"
| "entry WriteableBytes = LoadWriteable"

subsection \<open>One step inside a method\<close>

text \<open>The body of the copying loop of \<^verbatim>\<open>writeRaw\<close>.\<close>

definition write_once :: "nat \<Rightarrow> byte list \<Rightarrow> bytes \<Rightarrow> (byte list \<times> bytes) option" where
  "write_once it data b =
     (let node = m_nodes b ! it;
          space = sub64 BufferNodeSize (node_end node);
          bytesToWrite = (if space < length data then space else length data)
      in map_option (\<lambda>buf.
           let node' = node\<lparr>node_buffer := buf, node_end := node_end node + bytesToWrite\<rparr>;
               b' = b\<lparr>m_nodes := (m_nodes b)[it := node']\<rparr>
           in (drop bytesToWrite data,
               if m_writeNode b' + 1 < length (m_nodes b') \<and> node_end node' = BufferNodeSize
               then b'\<lparr>m_writeNode := m_writeNode b' + 1\<rparr> else b'))
         (memcpy_in (node_buffer node) (node_end node) (take bytesToWrite data)))"

text \<open>The body of the copying loop of \<^verbatim>\<open>retrieveRaw\<close>.\<close>

definition read_once :: "nat \<Rightarrow> nat \<Rightarrow> bytes \<Rightarrow> (byte list \<times> nat \<times> bytes) option" where
  "read_once it len b = do {
     node \<leftarrow> nth_opt (m_nodes b) it;
     let avail = sub64 (node_end node) (node_start node);
     let bytesToCopy = (if avail < len then avail else len);
     out \<leftarrow> memcpy_out (node_buffer node) (node_start node) bytesToCopy;
     let node' = node\<lparr>node_start := node_start node + bytesToCopy\<rparr>;
     let b' = b\<lparr>m_nodes := (m_nodes b)[it := node']\<rparr>;
     Some (out, len - bytesToCopy,
       if node_start node' = BufferNodeSize \<and> m_readNode b' + 1 < length (m_nodes b')
       then b'\<lparr>m_writeNode := (if m_readNode b' = m_writeNode b' then m_writeNode b' + 1 else m_writeNode b'),
               m_readNode := m_readNode b' + 1\<rparr>
       else b')
   }"

fun method_step :: "progress \<Rightarrow> bytes \<Rightarrow> progress \<times> bytes" where
  "method_step (WriteAlloc data) b =
     (case if m_availableSizeToWrite b \<le> length data then unlockedAllocIfNotEnough (length data) b
           else Some b of
        None \<Rightarrow> (Undefined, b)
      | Some b \<Rightarrow> (WriteNodes (m_writeNode b) data (length data), b))"
| "method_step (WriteNodes it data expectWrite) b =
     (if data \<noteq> [] \<and> it < length (m_nodes b)
      then (case write_once it data b of
              None \<Rightarrow> (Undefined, b)
            | Some (data', b') \<Rightarrow> (WriteNodes (it + 1) data' expectWrite, b'))
      else (WriteCount expectWrite (length data), b))"
| "method_step (WriteCount expectWrite rest) b =
     (Leave Wrote, b\<lparr>m_availableSizeToRead := m_availableSizeToRead b + (expectWrite - rest),
        m_availableSizeToWrite := sub64 (m_availableSizeToWrite b) (expectWrite - rest)\<rparr>)"
| "method_step (ReadCheck len) b =
     (if len \<le> m_availableSizeToRead b
      then (case endOfReadNode b of
              None \<Rightarrow> (Undefined, b)
            | Some endOfRead \<Rightarrow> (ReadNodes (m_readNode b) endOfRead len len [], b))
      else (Leave (Got []), b))"
| "method_step (ReadNodes it endOfRead len expectToRead copied) b =
     (if 0 < len \<and> it < endOfRead
      then (case read_once it len b of
              None \<Rightarrow> (Undefined, b)
            | Some (out, len', b') \<Rightarrow> (ReadNodes (it + 1) endOfRead len' expectToRead (copied @ out), b'))
      else (ReadCount expectToRead len copied, b))"
| "method_step (ReadCount expectToRead len copied) b =
     (Leave (Got copied), b\<lparr>m_availableSizeToRead := sub64 (m_availableSizeToRead b) (expectToRead - len)\<rparr>)"
| "method_step LoadReadable b = (Leave (Size (m_availableSizeToRead b)), b)"
| "method_step LoadWriteable b = (Leave (Size (m_availableSizeToWrite b)), b)"
| "method_step (Leave r) b = (Leave r, b)"
| "method_step Undefined b = (Undefined, b)"

subsection \<open>Threads\<close>

text \<open>Each thread has the calls that it will make, each on an array, and perhaps one that it
  is in the middle of. \<open>answers\<close> is the history of the calls that have returned.\<close>

record shared =
  arrays :: "nat \<Rightarrow> bytes"
  m_bufferMutex :: "nat \<Rightarrow> nat option"
  todo :: "nat \<Rightarrow> (nat \<times> call) list"
  inside :: "nat \<Rightarrow> (nat \<times> call \<times> progress) option"
  answers :: "(nat \<times> nat \<times> call \<times> result) list"

definition threads_start :: "(nat \<Rightarrow> (nat \<times> call) list) \<Rightarrow> shared" where
  "threads_start progs = \<lparr>arrays = \<lambda>_. newByteArray, m_bufferMutex = Map.empty, todo = progs,
     inside = Map.empty, answers = []\<rparr>"

definition caller_step :: "nat \<Rightarrow> shared \<Rightarrow> shared option" where
  "caller_step t s = (case inside s t of
     None \<Rightarrow> (case todo s t of
         [] \<Rightarrow> None
       | (a, c) # rest \<Rightarrow>
           if m_bufferMutex s a = None
           then Some (s\<lparr>m_bufferMutex := (m_bufferMutex s)(a \<mapsto> t), todo := (todo s)(t := rest),
                  inside := (inside s)(t \<mapsto> (a, c, entry c))\<rparr>)
           else None)
   | Some (a, c, sec) \<Rightarrow> (case sec of
         Leave r \<Rightarrow> Some (s\<lparr>m_bufferMutex := (m_bufferMutex s)(a := None), inside := (inside s)(t := None),
           answers := answers s @ [(t, a, c, r)]\<rparr>)
       | Undefined \<Rightarrow> None
       | _ \<Rightarrow> (case method_step sec (arrays s a) of
           (sec', b') \<Rightarrow> Some (s\<lparr>arrays := (arrays s)(a := b'), inside := (inside s)(t \<mapsto> (a, c, sec'))\<rparr>))))"

subsection \<open>What a method will do from where it is\<close>

fun call_alone :: "call \<Rightarrow> bytes \<Rightarrow> (result \<times> bytes) option" where
  "call_alone (WriteRaw data) b = map_option (\<lambda>b. (Wrote, b)) (writeRaw data b)"
| "call_alone (RetrieveRaw len) b = map_option (\<lambda>(out, b). (Got out, b)) (retrieveRaw len b)"
| "call_alone ReadableBytes b = Some (Size (m_availableSizeToRead b), b)"
| "call_alone WriteableBytes b = Some (Size (m_availableSizeToWrite b), b)"

fun rest_alone :: "progress \<Rightarrow> bytes \<Rightarrow> (result \<times> bytes) option" where
  "rest_alone (WriteAlloc data) b = call_alone (WriteRaw data) b"
| "rest_alone (WriteNodes it data n) b = do {
     (rest, b) \<leftarrow> write_loop it data b;
     Some (Wrote, b\<lparr>m_availableSizeToRead := m_availableSizeToRead b + (n - length rest),
        m_availableSizeToWrite := sub64 (m_availableSizeToWrite b) (n - length rest)\<rparr>) }"
| "rest_alone (WriteCount n rest) b =
     Some (Wrote, b\<lparr>m_availableSizeToRead := m_availableSizeToRead b + (n - rest),
        m_availableSizeToWrite := sub64 (m_availableSizeToWrite b) (n - rest)\<rparr>)"
| "rest_alone (ReadCheck len) b = call_alone (RetrieveRaw len) b"
| "rest_alone (ReadNodes it e len n copied) b = do {
     (out, rest, b) \<leftarrow> read_loop it e len b;
     Some (Got (copied @ out), b\<lparr>m_availableSizeToRead := sub64 (m_availableSizeToRead b) (n - rest)\<rparr>) }"
| "rest_alone (ReadCount n len copied) b =
     Some (Got copied, b\<lparr>m_availableSizeToRead := sub64 (m_availableSizeToRead b) (n - len)\<rparr>)"
| "rest_alone LoadReadable b = Some (Size (m_availableSizeToRead b), b)"
| "rest_alone LoadWriteable b = Some (Size (m_availableSizeToWrite b), b)"
| "rest_alone (Leave r) b = Some (r, b)"
| "rest_alone Undefined b = None"

lemma rest_alone_entry [simp]: "rest_alone (entry c) b = call_alone c b"
  by (cases c) simp_all

lemma write_loop_once:
  "write_loop it data b =
     (if data \<noteq> [] \<and> it < length (m_nodes b)
      then Option.bind (write_once it data b) (\<lambda>(data', b'). write_loop (it + 1) data' b')
      else Some (data, b))"
  by (subst write_loop.simps) (simp add: write_once_def Let_def split: option.split)

lemma read_loop_once:
  "read_loop it e len b =
     (if 0 < len \<and> it < e
      then Option.bind (read_once it len b)
        (\<lambda>(out, len', b'). map_option (\<lambda>(out', rest). (out @ out', rest)) (read_loop (it + 1) e len' b'))
      else Some ([], len, b))"
  by (subst read_loop.simps) (simp add: read_once_def Let_def split: option.split)

lemma method_step_alone: "case_prod rest_alone (method_step p b) = rest_alone p b"
proof (cases p)
  case (WriteAlloc data)
  then show ?thesis by (auto simp: writeRaw_def map_option_case split: option.splits bind_splits)
next
  case (WriteNodes it data n)
  then show ?thesis
    by (subst (2) WriteNodes, subst rest_alone.simps, subst write_loop_once)
       (auto split: option.splits)
next
  case (ReadCheck len)
  then show ?thesis by (auto simp: retrieveRaw_def map_option_case split: option.splits bind_splits)
next
  case (ReadNodes it e len n copied)
  then show ?thesis
    by (subst (2) ReadNodes, subst rest_alone.simps, subst read_loop_once)
       (auto simp: map_option_case split: option.splits bind_splits)
qed simp_all

subsection \<open>Calls one after the other\<close>

fun sequential :: "bytes \<Rightarrow> call list \<Rightarrow> (result list \<times> bytes) option" where
  "sequential b [] = Some ([], b)"
| "sequential b (c # cs) = do {
     (r, b) \<leftarrow> call_alone c b;
     (rs, b) \<leftarrow> sequential b cs;
     Some (r # rs, b)
   }"

fun written :: "call \<Rightarrow> byte list" where
  "written (WriteRaw data) = data"
| "written _ = []"

fun delivered :: "result \<Rightarrow> byte list" where
  "delivered (Got data) = data"
| "delivered _ = []"

lemma call_alone_ok:
  assumes "ba_inv b"
  shows "\<exists>r b'. call_alone c b = Some (r, b') \<and> ba_inv b' \<and> delivered r @ contents b' = contents b @ written c"
proof (cases c)
  case (WriteRaw data)
  with ba.push_ok [OF assms, of data] show ?thesis by auto
next
  case (RetrieveRaw n)
  with ba.pop_enough [OF assms, of n] ba.pop_short [OF assms, of n] assms show ?thesis
    by (cases "n \<le> length (contents b)") auto
qed (use assms in auto)

lemma sequential_snoc:
  "sequential b (cs @ [c]) = do {
     (rs, b) \<leftarrow> sequential b cs;
     (r, b) \<leftarrow> call_alone c b;
     Some (rs @ [r], b) }"
  by (induction cs arbitrary: b) (auto split: bind_splits)

lemma sequential_fifo:
  assumes "ba_inv b" "sequential b cs = Some (rs, b')"
  shows "ba_inv b' \<and> concat (map delivered rs) @ contents b' = contents b @ concat (map written cs)"
  using assms
proof (induction cs arbitrary: b rs)
  case (Cons c cs)
  obtain r b1 where 1: "call_alone c b = Some (r, b1)" "ba_inv b1"
      "delivered r @ contents b1 = contents b @ written c"
    using call_alone_ok [OF Cons.prems(1)] by blast
  with Cons.prems(2) obtain rs' where 2: "sequential b1 cs = Some (rs', b')" "rs = r # rs'"
    by (auto split: bind_splits)
  from Cons.IH [OF 1(2) 2(1)] 1(3) 2(2) show ?case by auto
qed auto

subsection \<open>The invariant\<close>

definition history :: "nat \<Rightarrow> shared \<Rightarrow> (call \<times> result) list" where
  "history a s = map (\<lambda>(t, a, c, r). (c, r)) (filter (\<lambda>(t, a', c, r). a' = a) (answers s))"

definition answered :: "nat \<Rightarrow> shared \<Rightarrow> (nat \<times> call) list" where
  "answered t s = map (\<lambda>(t, a, c, r). (a, c)) (filter (\<lambda>(t', a, c, r). t' = t) (answers s))"

definition current :: "nat \<Rightarrow> shared \<Rightarrow> (nat \<times> call) list" where
  "current t s = (case inside s t of None \<Rightarrow> [] | Some (a, c, p) \<Rightarrow> [(a, c)])"

text \<open>The calls that have returned, run alone on a new array, gave the results that the
  threads got; and what runs now, run to its end without interruption, would give what it
  gives after them.\<close>

definition explained :: "nat \<Rightarrow> shared \<Rightarrow> bool" where
  "explained a s \<longleftrightarrow> (\<exists>b0. sequential newByteArray (map fst (history a s)) = Some (map snd (history a s), b0)
     \<and> (case m_bufferMutex s a of
          None \<Rightarrow> arrays s a = b0
        | Some t \<Rightarrow> \<exists>c p. inside s t = Some (a, c, p) \<and> rest_alone p (arrays s a) = call_alone c b0))"

definition shared_inv :: "(nat \<Rightarrow> (nat \<times> call) list) \<Rightarrow> shared \<Rightarrow> bool" where
  "shared_inv progs s \<longleftrightarrow>
     (\<forall>t a c p. inside s t = Some (a, c, p) \<longrightarrow> m_bufferMutex s a = Some t)
   \<and> (\<forall>a. explained a s)
   \<and> (\<forall>t. answered t s @ current t s @ todo s t = progs t)"

lemma shared_inv_start: "shared_inv progs (threads_start progs)"
  by (simp add: shared_inv_def explained_def history_def answered_def current_def threads_start_def)

lemma history_answers: "answers s' = answers s \<Longrightarrow> history a s' = history a s"
  by (simp add: history_def)

lemma explained_free:
  "m_bufferMutex s a = None \<Longrightarrow> explained a s \<longleftrightarrow>
     sequential newByteArray (map fst (history a s)) = Some (map snd (history a s), arrays s a)"
  by (auto simp: explained_def)

lemma explained_held:
  "m_bufferMutex s a = Some t \<Longrightarrow> inside s t = Some (a, c, p) \<Longrightarrow> explained a s \<longleftrightarrow>
     (\<exists>b0. sequential newByteArray (map fst (history a s)) = Some (map snd (history a s), b0)
       \<and> rest_alone p (arrays s a) = call_alone c b0)"
  by (auto simp: explained_def)

lemma explained_other:
  assumes "explained a s" "history a s' = history a s" "m_bufferMutex s' a = m_bufferMutex s a"
    "arrays s' a = arrays s a" "\<And>t. m_bufferMutex s a = Some t \<Longrightarrow> inside s' t = inside s t"
  shows "explained a s'"
  using assms by (auto simp: explained_def split: option.splits)

lemma shared_invD:
  assumes "shared_inv progs s"
  shows "inside s t = Some (a, c, p) \<Longrightarrow> m_bufferMutex s a = Some t" "explained a s"
    "m_bufferMutex s a = Some t \<Longrightarrow> \<exists>c p. inside s t = Some (a, c, p)"
    "answered t s @ current t s @ todo s t = progs t"
proof -
  show "inside s t = Some (a, c, p) \<Longrightarrow> m_bufferMutex s a = Some t" "explained a s"
    "answered t s @ current t s @ todo s t = progs t"
    using assms unfolding shared_inv_def by blast+
  then show "m_bufferMutex s a = Some t \<Longrightarrow> \<exists>c p. inside s t = Some (a, c, p)"
    by (auto simp: explained_def)
qed

text \<open>What a step of \<open>t\<close> on the array \<open>a\<close> leaves of the invariant.\<close>

lemma shared_inv_step:
  assumes I: "shared_inv progs s" and own: "m_bufferMutex s a \<in> {None, Some t}"
    and frame: "\<And>t'. t' \<noteq> t \<Longrightarrow> inside s' t' = inside s t' \<and> todo s' t' = todo s t' \<and> answered t' s' = answered t' s"
      "\<And>a'. a' \<noteq> a \<Longrightarrow> m_bufferMutex s' a' = m_bufferMutex s a' \<and> arrays s' a' = arrays s a' \<and> history a' s' = history a' s"
    and here: "explained a s'" "\<And>a' c p. inside s' t = Some (a', c, p) \<Longrightarrow> a' = a \<and> m_bufferMutex s' a = Some t"
    and was: "\<And>a' c p. inside s t = Some (a', c, p) \<Longrightarrow> a' = a"
    and order: "answered t s' @ current t s' @ todo s' t = answered t s @ current t s @ todo s t"
  shows "shared_inv progs s'"
proof -
  note D = shared_invD [OF I]
  have "m_bufferMutex s' a' = Some t'" if "inside s' t' = Some (a', c, p)" for t' a' c p
  proof (cases "t' = t")
    case False
    then have "m_bufferMutex s a' = Some t'" using that frame(1) D(1) by metis
    with own False have "a' \<noteq> a" by auto
    with frame(2) \<open>m_bufferMutex s a' = Some t'\<close> show ?thesis by metis
  qed (use here(2) that in auto)
  moreover have "explained a' s'" for a'
  proof (cases "a' = a")
    case False
    show ?thesis
    proof (rule explained_other [OF D(2)])
      fix t' assume "m_bufferMutex s a' = Some t'"
      with D(3) was False have "t' \<noteq> t" by metis
      then show "inside s' t' = inside s t'" using frame(1) by blast
    qed (use frame(2) False in auto)
  qed (use here(1) in simp)
  moreover have "answered t' s' @ current t' s' @ todo s' t' = progs t'" for t'
    using D(4) [of t'] frame(1) [of t'] order by (cases "t' = t") (auto simp: current_def)
  ultimately show ?thesis by (auto simp: shared_inv_def)
qed

lemma lock_inv:
  assumes I: "shared_inv progs s" and idle: "inside s t = None"
    and "todo s t = (a, c) # rest" "m_bufferMutex s a = None"
  shows "shared_inv progs (s\<lparr>m_bufferMutex := (m_bufferMutex s)(a \<mapsto> t), todo := (todo s)(t := rest),
           inside := (inside s)(t \<mapsto> (a, c, entry c))\<rparr>)" (is "shared_inv progs ?s")
proof (rule shared_inv_step [OF I, of a t])
  show "explained a ?s"
    using shared_invD(2) [OF I, of a] assms(4)
    by (simp add: explained_held [of ?s a t c "entry c"] explained_free history_answers [of ?s s])
qed (use assms in \<open>auto simp: answered_def current_def history_def\<close>)

lemma inner_inv:
  assumes I: "shared_inv progs s" and in_a: "inside s t = Some (a, c, p)"
    and step: "method_step p (arrays s a) = (p', b')"
  shows "shared_inv progs (s\<lparr>arrays := (arrays s)(a := b'), inside := (inside s)(t \<mapsto> (a, c, p'))\<rparr>)"
    (is "shared_inv progs ?s")
proof (rule shared_inv_step [OF I, of a t])
  note mine = shared_invD(1) [OF I in_a]
  show "explained a ?s"
    using shared_invD(2) [OF I, of a] method_step_alone [of p "arrays s a"]
    by (subst explained_held [of _ _ t c p'])
       (auto simp: mine step explained_held [OF mine in_a] history_answers [of ?s s])
qed (use in_a shared_invD(1) [OF I in_a] in \<open>auto simp: answered_def current_def history_def\<close>)

lemma unlock_inv:
  assumes I: "shared_inv progs s" and in_a: "inside s t = Some (a, c, Leave r)"
  shows "shared_inv progs (s\<lparr>m_bufferMutex := (m_bufferMutex s)(a := None), inside := (inside s)(t := None),
           answers := answers s @ [(t, a, c, r)]\<rparr>)" (is "shared_inv progs ?s")
proof (rule shared_inv_step [OF I, of a t])
  note mine = shared_invD(1) [OF I in_a]
  have "history a ?s = history a s @ [(c, r)]" by (simp add: history_def)
  then show "explained a ?s"
    using shared_invD(2) [OF I, of a]
    by (auto simp: explained_free explained_held [OF mine in_a] sequential_snoc dest: sym)
qed (use in_a shared_invD(1) [OF I in_a] in \<open>auto simp: answered_def current_def history_def\<close>)

lemma caller_step_inv:
  assumes "shared_inv progs s" "caller_step t s = Some s'"
  shows "shared_inv progs s'"
proof (cases "inside s t")
  case None
  with assms show ?thesis
    by (auto simp: caller_step_def split: list.splits prod.splits if_splits intro: lock_inv)
next
  case (Some x)
  obtain a c p where x: "x = (a, c, p)" by (cases x)
  show ?thesis
  proof (cases "\<exists>r. p = Leave r")
    case True
    with assms Some x show ?thesis by (auto simp: caller_step_def intro: unlock_inv)
  next
    case False
    obtain p' b' where "method_step p (arrays s a) = (p', b')" by (cases "method_step p (arrays s a)")
    with assms Some x False show ?thesis
      by (cases p) (auto simp: caller_step_def simp del: method_step.simps intro: inner_inv)
  qed
qed

lemma threads_inv: "schedule caller_step ts (threads_start progs) = Some s \<Longrightarrow> shared_inv progs s"
  by (rule schedule_inv [of "shared_inv progs", OF _ shared_inv_start]) (rule caller_step_inv)

text \<open>C4. A byte array is thread safe: whatever threads do, with their steps interleaved in any
  way, each thread's calls return in its order, and the calls on an array return what they
  return when they are made one after the other, each to its end, on a new array, in the
  order in which they gave the mutex back; when the mutex is free the array is the one that
  this leaves. In particular the bytes delivered to all threads, in that order, followed by
  the bytes in the array, are the bytes written by all threads.\<close>

theorem byte_array_linearizable:
  assumes "schedule caller_step ts (threads_start progs) = Some s"
  shows "(\<forall>t. answered t s @ current t s @ todo s t = progs t)
     \<and> (\<forall>a. \<exists>b. sequential newByteArray (map fst (history a s)) = Some (map snd (history a s), b)
          \<and> (m_bufferMutex s a = None \<longrightarrow> arrays s a = b)
          \<and> concat (map (delivered \<circ> snd) (history a s)) @ contents b = concat (map (written \<circ> fst) (history a s)))"
proof (intro conjI allI)
  note I = threads_inv [OF assms]
  show "answered t s @ current t s @ todo s t = progs t" for t
    by (rule shared_invD(4) [OF I])
  fix a
  from shared_invD(2) [OF I, of a] obtain b where
    b: "sequential newByteArray (map fst (history a s)) = Some (map snd (history a s), b)"
      "m_bufferMutex s a = None \<longrightarrow> arrays s a = b"
    by (auto simp: explained_def split: option.splits)
  with sequential_fifo [OF ba_inv_new b(1)]
  show "\<exists>b. sequential newByteArray (map fst (history a s)) = Some (map snd (history a s), b)
      \<and> (m_bufferMutex s a = None \<longrightarrow> arrays s a = b)
      \<and> concat (map (delivered \<circ> snd) (history a s)) @ contents b = concat (map (written \<circ> fst) (history a s))"
    by auto
qed

subsection \<open>Every call returns\<close>

fun steps_left :: "progress \<Rightarrow> bytes \<Rightarrow> nat" where
  "steps_left (WriteAlloc data) b =
     (case if m_availableSizeToWrite b \<le> length data then unlockedAllocIfNotEnough (length data) b
           else Some b of
        None \<Rightarrow> 0 | Some b \<Rightarrow> length (m_nodes b) - m_writeNode b + 4)"
| "steps_left (WriteNodes it data n) b = length (m_nodes b) - it + 3"
| "steps_left (ReadCheck len) b = (case endOfReadNode b of None \<Rightarrow> 4 | Some e \<Rightarrow> e - m_readNode b + 4)"
| "steps_left (ReadNodes it e len n copied) b = e - it + 3"
| "steps_left (Leave r) b = 1"
| "steps_left Undefined b = 0"
| "steps_left _ b = 2"

lemma write_once_length: "write_once it d b = Some (d', b') \<Longrightarrow> length (m_nodes b') = length (m_nodes b)"
  by (auto simp: write_once_def Let_def split: if_splits)

lemma steps_left_decreases:
  assumes "rest_alone p b \<noteq> None" "\<nexists>r. p = Leave r"
  shows "case_prod steps_left (method_step p b) < steps_left p b"
  using assms
proof (cases p)
  case (WriteAlloc data)
  with assms(1) show ?thesis by (auto simp: writeRaw_def split: option.splits if_splits bind_splits)
next
  case (WriteNodes it data n)
  with assms(1) show ?thesis
    by (auto simp: write_loop_once [of it data b] dest!: write_once_length split: option.splits)
next
  case (ReadNodes it e len n copied)
  with assms(1) show ?thesis
    by (auto simp: read_loop_once [of it e len b] split: option.splits)
qed (auto split: option.splits)

lemma inside_continues:
  assumes "shared_inv progs s" "inside s t = Some (a, c, p)"
  shows "rest_alone p (arrays s a) \<noteq> None"
proof -
  obtain b0 where b0: "sequential newByteArray (map fst (history a s)) = Some (map snd (history a s), b0)"
      "rest_alone p (arrays s a) = call_alone c b0"
    using shared_invD(2) [OF assms(1), of a]
    by (auto simp: explained_held [OF shared_invD(1) [OF assms] assms(2)])
  from sequential_fifo [OF ba_inv_new b0(1)] call_alone_ok [of b0 c] b0(2) show ?thesis by auto
qed

text \<open>What a thread has left: calls, and steps of the call that it is in.\<close>

definition work :: "shared \<Rightarrow> nat \<Rightarrow> nat" where
  "work s t = 2 * length (todo s t) + (if inside s t = None then 0 else 1)"

definition left :: "shared \<Rightarrow> nat \<Rightarrow> nat" where
  "left s t = (case inside s t of None \<Rightarrow> 0 | Some (a, c, p) \<Rightarrow> steps_left p (arrays s a))"

definition shared_less :: "nat set \<Rightarrow> (shared \<times> shared) set" where
  "shared_less T = measures [\<lambda>s. sum (work s) T, \<lambda>s. sum (left s) T]"

lemma inner_less:
  assumes "finite T" "t \<in> T" "shared_inv progs s" "inside s t = Some (a, c, p)" "\<nexists>r. p = Leave r"
    "method_step p (arrays s a) = (p', b')"
  shows "(s\<lparr>arrays := (arrays s)(a := b'), inside := (inside s)(t \<mapsto> (a, c, p'))\<rparr>, s) \<in> shared_less T"
    (is "(?s, s) \<in> _")
proof -
  have "work ?s u = work s u" for u using assms(4) by (simp add: work_def)
  moreover have "sum (left ?s) T < sum (left s) T"
  proof (rule sum_less_one [OF assms(1,2)])
    show "left ?s t < left s t"
      using steps_left_decreases [OF inside_continues [OF assms(3,4)] assms(5)] assms(4,6)
      by (simp add: left_def)
    fix u assume "u \<noteq> t"
    then have "a' \<noteq> a" if "inside s u = Some (a', c', q)" for a' c' q
      using shared_invD(1) [OF assms(3) that] shared_invD(1) [OF assms(3,4)] by auto
    with \<open>u \<noteq> t\<close> show "left ?s u = left s u" by (auto simp: left_def split: option.split)
  qed
  ultimately show ?thesis by (simp add: shared_less_def)
qed

lemma work_less:
  assumes "finite T" "t \<in> T" "\<And>u. u \<noteq> t \<Longrightarrow> work s' u = work s u" "work s' t < work s t"
  shows "(s', s) \<in> shared_less T"
  using sum_less_one [of T t "work s'" "work s", OF assms] by (simp add: shared_less_def)

lemma active_thread:
  assumes "shared_inv progs s" "\<And>t. t \<notin> T \<Longrightarrow> progs t = []" "inside s t \<noteq> None \<or> todo s t \<noteq> []"
  shows "t \<in> T"
  using shared_invD(4) [OF assms(1), of t] assms(2) [of t] assms(3)
  by (cases "t \<in> T") (auto simp: current_def split: option.splits prod.splits)

lemma caller_step_less:
  assumes T: "finite T" "\<And>t. t \<notin> T \<Longrightarrow> progs t = []" and I: "shared_inv progs s" and step: "caller_step t s = Some s'"
  shows "(s', s) \<in> shared_less T"
proof -
  have t: "t \<in> T"
    by (rule active_thread [OF I T(2)]) (use step in \<open>auto simp: caller_step_def split: option.splits list.splits\<close>)
  show ?thesis
  proof (cases "inside s t")
    case None
    show ?thesis
      by (rule work_less [OF T(1) t]) (use step None in \<open>auto simp: caller_step_def work_def split: list.splits if_splits\<close>)
  next
    case (Some x)
    obtain a c p where x: "x = (a, c, p)" by (cases x)
    show ?thesis
    proof (cases "\<exists>r. p = Leave r")
      case True
      show ?thesis
        by (rule work_less [OF T(1) t]) (use step Some x True in \<open>auto simp: caller_step_def work_def\<close>)
    next
      case False
      obtain p' b' where "method_step p (arrays s a) = (p', b')" by (cases "method_step p (arrays s a)")
      with inner_less [OF T(1) t I _ False this] step Some x False show ?thesis
        by (cases p) (auto simp: caller_step_def simp del: method_step.simps)
    qed
  qed
qed

lemma thread_progress:
  assumes I: "shared_inv progs s" and "inside s t \<noteq> None \<or> todo s t \<noteq> []"
  shows "\<exists>t s'. caller_step t s = Some s'"
proof (cases "\<exists>u x. inside s u = Some x")
  case True
  then obtain u a c p where u: "inside s u = Some (a, c, p)" by auto
  with inside_continues [OF I u] show ?thesis
    by (intro exI [of _ u]) (cases p; auto simp: caller_step_def simp del: method_step.simps split: prod.split)
next
  case False
  with assms(2) obtain a c rest where "todo s t = (a, c) # rest" by (cases "todo s t") auto
  moreover have "m_bufferMutex s a = None" using False shared_invD(3) [OF I, of a] by (cases "m_bufferMutex s a") auto
  moreover have "inside s t = None" using False by (cases "inside s t") auto
  ultimately show ?thesis by (intro exI [of _ t]) (simp add: caller_step_def)
qed

definition calls_done :: "shared \<Rightarrow> bool" where
  "calls_done s \<longleftrightarrow> (\<forall>t. inside s t = None \<and> todo s t = [])"

interpretation array_threads: thread_system caller_step
    "\<lambda>s. finite T \<and> (\<forall>t. t \<notin> T \<longrightarrow> progs t = []) \<and> shared_inv progs s" calls_done "shared_less T"
proof (unfold_locales, goal_cases)
  case 1
  show ?case by (simp add: shared_less_def)
next
  case (2 s t s')
  then show ?case by (blast intro: caller_step_inv)
next
  case (3 s t s')
  then show ?case by (blast intro: caller_step_less)
next
  case (4 s)
  then show ?case unfolding calls_done_def by (blast dest: thread_progress)
qed

text \<open>C5. No use of byte arrays through their methods can block for ever: however far any
  number of threads have come, there is a way to go on in which all calls of all threads
  return, and no choice of who goes next lets them run without end.\<close>

theorem byte_array_calls_return:
  assumes "schedule caller_step ts (threads_start progs) = Some s" "finite {t. progs t \<noteq> []}"
  shows "(\<exists>ts' s'. schedule caller_step ts' s = Some s' \<and> (\<forall>t. answered t s' = progs t))
     \<and> (\<forall>f. \<exists>n. schedule caller_step (map f [0..<n]) s = None)"
proof -
  note I = threads_inv [OF assms(1)]
  then have inv: "finite {t. progs t \<noteq> []} \<and> (\<forall>t. t \<notin> {t. progs t \<noteq> []} \<longrightarrow> progs t = []) \<and> shared_inv progs s"
    using assms(2) by simp
  from array_threads.can_finish [OF inv] obtain ts' s' where
    s': "schedule caller_step ts' s = Some s'" "shared_inv progs s'" "calls_done s'" by blast
  then have "answered t s' = progs t" for t
    using shared_invD(4) [OF s'(2), of t] by (simp add: calls_done_def current_def)
  with s'(1) array_threads.no_endless_run [OF inv] show ?thesis by blast
qed

text \<open>Two threads at work: while the first is inside \<^verbatim>\<open>readableBytes\<close>, the second waits.\<close>

definition two_programs :: "nat \<Rightarrow> (nat \<times> call) list" where
  "two_programs t = (if t = 0 then [(7, ReadableBytes)] else if t = 1 then [(7, WriteableBytes)] else [])"

lemma two_programs_run:
  "\<exists>s. schedule caller_step [0, 0, 0, 1] (threads_start two_programs) = Some s \<and> history 7 s = [(ReadableBytes, Size 0)]
     \<and> m_bufferMutex s 7 = Some 1"
  "schedule caller_step [0, 1] (threads_start two_programs) = None"
  by (simp_all add: caller_step_def threads_start_def two_programs_def history_def newByteArray_def)

lemma byte_array_linearizable_witness:
  "\<exists>s b. schedule caller_step [0, 0, 0, 1] (threads_start two_programs) = Some s \<and> history 7 s = [(ReadableBytes, Size 0)]
     \<and> sequential newByteArray [ReadableBytes] = Some ([Size 0], b) \<and> contents b = []"
proof -
  obtain s where s: "schedule caller_step [0, 0, 0, 1] (threads_start two_programs) = Some s"
      "history 7 s = [(ReadableBytes, Size 0)]"
    using two_programs_run(1) by blast
  from byte_array_linearizable [OF s(1)] obtain b where
    "sequential newByteArray (map fst (history 7 s)) = Some (map snd (history 7 s), b)"
    "concat (map (delivered \<circ> snd) (history 7 s)) @ contents b = concat (map (written \<circ> fst) (history 7 s))"
    by blast
  with s show ?thesis by auto
qed

lemma byte_array_calls_return_witness:
  "\<exists>s ts' s'. schedule caller_step [0, 0, 0, 1] (threads_start two_programs) = Some s \<and> schedule caller_step ts' s = Some s'
     \<and> (\<forall>t. answered t s' = two_programs t)"
proof -
  have "{t. two_programs t \<noteq> []} \<subseteq> {0, 1}" by (auto simp: two_programs_def split: if_splits)
  then have fin: "finite {t. two_programs t \<noteq> []}" by (rule finite_subset) simp
  obtain s where "schedule caller_step [0, 0, 0, 1] (threads_start two_programs) = Some s"
    using two_programs_run(1) by blast
  with byte_array_calls_return [OF this fin] show ?thesis by blast
qed

end
