(* ===== verification/SharedReader.thy ===== *)
theory SharedReader
  imports Channel SharedArray
begin

text \<open>
  A \<^verbatim>\<open>ChannelReader\<close> (\<^verbatim>\<open>src/channel/TcpChannel.cpp\<close>) on a byte array that several
  threads use. Each of its reads is two calls of the array: \<^verbatim>\<open>readableBytes\<close>, and
  \<^verbatim>\<open>retrieveRaw\<close> if that was enough; the mutex is free in between. Each call is one step
  here, which \<^verbatim>\<open>SharedArray\<close> justifies. \<open>checked i\<close> is the length for which the
  reader in thread \<open>i\<close> has passed its test; \<open>returned\<close> is what the reads have returned,
  and \<^verbatim>\<open>nullopt\<close> is \<^term>\<open>None\<close>.
\<close>

datatype reader_event = Writes "byte list" | Asks nat nat | Retrieves nat

record shared_reader =
  m_readBuffer :: bytes
  checked :: "nat \<Rightarrow> nat option"
  returned :: "(nat \<times> nat \<times> byte list option) list"

definition newSharedReader :: shared_reader where
  "newSharedReader = \<lparr>m_readBuffer = newByteArray, checked = Map.empty, returned = []\<rparr>"

fun reader_step :: "reader_event \<Rightarrow> shared_reader \<Rightarrow> shared_reader option" where
  "reader_step (Writes data) s =
     map_option (\<lambda>b. s\<lparr>m_readBuffer := b\<rparr>) (writeRaw data (m_readBuffer s))"
| "reader_step (Asks i len) s =
     (if checked s i \<noteq> None then None
      else if len \<le> readableBytes (m_readBuffer s) then Some (s\<lparr>checked := (checked s)(i \<mapsto> len)\<rparr>)
      else Some (s\<lparr>returned := returned s @ [(i, len, None)]\<rparr>))"
| "reader_step (Retrieves i) s = (case checked s i of
       None \<Rightarrow> None
     | Some len \<Rightarrow> map_option (\<lambda>(out, b). s\<lparr>m_readBuffer := b, checked := (checked s)(i := None),
           returned := returned s @ [(i, len, Some out)]\<rparr>) (retrieveRaw len (m_readBuffer s)))"

fun reader_run :: "reader_event list \<Rightarrow> shared_reader \<Rightarrow> shared_reader option" where
  "reader_run [] s = Some s"
| "reader_run (e # es) s = Option.bind (reader_step e s) (reader_run es)"

text \<open>Uninterrupted, the two steps are the read of \<^verbatim>\<open>Channel\<close>.\<close>

lemma uninterrupted_read:
  assumes "checked s i = None" "cr_retrieveRaw len (Some (m_readBuffer s)) = Some (v, Some b)"
  shows "\<exists>es s'. reader_run (Asks i len # es) s = Some s' \<and> es \<in> {[], [Retrieves i]}
     \<and> m_readBuffer s' = b \<and> returned s' = returned s @ [(i, len, v)]"
proof (cases "len \<le> readableBytes (m_readBuffer s)")
  case True
  with assms show ?thesis
    by (intro exI [of _ "[Retrieves i]"]) (auto simp: cr_retrieveRaw_def if_readable_def)
next
  case False
  with assms show ?thesis
    by (intro exI [of _ "[]"]) (auto simp: cr_retrieveRaw_def if_readable_def)
qed

definition bytes_returned :: "shared_reader \<Rightarrow> byte list" where
  "bytes_returned s = concat (map (\<lambda>(i, len, v). case v of None \<Rightarrow> [] | Some out \<Rightarrow> out) (returned s))"

fun bytes_written :: "reader_event list \<Rightarrow> byte list" where
  "bytes_written [] = []"
| "bytes_written (Writes data # es) = data @ bytes_written es"
| "bytes_written (_ # es) = bytes_written es"

fun reader_of :: "reader_event \<Rightarrow> nat option" where
  "reader_of (Writes data) = None"
| "reader_of (Asks i len) = Some i"
| "reader_of (Retrieves i) = Some i"

fun full_answer :: "nat \<times> nat \<times> byte list option \<Rightarrow> bool" where
  "full_answer (i, len, None) = True"
| "full_answer (i, len, Some out) = (length out = len)"

text \<open>The invariant of a buffer with one reader, \<open>r\<close>.\<close>

definition reader_inv :: "nat \<Rightarrow> shared_reader \<Rightarrow> bool" where
  "reader_inv r s \<longleftrightarrow> ba_inv (m_readBuffer s)
     \<and> (\<forall>i len. checked s i = Some len \<longrightarrow> i = r \<and> len \<le> length (contents (m_readBuffer s)))
     \<and> list_all full_answer (returned s)"

lemma reader_step_ok:
  assumes "reader_inv r s" "reader_of e \<in> {None, Some r}" "reader_step e s = Some s'"
  shows "reader_inv r s'
     \<and> bytes_returned s' @ contents (m_readBuffer s') = bytes_returned s @ contents (m_readBuffer s) @ bytes_written [e]"
proof (cases e)
  case (Writes data)
  from assms(1) have "ba_inv (m_readBuffer s)" by (simp add: reader_inv_def)
  from ba.push_ok [OF this, of data] assms(1,3) Writes show ?thesis
    by (fastforce simp: reader_inv_def bytes_returned_def)
next
  case (Asks i len)
  have avail: "readableBytes (m_readBuffer s) = length (contents (m_readBuffer s))"
    using assms(1) by (simp add: reader_inv_def readableBytes_def ba_inv_def)
  have i: "i = r" using assms(2) Asks by simp
  show ?thesis
  proof (cases "len \<le> readableBytes (m_readBuffer s)")
    case True
    with assms(3) Asks have "s' = s\<lparr>checked := (checked s)(i \<mapsto> len)\<rparr>" by (simp split: if_splits)
    with True avail i assms(1) Asks show ?thesis by (simp add: reader_inv_def bytes_returned_def)
  next
    case False
    with assms(3) Asks have "s' = s\<lparr>returned := returned s @ [(i, len, None)]\<rparr>" by (simp split: if_splits)
    with assms(1) Asks show ?thesis by (simp add: reader_inv_def bytes_returned_def)
  qed
next
  case (Retrieves i)
  with assms(3) obtain len where len: "checked s i = Some len" by (auto split: option.splits)
  with assms(1) have "ba_inv (m_readBuffer s)" "len \<le> length (contents (m_readBuffer s))"
    by (auto simp: reader_inv_def)
  moreover have "checked s k = None" if "k \<noteq> i" for k
    using that len assms(1) unfolding reader_inv_def by (metis not_Some_eq)
  then have "(checked s)(i := None) = Map.empty" by (auto simp: fun_eq_iff)
  ultimately show ?thesis
    using ba.pop_enough [of "m_readBuffer s" len] assms len Retrieves
    by (auto simp: reader_inv_def bytes_returned_def)
qed

lemma bytes_written_Cons: "bytes_written (e # es) = bytes_written [e] @ bytes_written es"
  by (cases e) simp_all

lemma reader_run_ok:
  assumes "reader_inv r s" "\<forall>e \<in> set es. reader_of e \<in> {None, Some r}" "reader_run es s = Some s'"
  shows "reader_inv r s'
     \<and> bytes_returned s' @ contents (m_readBuffer s') = bytes_returned s @ contents (m_readBuffer s) @ bytes_written es"
  using assms
proof (induction es arbitrary: s)
  case (Cons e es)
  from Cons.prems(3) obtain s1 where s1: "reader_step e s = Some s1" "reader_run es s1 = Some s'"
    by (auto simp: bind_eq_Some_conv simp del: reader_step.simps)
  with reader_step_ok [OF Cons.prems(1) _ s1(1)] Cons.IH [of s1] Cons.prems(2)
  show ?case by (subst bytes_written_Cons) auto
qed simp

text \<open>C8. A channel's reader that only one thread uses, beside any number of writers, never
  returns fewer bytes than it was asked for: a read gives nothing, or exactly the next bytes
  that were written. What it has returned and what is left is what was written.\<close>

theorem one_reader_exact:
  assumes "reader_run es newSharedReader = Some s" "\<forall>e \<in> set es. reader_of e \<in> {None, Some r}"
  shows "list_all full_answer (returned s)
     \<and> bytes_returned s @ contents (m_readBuffer s) = bytes_written es"
proof -
  have "reader_inv r newSharedReader" by (simp add: reader_inv_def newSharedReader_def)
  from reader_run_ok [OF this assms(2,1)] show ?thesis
    by (simp add: reader_inv_def bytes_returned_def newSharedReader_def)
qed

lemma one_reader_exact_witness:
  "\<exists>s. reader_run [Writes [1, 2, 3], Asks 0 2, Retrieves 0, Asks 0 2] newSharedReader = Some s
     \<and> returned s = [(0, 2, Some [1, 2]), (0, 2, None)] \<and> contents (m_readBuffer s) = [3]"
proof -
  obtain b where b: "writeRaw [1, 2, 3] newByteArray = Some b" "ba_inv b" "contents b = [1, 2, 3]"
    using ba.push_ok [OF ba_inv_new, of "[1, 2, 3]"] by auto
  obtain b' where b': "retrieveRaw 2 b = Some ([1, 2], b')" "ba_inv b'" "contents b' = [3]"
    using ba.pop_enough [OF b(2), of 2] b(3) by auto
  have "readableBytes b = 3" "readableBytes b' = 1"
    using b(2,3) b'(2,3) by (simp_all add: readableBytes_def ba_inv_def)
  with b(1) b'(1) obtain s where
    s: "reader_run [Writes [1, 2, 3], Asks 0 2, Retrieves 0, Asks 0 2] newSharedReader = Some s"
      "returned s = [(0, 2, Some [1, 2]), (0, 2, None)]"
    by (simp add: newSharedReader_def)
  with one_reader_exact [OF s(1), of 0] show ?thesis by (auto simp: bytes_returned_def)
qed

text \<open>C9. Two threads reading through channel readers on one array can both pass the test for
  the same bytes; the first gets them, and the second, although its result is not
  \<^verbatim>\<open>nullopt\<close>, gets no byte (a read of a typed value then returns a zero that nobody wrote).\<close>

theorem two_readers_race:
  assumes "data \<noteq> []" "i \<noteq> j"
  shows "\<exists>s. reader_run [Writes data, Asks i (length data), Asks j (length data), Retrieves i, Retrieves j]
       newSharedReader = Some s
     \<and> returned s = [(i, length data, Some data), (j, length data, Some [])]"
proof -
  obtain b where b: "writeRaw data newByteArray = Some b" "ba_inv b" "contents b = data"
    using ba.push_ok [OF ba_inv_new, of data] by auto
  obtain b' where b': "retrieveRaw (length data) b = Some (data, b')" "ba_inv b'" "contents b' = []"
    using ba.pop_enough [OF b(2), of "length data"] b(3) by auto
  have "retrieveRaw (length data) b' = Some ([], b')"
    using ba.pop_short [OF b'(2), of "length data"] b'(3) assms(1) by simp
  moreover have "readableBytes b = length data"
    using b(2,3) by (simp add: readableBytes_def ba_inv_def)
  ultimately show ?thesis using b(1) b'(1) assms(2) by (simp add: newSharedReader_def)
qed

lemma two_readers_race_witness:
  "\<exists>s. reader_run [Writes [7], Asks 0 1, Asks 1 1, Retrieves 0, Retrieves 1] newSharedReader = Some s
     \<and> returned s = [(0, 1, Some [7]), (1, 1, Some [])]"
  using two_readers_race [of "[7]" 0 1] by simp

end
