(* ===== verification/LockOrder.thy ===== *)
theory LockOrder
  imports Threads
begin

text \<open>
  The mutexes of byte arrays. A public method of an array locks the array's mutex for the time
  of the call (the \<^verbatim>\<open>lock_guard\<close>s of \<^verbatim>\<open>src/ByteArray.cpp\<close>). The objects of
  \<^verbatim>\<open>src/internal/socket/SocketIO.cpp\<close> lock on construction and unlock on destruction: a reader
  or writer its one array, \<^verbatim>\<open>SequentialByteArrayReaderWithLock\<close> its arrays one after the
  other. In the scope of such an object a thread may call methods and construct further
  objects. A mutex is not recursive: a thread that locks one that it holds waits for itself
  (the notes of \<^verbatim>\<open>ByteArray.h\<close> on \<^verbatim>\<open>*WithLock\<close>). The data is left out here.
\<close>

datatype locking =
    ReaderWithLock nat
  | WriterWithLock nat
  | SequentialReaderWithLock "nat list"

datatype byte_use = Method nat | Within locking "byte_use list"

fun locks_of :: "locking \<Rightarrow> nat list" where
  "locks_of (ReaderWithLock a) = [a]"
| "locks_of (WriterWithLock a) = [a]"
| "locks_of (SequentialReaderWithLock buffers) = buffers"

datatype lock_action = Lock nat | Unlock nat

fun actions :: "byte_use \<Rightarrow> lock_action list" where
  "actions (Method a) = [Lock a, Unlock a]"
| "actions (Within object uses) =
     map Lock (locks_of object) @ concat (map actions uses) @ map Unlock (locks_of object)"

record lock_state =
  holder :: "nat \<Rightarrow> nat option"
  todo :: "nat \<Rightarrow> lock_action list"

definition locks_start :: "(nat \<Rightarrow> byte_use list) \<Rightarrow> lock_state" where
  "locks_start progs = \<lparr>holder = Map.empty, todo = \<lambda>t. concat (map actions (progs t))\<rparr>"

definition lock_step :: "nat \<Rightarrow> lock_state \<Rightarrow> lock_state option" where
  "lock_step t s = (case todo s t of
     [] \<Rightarrow> None
   | Lock a # rest \<Rightarrow>
       if holder s a = None
       then Some (s\<lparr>holder := (holder s)(a \<mapsto> t), todo := (todo s)(t := rest)\<rparr>)
       else None
   | Unlock a # rest \<Rightarrow>
       Some (s\<lparr>holder := (holder s)(a := None), todo := (todo s)(t := rest)\<rparr>))"

definition all_unlocked :: "lock_state \<Rightarrow> bool" where
  "all_unlocked s \<longleftrightarrow> (\<forall>t. todo s t = []) \<and> (\<forall>a. holder s a = None)"

lemma lock_step_cases:
  assumes "lock_step t s = Some s'"
  obtains (lock) a rest where "todo s t = Lock a # rest" "holder s a = None"
      "s' = s\<lparr>holder := (holder s)(a \<mapsto> t), todo := (todo s)(t := rest)\<rparr>"
  | (unlock) a rest where "todo s t = Unlock a # rest"
      "s' = s\<lparr>holder := (holder s)(a := None), todo := (todo s)(t := rest)\<rparr>"
  using assms unfolding lock_step_def
  by (auto split: list.splits lock_action.splits if_splits)

text \<open>The mutexes that a thread holds.\<close>

definition held_by :: "lock_state \<Rightarrow> nat \<Rightarrow> nat set" where
  "held_by s t = {a. holder s a = Some t}"

text \<open>A property of what a thread holds and has left to do, kept by its own steps, is kept by
  every step if the threads only unlock what they hold.\<close>

fun own_unlocks :: "nat set \<Rightarrow> lock_action list \<Rightarrow> bool" where
  "own_unlocks H [] = True"
| "own_unlocks H (Lock a # rest) = (a \<in> H \<or> own_unlocks (insert a H) rest)"
| "own_unlocks H (Unlock a # rest) = (a \<in> H \<and> own_unlocks (H - {a}) rest)"

lemma own_unlocks_Locks:
  "own_unlocks (H \<union> set as) rest \<Longrightarrow> own_unlocks H (map Lock as @ rest)"
  by (induction as arbitrary: H) auto

lemma own_unlocks_Unlocks:
  "distinct as \<Longrightarrow> set as \<subseteq> H \<Longrightarrow> own_unlocks (H - set as) rest \<Longrightarrow> own_unlocks H (map Unlock as @ rest)"
proof (induction as arbitrary: H)
  case (Cons a as)
  have "H - set (a # as) = H - {a} - set as" "set as \<subseteq> H - {a}" using Cons.prems(1,2) by auto
  with Cons.prems Cons.IH [of "H - {a}"] show ?case by simp
qed simp

text \<open>A thread that locks an array twice goes no further.\<close>

lemma own_unlocks_relock:
  "\<not> distinct as \<or> set as \<inter> H \<noteq> {} \<Longrightarrow> own_unlocks H (map Lock as @ rest)"
proof (induction as arbitrary: H)
  case (Cons a as)
  show ?case
  proof (cases "a \<in> H")
    case False
    with Cons.prems have "\<not> distinct as \<or> set as \<inter> insert a H \<noteq> {}" by auto
    from Cons.IH [OF this] show ?thesis by simp
  qed simp
qed simp

lemma own_unlocks_concat:
  assumes "\<And>c H rest. c \<in> set cs \<Longrightarrow> own_unlocks H rest \<Longrightarrow> own_unlocks H (actions c @ rest)"
  shows "own_unlocks H rest \<Longrightarrow> own_unlocks H (concat (map actions cs) @ rest)"
  using assms by (induction cs) simp_all

lemma own_unlocks_actions: "own_unlocks H rest \<Longrightarrow> own_unlocks H (actions c @ rest)"
proof (induction c arbitrary: H rest rule: actions.induct)
  case (1 a)
  then show ?case by (cases "a \<in> H") simp_all
next
  case (2 object cs)
  let ?as = "locks_of object"
  show ?case
  proof (cases "distinct ?as \<and> set ?as \<inter> H = {}")
    case True
    then have "H \<union> set ?as - set ?as = H" by auto
    with True 2(2) have "own_unlocks (H \<union> set ?as) (map Unlock ?as @ rest)"
      by (intro own_unlocks_Unlocks) simp_all
    with 2(1) show ?thesis by (auto intro!: own_unlocks_Locks own_unlocks_concat)
  next
    case False
    then show ?thesis by (auto intro: own_unlocks_relock)
  qed
qed

lemma own_unlocks_start: "own_unlocks {} (concat (map actions cs))"
  using own_unlocks_concat [of cs "{}" "[]"] own_unlocks_actions by simp

definition unlocks_inv :: "lock_state \<Rightarrow> bool" where
  "unlocks_inv s \<longleftrightarrow> (\<forall>t. own_unlocks (held_by s t) (todo s t))"

lemma held_by_start [simp]: "held_by (locks_start progs) t = {}"
  by (simp add: held_by_def locks_start_def)

lemma unlocks_inv_start: "unlocks_inv (locks_start progs)"
  by (simp add: unlocks_inv_def own_unlocks_start) (simp add: locks_start_def own_unlocks_start)

text \<open>What a step changes of what threads hold.\<close>

lemma held_by_step:
  assumes "unlocks_inv s" "lock_step t s = Some s'"
  shows "u \<noteq> t \<Longrightarrow> held_by s' u = held_by s u \<and> todo s' u = todo s u"
    and "todo s t = Lock a # rest \<Longrightarrow> a \<notin> held_by s t \<and> held_by s' t = insert a (held_by s t) \<and> todo s' t = rest"
    and "todo s t = Unlock a # rest \<Longrightarrow> a \<in> held_by s t \<and> held_by s' t = held_by s t - {a} \<and> todo s' t = rest"
proof -
  have "own_unlocks (held_by s t) (todo s t)" using assms(1) by (simp add: unlocks_inv_def)
  with assms(2) show "u \<noteq> t \<Longrightarrow> held_by s' u = held_by s u \<and> todo s' u = todo s u"
    by (cases rule: lock_step_cases) (auto simp: held_by_def)
  from assms(2) show "todo s t = Lock a # rest \<Longrightarrow> a \<notin> held_by s t \<and> held_by s' t = insert a (held_by s t) \<and> todo s' t = rest"
    by (cases rule: lock_step_cases) (auto simp: held_by_def)
  from assms(2) \<open>own_unlocks (held_by s t) (todo s t)\<close>
  show "todo s t = Unlock a # rest \<Longrightarrow> a \<in> held_by s t \<and> held_by s' t = held_by s t - {a} \<and> todo s' t = rest"
    by (cases rule: lock_step_cases) (auto simp: held_by_def)
qed

lemma thread_invariant_step:
  assumes "unlocks_inv s" "lock_step t s = Some s'" "P (held_by s u) (todo s u)"
    and lock: "\<And>H a rest. P H (Lock a # rest) \<Longrightarrow> a \<notin> H \<Longrightarrow> P (insert a H) rest"
    and unlock: "\<And>H a rest. P H (Unlock a # rest) \<Longrightarrow> a \<in> H \<Longrightarrow> P (H - {a}) rest"
  shows "P (held_by s' u) (todo s' u)"
proof (cases "u = t")
  case False
  then show ?thesis using held_by_step(1) [OF assms(1,2)] assms(3) by simp
next
  case True
  note P = assms(3) [unfolded True]
  from assms(2) show ?thesis
  proof (cases rule: lock_step_cases)
    case (lock a rest)
    then have "P (held_by s t) (Lock a # rest)" using P by simp
    from assms(4) [OF this] show ?thesis using held_by_step(2) [OF assms(1,2) lock(1)] True by simp
  next
    case (unlock a rest)
    then have "P (held_by s t) (Unlock a # rest)" using P by simp
    from assms(5) [OF this] show ?thesis using held_by_step(3) [OF assms(1,2) unlock(1)] True by simp
  qed
qed

lemma unlocks_inv_step: "unlocks_inv s \<Longrightarrow> lock_step t s = Some s' \<Longrightarrow> unlocks_inv s'"
  using thread_invariant_step [of s t s' own_unlocks] unfolding unlocks_inv_def by fastforce

subsection \<open>Arrays locked in order\<close>

text \<open>\<open>rank\<close> orders the arrays. What a thread locks while it holds the arrays of \<open>H\<close> has a
  higher rank than these. It says nothing of methods, readers and writers used outside of the
  scope of other objects; a sequential reader must be given its arrays by increasing rank.\<close>

fun nested_ok :: "(nat \<Rightarrow> nat) \<Rightarrow> nat set \<Rightarrow> byte_use \<Rightarrow> bool" where
  "nested_ok rank H (Method a) = (\<forall>h\<in>H. rank h < rank a)"
| "nested_ok rank H (Within (ReaderWithLock a) uses) =
     ((\<forall>h\<in>H. rank h < rank a) \<and> list_all (nested_ok rank (insert a H)) uses)"
| "nested_ok rank H (Within (WriterWithLock a) uses) =
     ((\<forall>h\<in>H. rank h < rank a) \<and> list_all (nested_ok rank (insert a H)) uses)"
| "nested_ok rank H (Within (SequentialReaderWithLock as) uses) =
     (sorted_wrt (\<lambda>a b. rank a < rank b) as \<and> (\<forall>a\<in>set as. \<forall>h\<in>H. rank h < rank a)
      \<and> list_all (nested_ok rank (set as \<union> H)) uses)"

fun climbs :: "(nat \<Rightarrow> nat) \<Rightarrow> nat set \<Rightarrow> lock_action list \<Rightarrow> bool" where
  "climbs rank H [] = (H = {})"
| "climbs rank H (Lock a # rest) = ((\<forall>h\<in>H. rank h < rank a) \<and> climbs rank (insert a H) rest)"
| "climbs rank H (Unlock a # rest) = (a \<in> H \<and> climbs rank (H - {a}) rest)"

lemma climbs_Locks:
  "sorted_wrt (\<lambda>a b. rank a < rank b) as \<Longrightarrow> \<forall>a\<in>set as. \<forall>h\<in>H. rank h < rank a \<Longrightarrow>
     climbs rank (set as \<union> H) rest \<Longrightarrow> climbs rank H (map Lock as @ rest)"
  by (induction as arbitrary: H) auto

lemma climbs_Unlocks:
  "distinct as \<Longrightarrow> set as \<inter> H = {} \<Longrightarrow> climbs rank H rest \<Longrightarrow> climbs rank (set as \<union> H) (map Unlock as @ rest)"
proof (induction as)
  case (Cons a as)
  have "set (a # as) \<union> H - {a} = set as \<union> H" using Cons.prems(1,2) by auto
  with Cons show ?case by simp
qed simp

lemma climbs_concat:
  assumes "\<And>c rest. c \<in> set cs \<Longrightarrow> climbs rank H rest \<Longrightarrow> climbs rank H (actions c @ rest)"
  shows "climbs rank H rest \<Longrightarrow> climbs rank H (concat (map actions cs) @ rest)"
  using assms by (induction cs) simp_all

lemma ranked_distinct: "sorted_wrt (\<lambda>a b. rank a < (rank b :: nat)) as \<Longrightarrow> distinct as"
  by (induction as) auto

lemma climbs_Within:
  assumes "sorted_wrt (\<lambda>a b. rank a < rank b) (locks_of object)"
    and "\<forall>a\<in>set (locks_of object). \<forall>h\<in>H. rank h < rank a"
    and "\<And>c rest. c \<in> set cs \<Longrightarrow> climbs rank (set (locks_of object) \<union> H) rest \<Longrightarrow>
        climbs rank (set (locks_of object) \<union> H) (actions c @ rest)"
    and "climbs rank H rest"
  shows "climbs rank H (actions (Within object cs) @ rest)"
proof -
  have "distinct (locks_of object)"
    using assms(1) by (rule ranked_distinct)
  moreover have "set (locks_of object) \<inter> H = {}" using assms(2) by fastforce
  ultimately show ?thesis using assms by (auto intro!: climbs_Locks climbs_concat climbs_Unlocks)
qed

lemma climbs_actions: "nested_ok rank H c \<Longrightarrow> climbs rank H rest \<Longrightarrow> climbs rank H (actions c @ rest)"
proof (induction rank H c arbitrary: rest rule: nested_ok.induct)
  case (1 rank H a)
  then have "insert a H - {a} = H" by auto
  with 1 show ?case by simp
next
  case (2 rank H a uses)
  then show ?case by (intro climbs_Within) (auto simp: list_all_iff)
next
  case (3 rank H a uses)
  then show ?case by (intro climbs_Within) (auto simp: list_all_iff)
next
  case (4 rank H as uses)
  then show ?case by (intro climbs_Within) (auto simp: list_all_iff)
qed

definition climb_inv :: "(nat \<Rightarrow> nat) \<Rightarrow> lock_state \<Rightarrow> bool" where
  "climb_inv rank s \<longleftrightarrow> unlocks_inv s \<and> (\<forall>t. climbs rank (held_by s t) (todo s t))"

lemma climb_inv_start:
  assumes "\<forall>t. \<forall>c\<in>set (progs t). nested_ok rank {} c"
  shows "climb_inv rank (locks_start progs)"
proof -
  have "climbs rank {} (concat (map actions (progs t)))" for t
    using climbs_concat [of "progs t" rank "{}" "[]"] climbs_actions assms by simp
  then show ?thesis by (simp add: climb_inv_def unlocks_inv_start) (simp add: locks_start_def)
qed

lemma climb_inv_step: "climb_inv rank s \<Longrightarrow> lock_step t s = Some s' \<Longrightarrow> climb_inv rank s'"
  using thread_invariant_step [of s t s' "climbs rank"] unlocks_inv_step unfolding climb_inv_def by fastforce

text \<open>A blocked thread wants an array that another holds, which, if it is blocked too, wants an
  array of higher rank. The blocked thread that wants the highest rank leads to one that is
  not blocked.\<close>

lemma locks_progress:
  assumes T: "finite T" "\<And>t. t \<notin> T \<Longrightarrow> todo s t = []"
    and I: "climb_inv rank s" and "\<not> all_unlocked s"
  shows "\<exists>t s'. lock_step t s = Some s'"
proof (rule ccontr)
  assume "\<nexists>t s'. lock_step t s = Some s'"
  then have stuck: "lock_step t s = None" for t by (meson not_Some_eq)
  have C: "climbs rank (held_by s t) (todo s t)" for t using I by (simp add: climb_inv_def)
  define wants where "wants t a \<longleftrightarrow> (\<exists>rest. todo s t = Lock a # rest)" for t a
  have busy: "\<exists>a. wants t a \<and> holder s a \<noteq> None" if "todo s t \<noteq> []" for t
    using stuck [of t] that by (auto simp: lock_step_def wants_def split: list.splits lock_action.splits if_splits)
  have above: "\<exists>u b. wants u b \<and> rank a < rank b" if "wants t a" for t a
  proof -
    from that busy [of t] obtain u where "holder s a = Some u" by (auto simp: wants_def)
    then have held: "a \<in> held_by s u" by (simp add: held_by_def)
    with C [of u] have "todo s u \<noteq> []" by auto
    with busy obtain b where "wants u b" by blast
    with C [of u] held have "rank a < rank b" by (auto simp: wants_def)
    with \<open>wants u b\<close> show ?thesis by blast
  qed
  let ?R = "rank ` {a. \<exists>t. wants t a}"
  have "{a. \<exists>t. wants t a} \<subseteq> (\<lambda>t. case todo s t of Lock a # _ \<Rightarrow> a) ` T"
  proof
    fix a assume "a \<in> {a. \<exists>t. wants t a}"
    then obtain t rest where t: "todo s t = Lock a # rest" by (auto simp: wants_def)
    with T(2) [of t] have "t \<in> T" by (cases "t \<in> T") auto
    with t show "a \<in> (\<lambda>t. case todo s t of Lock a # _ \<Rightarrow> a) ` T" by (intro image_eqI [of _ _ t]) simp_all
  qed
  then have fin: "finite ?R" using T(1) by (meson finite_imageI finite_subset)
  obtain t where "todo s t \<noteq> []"
  proof -
    have "todo s u \<noteq> []" if "holder s a = Some u" for a u
      using that C [of u] by (auto simp: held_by_def)
    with assms(4) that show ?thesis unfolding all_unlocked_def by (metis not_Some_eq)
  qed
  with busy have "?R \<noteq> {}" by blast
  with fin have "Max ?R \<in> ?R" by (rule Max_in)
  then obtain t a where a: "wants t a" "rank a = Max ?R" by auto
  from above [OF a(1)] obtain u b where "wants u b" "rank a < rank b" by blast
  then have "rank b \<le> Max ?R" by (intro Max_ge [OF fin]) blast
  with \<open>rank a < rank b\<close> a(2) show False by simp
qed

lemma lock_step_less:
  assumes "finite T" "\<And>t. t \<notin> T \<Longrightarrow> todo s t = []" and step: "lock_step t s = Some s'"
  shows "(s', s) \<in> measure (\<lambda>s. \<Sum>t\<in>T. length (todo s t))"
proof -
  have "(\<Sum>t\<in>T. length (todo s' t)) < (\<Sum>t\<in>T. length (todo s t))"
  proof (rule sum_less_one [OF assms(1), of t])
    show "t \<in> T" using assms(2) [of t] step by (cases "t \<in> T") (auto simp: lock_step_def)
  qed (use step in \<open>auto elim: lock_step_cases\<close>)
  then show ?thesis by simp
qed

lemma lock_step_idle:
  assumes "\<And>t. t \<notin> T \<Longrightarrow> todo s t = []" "lock_step t s = Some s'" "u \<notin> T"
  shows "todo s' u = []"
  using assms(2) assms(1) [OF assms(3)] by (cases rule: lock_step_cases) auto

interpretation ordered_locks: thread_system lock_step
    "\<lambda>s. finite T \<and> (\<forall>t. t \<notin> T \<longrightarrow> todo s t = []) \<and> climb_inv rank s"
    all_unlocked "measure (\<lambda>s. \<Sum>t\<in>T. length (todo s t))"
proof (unfold_locales, goal_cases)
  case (2 s t s')
  then show ?case using climb_inv_step [of rank s t s'] lock_step_idle [of T s t s'] by blast
next
  case (3 s t s')
  then show ?case by (blast intro: lock_step_less)
next
  case (4 s)
  then show ?case using locks_progress [of T s rank] by blast
qed simp

text \<open>C24. Threads that call methods of byte arrays and construct readers and writers that keep
  the mutex, also in the scope of one another, can always go on until every one is done and
  every mutex is free, and cannot run without end. This needs one order of the arrays (\<open>rank\<close>)
  such that a sequential reader is given its arrays in this order, and what is called or
  constructed in the scope of an object comes after the arrays of the object.\<close>

theorem ordered_locks_finish:
  assumes "schedule lock_step ts (locks_start progs) = Some s" "finite {t. progs t \<noteq> []}"
    and "\<forall>t. \<forall>c \<in> set (progs t). nested_ok rank {} c"
  shows "(\<exists>ts' s'. schedule lock_step ts' s = Some s' \<and> all_unlocked s')
     \<and> (\<forall>f. \<exists>n. schedule lock_step (map f [0..<n]) s = None)"
proof -
  let ?T = "{t. progs t \<noteq> []}"
  have "finite ?T \<and> (\<forall>t. t \<notin> ?T \<longrightarrow> todo (locks_start progs) t = []) \<and> climb_inv rank (locks_start progs)"
    using assms(2) climb_inv_start [OF assms(3)] by (simp add: locks_start_def)
  from ordered_locks.run_inv [OF this assms(1)]
  have inv: "finite ?T \<and> (\<forall>t. t \<notin> ?T \<longrightarrow> todo s t = []) \<and> climb_inv rank s" .
  show ?thesis using ordered_locks.can_finish [OF inv] ordered_locks.no_endless_run [OF inv] by blast
qed

text \<open>What \<open>HttpChannelConversion.cpp\<close> constructs to send: a reader of the header, then the body.\<close>

definition http_send_locks :: "nat \<Rightarrow> nat \<Rightarrow> locking" where
  "http_send_locks header body = SequentialReaderWithLock [header, body]"

text \<open>Two channels that send, one body in common, while a thread writes a header and, keeping
  the mutex of it, the body.\<close>

lemma ordered_locks_finish_witness:
  "\<exists>s ts' s'. schedule lock_step [0, 0, 1, 2]
        (locks_start ((\<lambda>_. [])(0 := [Within (http_send_locks 0 2) []],
           1 := [Within (http_send_locks 1 2) [], Method 1],
           2 := [Method 0, Within (WriterWithLock 0) [Method 2]]))) = None
     \<and> schedule lock_step [0, 1, 1] (locks_start ((\<lambda>_. [])(0 := [Within (http_send_locks 0 2) []],
           1 := [Within (http_send_locks 1 2) [], Method 1],
           2 := [Method 0, Within (WriterWithLock 0) [Method 2]]))) = Some s
     \<and> schedule lock_step ts' s = Some s' \<and> all_unlocked s'"
proof -
  let ?progs = "(\<lambda>_. [])(0 := [Within (http_send_locks 0 2) []],
      1 := [Within (http_send_locks 1 2) [], Method 1],
      2 := [Method 0, Within (WriterWithLock 0) [Method 2]]) :: nat \<Rightarrow> byte_use list"
  obtain s where s: "schedule lock_step [0, 1, 1] (locks_start ?progs) = Some s"
    by (simp add: lock_step_def locks_start_def http_send_locks_def)
  have "{t. ?progs t \<noteq> []} \<subseteq> {0, 1, 2}" by auto
  then have "finite {t. ?progs t \<noteq> []}" by (rule finite_subset) simp
  moreover have "\<forall>t. \<forall>c \<in> set (?progs t). nested_ok id {} c" by (simp add: http_send_locks_def)
  moreover have "schedule lock_step [0, 0, 1, 2] (locks_start ?progs) = None"
    by (simp add: lock_step_def locks_start_def http_send_locks_def)
  ultimately show ?thesis using ordered_locks_finish [OF s] s by blast
qed

subsection \<open>Arrays locked twice\<close>

text \<open>A thread that holds the arrays of \<open>H\<close> locks one of them again: a method in the scope of an
  object that keeps the mutex, an object in the scope of another, or a sequential reader that
  is given an array twice.\<close>

fun relocks :: "nat set \<Rightarrow> byte_use \<Rightarrow> bool" where
  "relocks H (Method a) = (a \<in> H)"
| "relocks H (Within (ReaderWithLock a) uses) = (a \<in> H \<or> list_ex (relocks (insert a H)) uses)"
| "relocks H (Within (WriterWithLock a) uses) = (a \<in> H \<or> list_ex (relocks (insert a H)) uses)"
| "relocks H (Within (SequentialReaderWithLock as) uses) =
     (\<not> distinct as \<or> set as \<inter> H \<noteq> {} \<or> list_ex (relocks (set as \<union> H)) uses)"

fun self_locks :: "nat set \<Rightarrow> lock_action list \<Rightarrow> bool" where
  "self_locks H [] = False"
| "self_locks H (Lock a # rest) = (a \<in> H \<or> self_locks (insert a H) rest)"
| "self_locks H (Unlock a # rest) = self_locks (H - {a}) rest"

lemma self_locks_Locks:
  "self_locks H (map Lock as @ rest) \<longleftrightarrow> \<not> distinct as \<or> set as \<inter> H \<noteq> {} \<or> self_locks (set as \<union> H) rest"
  by (induction as arbitrary: H) auto

lemma self_locks_Unlocks:
  "distinct as \<Longrightarrow> set as \<inter> H = {} \<Longrightarrow> self_locks (set as \<union> H) (map Unlock as @ rest) = self_locks H rest"
proof (induction as)
  case (Cons a as)
  have "set (a # as) \<union> H - {a} = set as \<union> H" using Cons.prems by auto
  with Cons show ?case by simp
qed simp

lemma self_locks_concat:
  assumes "\<And>c rest. c \<in> set cs \<Longrightarrow> self_locks H (actions c @ rest) = (P c \<or> self_locks H rest)"
  shows "self_locks H (concat (map actions cs) @ rest) = (list_ex P cs \<or> self_locks H rest)"
  using assms by (induction cs) simp_all

lemma self_locks_Within:
  assumes "\<And>c rest. c \<in> set cs \<Longrightarrow> self_locks (set (locks_of object) \<union> H) (actions c @ rest)
      = (P c \<or> self_locks (set (locks_of object) \<union> H) rest)"
  shows "self_locks H (actions (Within object cs) @ rest) \<longleftrightarrow>
     \<not> distinct (locks_of object) \<or> set (locks_of object) \<inter> H \<noteq> {} \<or> list_ex P cs \<or> self_locks H rest"
  using self_locks_concat [OF assms] self_locks_Unlocks [of "locks_of object" H rest]
  by (auto simp: self_locks_Locks)

lemma self_locks_actions: "self_locks H (actions c @ rest) = (relocks H c \<or> self_locks H rest)"
proof (induction H c arbitrary: rest rule: relocks.induct)
  case (1 H a)
  show ?case by (cases "a \<in> H") (simp_all add: Diff_insert_absorb)
next
  case (2 H a uses)
  then show ?case using self_locks_Within [of uses "ReaderWithLock a" H "relocks (insert a H)" rest] by simp
next
  case (3 H a uses)
  then show ?case using self_locks_Within [of uses "WriterWithLock a" H "relocks (insert a H)" rest] by simp
next
  case (4 H as uses)
  then show ?case using self_locks_Within [of uses "SequentialReaderWithLock as" H "relocks (set as \<union> H)" rest] by simp
qed

lemma self_locks_start: "self_locks {} (concat (map actions cs)) = list_ex (relocks {}) cs"
  using self_locks_concat [of cs "{}" "relocks {}" "[]"] self_locks_actions by simp

text \<open>What is in the way of a thread stays there, whatever the others do; a thread that nothing
  is in the way of runs to its end when the others let it.\<close>

lemma self_locks_step:
  assumes "unlocks_inv s \<and> self_locks (held_by s u) (todo s u)" "lock_step t s = Some s'"
  shows "unlocks_inv s' \<and> self_locks (held_by s' u) (todo s' u)"
  using thread_invariant_step [of s t s' self_locks u] unlocks_inv_step [of s t s'] assms by simp

lemma runs_alone:
  assumes "unlocks_inv s" "\<not> self_locks (held_by s t) (todo s t)" "\<And>u. u \<noteq> t \<Longrightarrow> held_by s u = {}"
  shows "\<exists>s'. schedule lock_step (replicate (length (todo s t)) t) s = Some s' \<and> todo s' t = []"
  using assms
proof (induction "length (todo s t)" arbitrary: s)
  case (Suc n)
  obtain s1 where s1: "lock_step t s = Some s1"
  proof (cases "todo s t")
    case (Cons x rest)
    have "holder s a = None" if "x = Lock a" for a
    proof (cases "holder s a")
      case (Some u)
      then have "a \<in> held_by s u" by (simp add: held_by_def)
      with Suc.prems(2) Suc.prems(3) [of u] Cons that show ?thesis by (cases "u = t") auto
    qed
    with Cons that show ?thesis by (cases x) (auto simp: lock_step_def)
  qed (use Suc.hyps(2) in simp)
  note H = held_by_step [OF Suc.prems(1) s1]
  have "n = length (todo s1 t)" "\<not> self_locks (held_by s1 t) (todo s1 t)"
    using s1 Suc.hyps(2) Suc.prems(2) H(2,3) by (cases rule: lock_step_cases; fastforce)+
  moreover have "held_by s1 u = {}" if "u \<noteq> t" for u using H(1) [OF that] Suc.prems(3) [OF that] by simp
  ultimately show ?case using Suc.hyps(1) [of s1] unlocks_inv_step [OF Suc.prems(1) s1] s1 Suc.hyps(2)
    by (simp flip: Suc.hyps(2))
qed simp

lemma self_locks_stays:
  assumes "self_locks (held_by (locks_start progs) t) (todo (locks_start progs) t)"
    and "schedule lock_step ts (locks_start progs) = Some s"
  shows "todo s t \<noteq> []"
proof -
  let ?I = "\<lambda>s. unlocks_inv s \<and> self_locks (held_by s t) (todo s t)"
  have step: "?I s'" if "?I s" "lock_step u s = Some s'" for u s s' using self_locks_step [OF that] .
  have "?I (locks_start progs)" using assms(1) unlocks_inv_start by blast
  from schedule_inv [of ?I, OF step this assms(2)] have "?I s" .
  then show ?thesis by (cases "todo s t") simp_all
qed

text \<open>C25. A thread can come to the end of its calls, by whatever interleaving with the others,
  exactly if it never locks an array that it holds: never calls a method of an array, or
  constructs a reader or writer of it, in the scope of an object that keeps its mutex, and never
  gives a sequential reader an array twice (the notes of \<^verbatim>\<open>ByteArray.h\<close> on dead locks).\<close>

theorem thread_ends_iff:
  "(\<exists>ts s. schedule lock_step ts (locks_start progs) = Some s \<and> todo s t = [])
     \<longleftrightarrow> (\<nexists>c. c \<in> set (progs t) \<and> relocks {} c)"
proof -
  let ?s = "locks_start progs"
  have start: "self_locks (held_by ?s t) (todo ?s t) \<longleftrightarrow> (\<exists>c. c \<in> set (progs t) \<and> relocks {} c)"
    using self_locks_start [of "progs t"] by (simp add: list_ex_iff Bex_def) (simp add: locks_start_def)
  have "todo s t \<noteq> []" if "self_locks (held_by ?s t) (todo ?s t)" "schedule lock_step ts ?s = Some s" for ts s
    using that self_locks_stays by blast
  with start show ?thesis using runs_alone [OF unlocks_inv_start [of progs], of t] by fastforce
qed

text \<open>Two sequential readers of the same arrays in opposite order can wait for each other: the
  order in the theorem on ordered arrays is needed.\<close>

lemma crossed_arrays_deadlock:
  "\<exists>s. schedule lock_step [0, 1]
        (locks_start ((\<lambda>_. [])(0 := [Within (SequentialReaderWithLock [0, 1]) []],
           1 := [Within (SequentialReaderWithLock [1, 0]) []]))) = Some s
     \<and> (\<forall>t. lock_step t s = None) \<and> \<not> all_unlocked s"
  by (auto simp: lock_step_def locks_start_def all_unlocked_def intro: exI [of _ 0])

text \<open>The notes of \<^verbatim>\<open>ByteArray.h\<close>: a method in the scope of a reader of the same array.\<close>

lemma method_under_reader:
  "schedule lock_step ts (locks_start progs) = Some s \<Longrightarrow>
     progs t = [Within (ReaderWithLock a) [Method a]] \<Longrightarrow> todo s t \<noteq> []"
  by (rule self_locks_stays [of progs t ts s]) (simp_all, simp add: locks_start_def)

end
