(* ===== verification/Spec2Isabelle.thy ===== *)
theory Spec2Isabelle
  imports CowByteArray DotSegments Channel Epoll Loop LoopThreads TimeWheel TimerHandler PooledEvents SignalHandler
    Log Kick Connector Acceptor HttpParser Dns UriExamples
    SharedReader LockOrder
begin

text \<open>
  netpp, a network library in C++20 for Linux, as a model of its core.

  The program. A user opens a \<^verbatim>\<open>TcpServer\<close> or \<^verbatim>\<open>TcpClient\<close>; its
  \<^verbatim>\<open>Acceptor\<close> or \<^verbatim>\<open>Connector\<close> makes a \<^verbatim>\<open>TcpConnection\<close> in one of
  the event loops that the dispatcher hands out. A loop polls descriptors through
  \<^verbatim>\<open>Epoll\<close> and runs the handlers of the ready events; other threads give it
  functors through \<^verbatim>\<open>RunInLoopHandler\<close>. A connection moves bytes between its
  socket and the \<^verbatim>\<open>ByteArray\<close> buffers of its channel through
  \<^verbatim>\<open>SocketIO\<close>, reports to the user through \<^verbatim>\<open>Events\<close> (in the loop or in a
  thread pool), and is closed when idle by a \<^verbatim>\<open>TimeWheel\<close> that a
  \<^verbatim>\<open>Timer\<close> drives. Beside this stand signal handling, URIs and the beginnings of
  HTTP.

  The theories, each modelling the files named in its own first block:
  \<^item> \<^verbatim>\<open>Prelude\<close>: copying into and out of arrays, unsigned subtraction, and the
    interface \<open>machine\<close> of a system with an invariant, which several components
    interpret.
  \<^item> \<^verbatim>\<open>BufferNode\<close>, \<^verbatim>\<open>ByteQueue\<close>, \<^verbatim>\<open>ByteArray\<close>,
    \<^verbatim>\<open>ByteArrayIO\<close>: the buffers. \<open>ByteQueue\<close> states what a byte array promises
    (a first-in first-out queue of bytes, and values of fixed width in it) as locales; the
    byte array interprets them, which refines the vector of 1024-byte nodes, its read and
    write positions and its two counters to a list of bytes.
  \<^item> \<^verbatim>\<open>CowLink\<close>, \<^verbatim>\<open>CowByteArray\<close>: the vector of shared nodes below a byte
    array, over a store with use counts, and the byte array on top of it with its copy and
    move constructors. On unshared nodes it simulates the array of \<^verbatim>\<open>ByteArray\<close> and
    leaves all other nodes alone, so that any number of arrays are independent queues; a
    copied array is not, because a node copied on access is empty.
  \<^item> \<^verbatim>\<open>Threads\<close>, \<^verbatim>\<open>SharedArray\<close>, \<^verbatim>\<open>SharedReader\<close>,
    \<^verbatim>\<open>LockOrder\<close>: byte arrays used by several threads. \<open>Threads\<close> is the interface of
    threads that cannot block one another for ever. \<open>SharedArray\<close> takes the methods of an
    array apart into the steps between locking and unlocking its mutex and shows that they
    behave as if each were one step, which the other theories assume; \<open>SharedReader\<close> shows
    what a channel's reader, which makes two calls for one read, promises to one thread and
    not to two; \<open>LockOrder\<close> looks at the mutexes alone: methods, and the objects that keep
    mutexes, used one inside the scope of another, with the order of the arrays that keeps
    threads from deadlock and the nestings in which a thread waits for itself.
  \<^item> \<^verbatim>\<open>Errors\<close>, \<^verbatim>\<open>Stub\<close>, \<^verbatim>\<open>Socket\<close>: error values, which
    \<^verbatim>\<open>errno\<close> each system call wrapper turns into which exception, which calls are
    restarted, and sockets over them. Exceptions are the left side of a sum.
  \<^item> \<^verbatim>\<open>SocketIO\<close>: byte arrays as memory blocks for \<^verbatim>\<open>sendmsg\<close> and
    \<^verbatim>\<open>recvmsg\<close>; the locale \<open>block_source\<close> is what sending relies on. The object for
    receiving, \<^verbatim>\<open>ByteArrayWriterWithLock\<close>, is modelled as it is written; no conversion of
    the program hands it out, and what the conversions hand out instead is in \<open>Channel\<close>.
  \<^item> \<^verbatim>\<open>Channel\<close>, \<^verbatim>\<open>TcpConnection\<close>, \<^verbatim>\<open>Kick\<close>: the buffers shared
    with the user, and a connection with everything its handlers change, as a state machine
    over the events of the kernel, the user, the wheel and the loop; and the connection
    together with the ticks of its wheel, from idle to half closed and beyond.
  \<^item> \<^verbatim>\<open>Net\<close>, \<^verbatim>\<open>Connector\<close>, \<^verbatim>\<open>Acceptor\<close>: the
    dispatcher's loops with the connections made in them, and the two kinds of handlers
    that make connections, with the client and the server on top: accepting, connecting with
    its retries, stopping, and which of these leave something behind.
  \<^item> \<^verbatim>\<open>StdMap\<close>, \<^verbatim>\<open>HttpCode\<close>, \<^verbatim>\<open>Http\<close>,
    \<^verbatim>\<open>HttpParser\<close>: \<^verbatim>\<open>std::map\<close> as an instance of the interface
    \<open>dictionary\<close> (the first value given to a key stays), which the table of routes also
    interprets; HTTP messages, what their encoder writes, and the decoder over the parser
    library as a parameter.
  \<^item> \<^verbatim>\<open>Epoll\<close>, \<^verbatim>\<open>EventLoop\<close>, \<^verbatim>\<open>Loop\<close>, \<^verbatim>\<open>TimeWheel\<close>,
    \<^verbatim>\<open>Timer\<close>, \<^verbatim>\<open>Signals\<close>, \<^verbatim>\<open>Events\<close>: the machinery; concurrent parts
    are step relations whose reachable states satisfy an invariant. \<open>Epoll\<close> runs the poller
    against the kernel's interest list, from which closing a descriptor removes it; \<open>Timer\<close>
    refines the settings to an alarm clock in nanoseconds. \<open>Loop\<close> is what the constructors
    of an event loop set up.
  \<^item> \<^verbatim>\<open>ThreadPool\<close>, \<^verbatim>\<open>PooledTask\<close>, \<^verbatim>\<open>PooledEvents\<close>,
    \<^verbatim>\<open>LoopThreads\<close>: the pool's queue, counters and workers as atomic events in any
    order; the futures of its tasks and the order in which they are called; the user's
    events as tasks; and the dispatcher's loops on the pool's threads, each of which gets a
    thread of its own.
  \<^item> \<^verbatim>\<open>TimerHandler\<close>, \<^verbatim>\<open>SignalHandler\<close>: timers and the signal handler in
    their loops, with the functors that register and unregister them run at any time: what
    the poller and the kernel watch, when that is what it should be, and when it is not.
  \<^item> \<^verbatim>\<open>Address\<close>, \<^verbatim>\<open>Dns\<close>, \<^verbatim>\<open>Log\<close>: addresses in network byte
    order, the program's side of name resolution, and the global logger.
  \<^item> \<^verbatim>\<open>UriCodec\<close>, \<^verbatim>\<open>UriParse\<close>, \<^verbatim>\<open>Uri\<close>: percent encoding, the parser
    phase by phase, and the operations on URIs; \<^verbatim>\<open>DotSegments\<close> compares the removal of
    dot segments with the routine of RFC 3986 on the text of a path; \<^verbatim>\<open>UriExamples\<close>
    evaluates the operations on the examples of the repository's unit tests.

  Conventions. Undefined behaviour (an index past a vector, a copy outside a buffer, an
  invalid iterator, a null pointer) and a call that never returns are the value
  \<^term>\<open>None\<close>. Results of system calls are arguments: a single \<open>sysret\<close>, or a
  function of the attempt for a call that is restarted while it is interrupted. Counters
  and sizes are natural numbers; where the code subtracts unsigned values the wrap-around
  is written out (\<open>sub64\<close>). Integers in buffers are words of their width. Loops over
  indices are recursive functions with a measure; the restarted call is a partial function
  whose termination is characterised exactly, and so is the copying loop of the HTTP decoder,
  which is proved never to end. An exception that leaves the event loop ends the loop and is
  \<^term>\<open>None\<close> too. No fuel is used.

  Not modelled: exceptions thrown by user callbacks in a loop (in the pool they are an
  outcome of the task); the resolver library c-ares, the HTTP parser llhttp and the logging
  library, which are not in the repository (what they return is an argument, a logger is a
  number); \<^verbatim>\<open>inet_addr\<close>, an argument too; the HTTP events, whose functions are
  empty. The mutexes of the other components (the event loop, the dispatcher, the pool's queue,
  the routes, the signal watcher) are not modelled as such: an operation that holds one is a
  single step, and none of them holds two.
\<close>

end
